(* ===== verification/Redis_Prelude.thy ===== *)
theory Redis_Prelude
  imports Main "HOL-Library.Word" "HOL-Library.Monad_Syntax" "HOL-Library.Multiset"
begin

text \<open>
  What every component of the development shares: the machine types of the C sources, the
  byte-addressed blocks that the packed encodings (intset, ziplist, zipmap, RDB) live in, the
  little-endian reading and writing of integers in such a block, and the generic list lemmas.

  A block of memory is a \<open>byte list\<close>. An access outside the block is undefined behaviour in C;
  here it is the value \<^const>\<open>None\<close>, so that a theorem that an operation returns
  \<open>Some\<close> also says that it never leaves its block. The bytes that \<open>zrealloc\<close> adds have no
  specified value: they are a parameter \<open>junk\<close> of every operation that grows a block.
\<close>

unbundle bit_operations_syntax

type_synonym byte = "8 word"
type_synonym uint16 = "16 word"
type_synonym uint32 = "32 word"
type_synonym uint64 = "64 word"

named_theorems mem_simps "reading, writing and moving bytes of a block"
named_theorems le_simps "little-endian integers"

section \<open>Unsigned and signed 32-bit arithmetic on \<open>nat\<close> and \<open>int\<close>\<close>

definition u32 :: "nat \<Rightarrow> nat" where
  "u32 n = n mod 2 ^ 32"

definition u32_sub :: "nat \<Rightarrow> nat \<Rightarrow> nat" where
  "u32_sub a b = (a + 2 ^ 32 - b mod 2 ^ 32) mod 2 ^ 32"

text \<open>The conversion of an unsigned 32-bit value to \<open>int\<close>.\<close>

definition int_of_u32 :: "nat \<Rightarrow> int" where
  "int_of_u32 n = (let m = int n mod 2 ^ 32 in if m < 2 ^ 31 then m else m - 2 ^ 32)"

lemma u32_id: "n < 2 ^ 32 \<Longrightarrow> u32 n = n"
  by (simp add: u32_def)

lemma u32_sub_id: "b \<le> a \<Longrightarrow> a < 2 ^ 32 \<Longrightarrow> u32_sub a b = a - b"
proof -
  assume "b \<le> a" "a < 2 ^ 32"
  then have "a + 2 ^ 32 - b mod 2 ^ 32 = (a - b) + 2 ^ 32" by simp
  moreover have "a - b < 2 ^ 32" using \<open>a < 2 ^ 32\<close> by simp
  ultimately show ?thesis by (simp add: u32_sub_def)
qed

lemma int_of_u32_id: "n < 2 ^ 31 \<Longrightarrow> int_of_u32 n = int n"
  by (simp add: int_of_u32_def Let_def)

section \<open>Blocks of bytes\<close>

definition mem_read :: "nat \<Rightarrow> nat \<Rightarrow> 'a list \<Rightarrow> 'a list option" where
  "mem_read i n bs = (if i + n \<le> length bs then Some (take n (drop i bs)) else None)"

definition mem_write :: "nat \<Rightarrow> 'a list \<Rightarrow> 'a list \<Rightarrow> 'a list option" where
  "mem_write i xs bs =
     (if i + length xs \<le> length bs then Some (take i bs @ xs @ drop (i + length xs) bs) else None)"

text \<open>\<open>memmove(dst, src, n)\<close> inside one block: the source is read before it is overwritten.\<close>

definition mem_move :: "nat \<Rightarrow> nat \<Rightarrow> nat \<Rightarrow> 'a list \<Rightarrow> 'a list option" where
  "mem_move dst src n bs = Option.bind (mem_read src n bs) (\<lambda>xs. mem_write dst xs bs)"

definition mem_realloc :: "(nat \<Rightarrow> 'a) \<Rightarrow> nat \<Rightarrow> 'a list \<Rightarrow> 'a list" where
  "mem_realloc junk n bs = take n bs @ map junk [length bs..<n]"

lemma length_mem_realloc [simp]: "length (mem_realloc junk n bs) = n"
  by (simp add: mem_realloc_def)

lemma mem_realloc_grow: "length bs \<le> n \<Longrightarrow> mem_realloc junk n bs = bs @ map junk [length bs..<n]"
  by (simp add: mem_realloc_def)

lemma mem_realloc_shrink: "n \<le> length bs \<Longrightarrow> mem_realloc junk n bs = take n bs"
  by (simp add: mem_realloc_def)

lemma mem_realloc_append: "length xs = n \<Longrightarrow> mem_realloc junk n (xs @ ys) = xs"
  by (simp add: mem_realloc_def)

lemma mem_write_Some_iff [mem_simps]:
  "mem_write i xs bs = Some cs \<longleftrightarrow>
     i + length xs \<le> length bs \<and> cs = take i bs @ xs @ drop (i + length xs) bs"
  by (auto simp: mem_write_def)

lemma mem_read_Some_iff [mem_simps]:
  "mem_read i n bs = Some xs \<longleftrightarrow> i + n \<le> length bs \<and> xs = take n (drop i bs)"
  by (auto simp: mem_read_def)

lemma mem_write_length: "mem_write i xs bs = Some cs \<Longrightarrow> length cs = length bs"
  by (auto simp: mem_simps)

section \<open>Little-endian integers\<close>

primrec le_bytes :: "nat \<Rightarrow> int \<Rightarrow> byte list" where
  "le_bytes 0 v = []"
| "le_bytes (Suc n) v = word_of_int v # le_bytes n (v div 256)"

primrec le_uint :: "byte list \<Rightarrow> int" where
  "le_uint [] = 0"
| "le_uint (b # bs) = uint b + 256 * le_uint bs"

definition le_sint :: "byte list \<Rightarrow> int" where
  "le_sint bs = (let u = le_uint bs; m = 256 ^ length bs in if m \<le> 2 * u then u - m else u)"

lemma length_le_bytes [simp, le_simps]: "length (le_bytes n v) = n"
  by (induction n arbitrary: v) simp_all

lemma le_uint_bounds: "0 \<le> le_uint bs \<and> le_uint bs < 256 ^ length bs"
proof (induction bs)
  case (Cons b bs)
  have "uint b < 256" using uint_lt2p [of b] by simp
  with Cons show ?case by (simp add: uint_ge_0)
qed simp

lemma le_uint_le_bytes [le_simps]: "le_uint (le_bytes n v) = v mod 256 ^ n"
proof (induction n arbitrary: v)
  case (Suc n)
  have "v mod 256 + 256 * (v div 256 mod 256 ^ n) = v mod (256 * 256 ^ n)"
    using mod_mult2_eq' [of v 256 "256 ^ n"] by (simp add: zmod_zmult2_eq)
  then show ?case using Suc by (simp add: uint_word_of_int)
qed simp

definition fits :: "nat \<Rightarrow> int \<Rightarrow> bool" where
  "fits n v \<longleftrightarrow> - (256 ^ n) \<le> 2 * v \<and> 2 * v < 256 ^ n"

lemma le_sint_le_bytes [le_simps]: "fits n v \<Longrightarrow> le_sint (le_bytes n v) = v"
proof -
  assume f: "fits n v"
  show ?thesis
  proof (cases "0 \<le> v")
    case True
    with f have "v mod 256 ^ n = v" by (simp add: fits_def)
    with f True show ?thesis by (simp add: le_sint_def le_uint_le_bytes fits_def)
  next
    case False
    with f have "(v + 256 ^ n) mod 256 ^ n = v + 256 ^ n"
      by (intro mod_pos_pos_trivial) (auto simp: fits_def)
    then have "v mod 256 ^ n = v + 256 ^ n" by simp
    with f False show ?thesis by (simp add: le_sint_def le_uint_le_bytes fits_def)
  qed
qed

lemma le_sint_fits: "fits (length bs) (le_sint bs)"
proof -
  have "even (256 ^ length bs :: int)" if "bs \<noteq> []" using that by (cases bs) simp_all
  with le_uint_bounds [of bs] show ?thesis
    by (cases bs) (auto simp: le_sint_def fits_def Let_def)
qed

lemma byte_of_add_256: "word_of_int (v + 256 * k) = (word_of_int v :: byte)"
  by transfer (simp add: take_bit_eq_mod)

lemma le_bytes_le_uint: "le_bytes (length bs) (le_uint bs) = bs"
proof (induction bs)
  case (Cons b bs)
  have "uint b < 256" using uint_lt2p [of b] by simp
  then have "(uint b + 256 * le_uint bs) div 256 = le_uint bs"
    by (simp add: uint_ge_0 div_add1_eq)
  moreover have "word_of_int (uint b + 256 * le_uint bs) = b"
    by (simp only: byte_of_add_256 word_of_int_uint)
  ultimately show ?case using Cons by simp
qed simp

lemma le_bytes_add_mult: "le_bytes n (v + k * 256 ^ n) = le_bytes n v"
proof (induction n arbitrary: v)
  case (Suc n)
  have "(v + k * 256 ^ Suc n) div 256 = v div 256 + k * 256 ^ n"
    using div_mult_self2 [of 256 v "k * 256 ^ n"] by (simp add: algebra_simps)
  moreover have "word_of_int (v + k * 256 ^ Suc n) = (word_of_int v :: byte)"
    using byte_of_add_256 [of v "k * 256 ^ n"] by (simp only: power_Suc mult.left_commute)
  ultimately show ?case using Suc [of "v div 256"] by simp
qed simp

lemma le_bytes_le_sint: "length bs = n \<Longrightarrow> le_bytes n (le_sint bs) = bs"
  using le_bytes_add_mult [of n "le_uint bs" "-1"] le_bytes_le_uint [of bs]
  by (auto simp: le_sint_def Let_def)

lemma fits_mono: "fits n v \<Longrightarrow> n \<le> m \<Longrightarrow> fits m v"
proof -
  assume f: "fits n v" and "n \<le> m"
  then have "(256::int) ^ n \<le> 256 ^ m" by (simp add: power_increasing)
  with f show ?thesis unfolding fits_def by linarith
qed

section \<open>Arrays of little-endian integers of one width\<close>

definition blk :: "nat \<Rightarrow> int list \<Rightarrow> byte list" where
  "blk e xs = concat (map (le_bytes e) xs)"

lemma blk_simps [simp]:
  "blk e [] = []" "blk e (x # xs) = le_bytes e x @ blk e xs" "blk e (xs @ ys) = blk e xs @ blk e ys"
  by (simp_all add: blk_def)

lemma length_blk [simp]: "length (blk e xs) = e * length xs"
  by (induction xs) simp_all

lemma take_blk: "take (e * i) (blk e xs) = blk e (take i xs)"
proof (induction xs arbitrary: i)
  case (Cons x xs)
  then show ?case by (cases i) simp_all
qed simp

lemma drop_blk: "drop (e * i) (blk e xs) = blk e (drop i xs)"
proof (induction xs arbitrary: i)
  case (Cons x xs)
  then show ?case by (cases i) simp_all
qed simp

lemma take_blk_append: "i \<le> length xs \<Longrightarrow> take (e * i) (blk e xs @ t) = blk e (take i xs)"
  by (simp add: take_blk)

lemma drop_blk_append: "i \<le> length xs \<Longrightarrow> drop (e * i) (blk e xs @ t) = blk e (drop i xs) @ t"
  by (simp add: drop_blk)

lemma blk_decode:
  assumes "length bs = e * n"
  shows "bs = blk e (map (\<lambda>i. le_sint (take e (drop (e * i) bs))) [0..<n])"
  using assms
proof (induction n arbitrary: bs)
  case (Suc n)
  let ?f = "\<lambda>bs i. le_sint (take e (drop (e * i) bs))"
  have "length (drop e bs) = e * n" using Suc.prems by simp
  from Suc.IH [OF this] have "drop e bs = blk e (map (?f (drop e bs)) [0..<n])" .
  also have "map (?f (drop e bs)) [0..<n] = map (\<lambda>i. ?f bs (Suc i)) [0..<n]"
    by (simp add: add.commute)
  finally have d: "drop e bs = blk e (map (\<lambda>i. ?f bs (Suc i)) [0..<n])" .
  have "le_bytes e (?f bs 0) = take e bs"
    using Suc.prems le_bytes_le_sint [of "take e bs" e] by simp
  then have "blk e (map (?f bs) [0..<Suc n]) = take e bs @ blk e (map (\<lambda>i. ?f bs (Suc i)) [0..<n])"
    by (simp del: upt_Suc add: upt_conv_Cons map_Suc_upt [symmetric] comp_def)
  with d show ?case by (metis append_take_drop_id)
qed simp

lemma mem_read_blk [mem_simps]:
  assumes "i < length xs"
  shows "mem_read (e * i) e (blk e xs @ t) = Some (le_bytes e (xs ! i))"
proof -
  have "drop (e * i) (blk e xs @ t) = le_bytes e (xs ! i) @ blk e (drop (Suc i) xs) @ t"
    using assms by (simp add: drop_blk flip: Cons_nth_drop_Suc)
  moreover have "e * i + e \<le> e * length xs"
    using assms by (metis Suc_leI mult_Suc_right mult_le_mono2 add.commute)
  ultimately show ?thesis by (simp add: mem_read_def)
qed

lemma mem_write_blk [mem_simps]:
  assumes "i < length xs"
  shows "mem_write (e * i) (le_bytes e v) (blk e xs @ t) = Some (blk e (xs[i := v]) @ t)"
proof -
  have le: "e * i + e = e * Suc i" by simp
  have len: "e * Suc i \<le> e * length xs" using assms by (intro mult_le_mono2) simp
  have "drop (e * Suc i) (blk e xs @ t) = blk e (drop (Suc i) xs) @ t"
    using assms by (intro drop_blk_append) simp
  moreover have "take (e * i) (blk e xs @ t) = blk e (take i xs)"
    using assms by (intro take_blk_append) simp
  ultimately show ?thesis using assms len
    by (simp only: mem_write_def length_le_bytes le length_append length_blk upd_conv_take_nth_drop)
       (simp add: add.commute)
qed

section \<open>Removing an element of an array\<close>

definition remove_at :: "nat \<Rightarrow> 'a list \<Rightarrow> 'a list" where
  "remove_at k xs = take k xs @ drop (Suc k) xs"

lemma distinct_remove_at: "distinct (map f xs) \<Longrightarrow> distinct (map f (remove_at k xs))"
proof -
  assume d: "distinct (map f xs)"
  have "map f (remove_at k xs) = take k (map f xs) @ drop (Suc k) (map f xs)" by (simp add: remove_at_def take_map drop_map)
  moreover have "set (take k (map f xs)) \<inter> set (drop (Suc k) (map f xs)) = {}"
    using d by (metis Suc_n_not_le_n linear set_take_disj_set_drop_if_distinct)
  ultimately show ?thesis using d by simp
qed

lemma set_remove_at: "set (remove_at k xs) \<subseteq> set xs"
  by (auto simp: remove_at_def dest: in_set_takeD in_set_dropD)

lemma remove_at_props:
  assumes "k < length xs" "distinct xs"
  shows "distinct (remove_at k xs)" "set (remove_at k xs) = set xs - {xs ! k}" "length (remove_at k xs) = length xs - 1"
proof -
  have x: "xs = take k xs @ xs ! k # drop (Suc k) xs" using assms(1) by (rule id_take_nth_drop)
  have d: "distinct (take k xs @ xs ! k # drop (Suc k) xs)" using assms(2) x by simp
  then show "distinct (remove_at k xs)" by (simp add: remove_at_def)
  have "set xs = set (take k xs) \<union> {xs ! k} \<union> set (drop (Suc k) xs)" by (subst x) auto
  then show "set (remove_at k xs) = set xs - {xs ! k}" using d by (auto simp: remove_at_def)
  show "length (remove_at k xs) = length xs - 1" using assms(1) by (simp add: remove_at_def)
qed

end
