(* ===== verification/Interfaces.thy ===== *)
theory Interfaces
  imports Redis_Prelude
begin

text \<open>
  The contracts between components, as locales. A client lemma is proved once, inside the locale, from
  the laws a provider promises; the theory of each provider interprets the locale on its own
  definitions, which discharges the laws for the code's model.
\<close>

section \<open>Sets of values\<close>

text \<open>
  What \<open>t_set.c\<close> asks of a set representation: add and remove report whether the set changed, and
  membership. An operation returns \<^const>\<open>None\<close> only for an access outside its memory, which the laws exclude
  below the capacity \<open>cap\<close>.
\<close>

datatype 'a set_op = SetAdd 'a | SetRem 'a | SetMem 'a

fun set_op_arg :: "'a set_op \<Rightarrow> 'a" where
  "set_op_arg (SetAdd x) = x"
| "set_op_arg (SetRem x) = x"
| "set_op_arg (SetMem x) = x"

fun set_spec_step :: "'a set \<Rightarrow> 'a set_op \<Rightarrow> 'a set \<times> bool" where
  "set_spec_step A (SetAdd x) = (insert x A, x \<notin> A)"
| "set_spec_step A (SetRem x) = (A - {x}, x \<in> A)"
| "set_spec_step A (SetMem x) = (A, x \<in> A)"

fun set_spec_run :: "'a set \<Rightarrow> 'a set_op list \<Rightarrow> 'a set \<times> bool list" where
  "set_spec_run A [] = (A, [])"
| "set_spec_run A (x # xs) =
     (let (A', r) = set_spec_step A x; (A'', rs) = set_spec_run A' xs in (A'', r # rs))"

fun set_impl_step ::
    "('s \<Rightarrow> 'a \<Rightarrow> ('s \<times> bool) option) \<Rightarrow> ('s \<Rightarrow> 'a \<Rightarrow> ('s \<times> bool) option) \<Rightarrow> ('s \<Rightarrow> 'a \<Rightarrow> bool option) \<Rightarrow>
     's \<Rightarrow> 'a set_op \<Rightarrow> ('s \<times> bool) option" where
  "set_impl_step add rem mem s (SetAdd x) = add s x"
| "set_impl_step add rem mem s (SetRem x) = rem s x"
| "set_impl_step add rem mem s (SetMem x) = map_option (\<lambda>b. (s, b)) (mem s x)"

fun set_impl_run ::
    "('s \<Rightarrow> 'a \<Rightarrow> ('s \<times> bool) option) \<Rightarrow> ('s \<Rightarrow> 'a \<Rightarrow> ('s \<times> bool) option) \<Rightarrow> ('s \<Rightarrow> 'a \<Rightarrow> bool option) \<Rightarrow>
     's \<Rightarrow> 'a set_op list \<Rightarrow> ('s \<times> bool list) option" where
  "set_impl_run add rem mem s [] = Some (s, [])"
| "set_impl_run add rem mem s (x # xs) = do {
     (s', r) \<leftarrow> set_impl_step add rem mem s x;
     (s'', rs) \<leftarrow> set_impl_run add rem mem s' xs;
     Some (s'', r # rs)
   }"

locale set_impl =
  fixes add :: "'s \<Rightarrow> 'a \<Rightarrow> ('s \<times> bool) option"
    and rem :: "'s \<Rightarrow> 'a \<Rightarrow> ('s \<times> bool) option"
    and mem :: "'s \<Rightarrow> 'a \<Rightarrow> bool option"
    and abs :: "'s \<Rightarrow> 'a set"
    and invar :: "'s \<Rightarrow> bool"
    and valid :: "'a \<Rightarrow> bool"
    and cap :: nat
  assumes finite_abs: "invar s \<Longrightarrow> finite (abs s)"
    and add_law: "invar s \<Longrightarrow> valid x \<Longrightarrow> card (abs s) < cap \<Longrightarrow>
      \<exists>s'. add s x = Some (s', x \<notin> abs s) \<and> invar s' \<and> abs s' = insert x (abs s)"
    and rem_law: "invar s \<Longrightarrow> valid x \<Longrightarrow>
      \<exists>s'. rem s x = Some (s', x \<in> abs s) \<and> invar s' \<and> abs s' = abs s - {x}"
    and mem_law: "invar s \<Longrightarrow> valid x \<Longrightarrow> mem s x = Some (x \<in> abs s)"
begin

lemma step_refines:
  assumes "invar s" "valid (set_op_arg x)" "card (abs s) < cap"
  shows "\<exists>s'. set_impl_step add rem mem s x = Some (s', snd (set_spec_step (abs s) x)) \<and>
           invar s' \<and> abs s' = fst (set_spec_step (abs s) x) \<and> card (abs s') \<le> Suc (card (abs s))"
proof (cases x)
  case (SetAdd y)
  then show ?thesis using add_law [OF assms(1) _ assms(3), of y] assms(2)
    by (auto simp: card_insert_if finite_abs [OF assms(1)])
next
  case (SetRem y)
  have "card (abs s - {y}) \<le> Suc (card (abs s))"
    using card_mono [of "abs s" "abs s - {y}"] finite_abs [OF assms(1)] by auto
  then show ?thesis using SetRem rem_law [OF assms(1), of y] assms(2) by auto
next
  case (SetMem y)
  then show ?thesis using mem_law [OF assms(1), of y] assms(1,2) by auto
qed

text \<open>A whole sequence of operations behaves like the mathematical set, replies included.\<close>

lemma run_refines:
  assumes "invar s" "\<forall>x\<in>set xs. valid (set_op_arg x)" "card (abs s) + length xs \<le> cap"
  shows "\<exists>s'. set_impl_run add rem mem s xs = Some (s', snd (set_spec_run (abs s) xs)) \<and>
           invar s' \<and> abs s' = fst (set_spec_run (abs s) xs)"
  using assms
proof (induction xs arbitrary: s)
  case (Cons x xs)
  obtain s' where s': "set_impl_step add rem mem s x = Some (s', snd (set_spec_step (abs s) x))"
    "invar s'" "abs s' = fst (set_spec_step (abs s) x)" "card (abs s') \<le> Suc (card (abs s))"
    using step_refines [of s x] Cons.prems by auto
  moreover obtain s'' where "set_impl_run add rem mem s' xs = Some (s'', snd (set_spec_run (abs s') xs))"
    "invar s''" "abs s'' = fst (set_spec_run (abs s') xs)"
    using Cons.IH [of s'] s'(2,4) Cons.prems by auto
  ultimately show ?case by (auto simp: Let_def split: prod.splits)
qed simp

end

section \<open>Finite maps\<close>

text \<open>
  What the keyspace and the hash, set and sorted set types ask of a dictionary. Every operation may
  reorganise the representation (a rehashing step), so lookups return a new state too.
\<close>

datatype ('k, 'v) map_op = MapAdd 'k 'v | MapReplace 'k 'v | MapDelete 'k | MapFetch 'k

datatype 'v map_reply = ReplyFlag bool | ReplyValue "'v option"

fun map_spec_step :: "('k \<Rightarrow> 'v option) \<Rightarrow> ('k, 'v) map_op \<Rightarrow> ('k \<Rightarrow> 'v option) \<times> 'v map_reply" where
  "map_spec_step m (MapAdd k v) = (if m k = None then m(k \<mapsto> v) else m, ReplyFlag (m k = None))"
| "map_spec_step m (MapReplace k v) = (m(k \<mapsto> v), ReplyFlag (m k = None))"
| "map_spec_step m (MapDelete k) = (m(k := None), ReplyFlag (m k \<noteq> None))"
| "map_spec_step m (MapFetch k) = (m, ReplyValue (m k))"

fun map_spec_run :: "('k \<Rightarrow> 'v option) \<Rightarrow> ('k, 'v) map_op list \<Rightarrow> ('k \<Rightarrow> 'v option) \<times> 'v map_reply list" where
  "map_spec_run m [] = (m, [])"
| "map_spec_run m (x # xs) =
     (let (m', r) = map_spec_step m x; (m'', rs) = map_spec_run m' xs in (m'', r # rs))"

fun map_impl_step ::
    "('s \<Rightarrow> 'k \<Rightarrow> 'v \<Rightarrow> ('s \<times> bool) option) \<Rightarrow> ('s \<Rightarrow> 'k \<Rightarrow> 'v \<Rightarrow> ('s \<times> bool) option) \<Rightarrow>
     ('s \<Rightarrow> 'k \<Rightarrow> ('s \<times> bool) option) \<Rightarrow> ('s \<Rightarrow> 'k \<Rightarrow> ('s \<times> 'v option) option) \<Rightarrow>
     's \<Rightarrow> ('k, 'v) map_op \<Rightarrow> ('s \<times> 'v map_reply) option" where
  "map_impl_step add rep del get s (MapAdd k v) = map_option (map_prod id ReplyFlag) (add s k v)"
| "map_impl_step add rep del get s (MapReplace k v) = map_option (map_prod id ReplyFlag) (rep s k v)"
| "map_impl_step add rep del get s (MapDelete k) = map_option (map_prod id ReplyFlag) (del s k)"
| "map_impl_step add rep del get s (MapFetch k) = map_option (map_prod id ReplyValue) (get s k)"

fun map_impl_run ::
    "('s \<Rightarrow> 'k \<Rightarrow> 'v \<Rightarrow> ('s \<times> bool) option) \<Rightarrow> ('s \<Rightarrow> 'k \<Rightarrow> 'v \<Rightarrow> ('s \<times> bool) option) \<Rightarrow>
     ('s \<Rightarrow> 'k \<Rightarrow> ('s \<times> bool) option) \<Rightarrow> ('s \<Rightarrow> 'k \<Rightarrow> ('s \<times> 'v option) option) \<Rightarrow>
     's \<Rightarrow> ('k, 'v) map_op list \<Rightarrow> ('s \<times> 'v map_reply list) option" where
  "map_impl_run add rep del get s [] = Some (s, [])"
| "map_impl_run add rep del get s (x # xs) = do {
     (s', r) \<leftarrow> map_impl_step add rep del get s x;
     (s'', rs) \<leftarrow> map_impl_run add rep del get s' xs;
     Some (s'', r # rs)
   }"

locale map_impl =
  fixes add :: "'s \<Rightarrow> 'k \<Rightarrow> 'v \<Rightarrow> ('s \<times> bool) option"
    and rep :: "'s \<Rightarrow> 'k \<Rightarrow> 'v \<Rightarrow> ('s \<times> bool) option"
    and del :: "'s \<Rightarrow> 'k \<Rightarrow> ('s \<times> bool) option"
    and get :: "'s \<Rightarrow> 'k \<Rightarrow> ('s \<times> 'v option) option"
    and abs :: "'s \<Rightarrow> 'k \<Rightarrow> 'v option"
    and invar :: "'s \<Rightarrow> bool"
    and cap :: nat
  assumes finite_abs: "invar s \<Longrightarrow> finite (dom (abs s))"
    and add_law: "invar s \<Longrightarrow> card (dom (abs s)) < cap \<Longrightarrow>
      \<exists>s'. add s k v = Some (s', abs s k = None) \<and> invar s' \<and>
           abs s' = (if abs s k = None then (abs s)(k \<mapsto> v) else abs s)"
    and rep_law: "invar s \<Longrightarrow> card (dom (abs s)) < cap \<Longrightarrow>
      \<exists>s'. rep s k v = Some (s', abs s k = None) \<and> invar s' \<and> abs s' = (abs s)(k \<mapsto> v)"
    and del_law: "invar s \<Longrightarrow>
      \<exists>s'. del s k = Some (s', abs s k \<noteq> None) \<and> invar s' \<and> abs s' = (abs s)(k := None)"
    and get_law: "invar s \<Longrightarrow> \<exists>s'. get s k = Some (s', abs s k) \<and> invar s' \<and> abs s' = abs s"
begin

lemma step_refines:
  assumes "invar s" "card (dom (abs s)) < cap"
  shows "\<exists>s'. map_impl_step add rep del get s x = Some (s', snd (map_spec_step (abs s) x)) \<and>
           invar s' \<and> abs s' = fst (map_spec_step (abs s) x) \<and>
           card (dom (abs s')) \<le> Suc (card (dom (abs s)))"
proof -
  note fin = finite_abs [OF assms(1)]
  have ins: "card (insert k (dom (abs s))) \<le> Suc (card (dom (abs s)))" for k
    using fin by (simp add: card_insert_if)
  have rem: "card (dom (abs s) - {k}) \<le> Suc (card (dom (abs s)))" for k
    using card_mono [of "dom (abs s)" "dom (abs s) - {k}"] fin by auto
  show ?thesis
  proof (cases x)
    case (MapAdd k v)
    then show ?thesis using add_law [OF assms, of k v] ins [of k] by auto
  next
    case (MapReplace k v)
    then show ?thesis using rep_law [OF assms, of k v] ins [of k] by auto
  next
    case (MapDelete k)
    then show ?thesis using del_law [OF assms(1), of k] rem [of k] by auto
  next
    case (MapFetch k)
    then show ?thesis using get_law [OF assms(1), of k] by auto
  qed
qed

lemma run_refines:
  assumes "invar s" "card (dom (abs s)) + length xs \<le> cap"
  shows "\<exists>s'. map_impl_run add rep del get s xs = Some (s', snd (map_spec_run (abs s) xs)) \<and>
           invar s' \<and> abs s' = fst (map_spec_run (abs s) xs)"
  using assms
proof (induction xs arbitrary: s)
  case (Cons x xs)
  obtain s' where s': "map_impl_step add rep del get s x = Some (s', snd (map_spec_step (abs s) x))"
    "invar s'" "abs s' = fst (map_spec_step (abs s) x)" "card (dom (abs s')) \<le> Suc (card (dom (abs s)))"
    using step_refines [of s x] Cons.prems by auto
  moreover obtain s'' where "map_impl_run add rep del get s' xs = Some (s'', snd (map_spec_run (abs s') xs))"
    "invar s''" "abs s'' = fst (map_spec_run (abs s') xs)"
    using Cons.IH [of s'] s'(2,4) Cons.prems by auto
  ultimately show ?case by (auto simp: Let_def split: prod.splits)
qed simp

end

section \<open>First-in first-out queues\<close>

text \<open>
  A queue whose insertion may be refused (memory), which is \<open>ready\<close> for an insertion or not, and whose
  consumer sees \<open>out x\<close> of an element \<open>x\<close>. A trace of results is legal when it is one of the ideal
  queue: an accepted element goes to the back and every extraction yields the front.
\<close>

datatype 'a fifo_op = Put 'a | Get

datatype 'b fifo_out = Stored bool | Got "'b option"

fun fifo_trace :: "('a \<Rightarrow> 'b) \<Rightarrow> 'a list \<Rightarrow> 'a fifo_op list \<Rightarrow> 'b fifo_out list \<Rightarrow> 'a list option" where
  "fifo_trace out xs [] [] = Some xs"
| "fifo_trace out xs (Put x # ops) (Stored ok # rs) = fifo_trace out (if ok then xs @ [x] else xs) ops rs"
| "fifo_trace out [] (Get # ops) (Got None # rs) = fifo_trace out [] ops rs"
| "fifo_trace out (x # xs) (Get # ops) (Got (Some y) # rs) = (if y = out x then fifo_trace out xs ops rs else None)"
| "fifo_trace out _ _ _ = None"

fun fifo_step :: "('s \<Rightarrow> 'a \<Rightarrow> (bool \<times> 's) option) \<Rightarrow> ('s \<Rightarrow> ('b option \<times> 's) option) \<Rightarrow> 's \<Rightarrow> 'a fifo_op \<Rightarrow> ('b fifo_out \<times> 's) option" where
  "fifo_step enq deq s (Put x) = map_option (\<lambda>(ok, s). (Stored ok, s)) (enq s x)"
| "fifo_step enq deq s Get = map_option (\<lambda>(y, s). (Got y, s)) (deq s)"

fun fifo_run :: "('s \<Rightarrow> 'a \<Rightarrow> (bool \<times> 's) option) \<Rightarrow> ('s \<Rightarrow> ('b option \<times> 's) option) \<Rightarrow> 's \<Rightarrow> 'a fifo_op list \<Rightarrow> ('b fifo_out list \<times> 's) option" where
  "fifo_run enq deq s [] = Some ([], s)"
| "fifo_run enq deq s (x # xs) = do {
     (r, s) \<leftarrow> fifo_step enq deq s x;
     (rs, s) \<leftarrow> fifo_run enq deq s xs;
     Some (r # rs, s)
   }"

text \<open>Every insertion of a run happens in a state that is ready for it.\<close>

fun fifo_ready :: "('s \<Rightarrow> 'a \<Rightarrow> (bool \<times> 's) option) \<Rightarrow> ('s \<Rightarrow> ('b option \<times> 's) option) \<Rightarrow> ('s \<Rightarrow> bool) \<Rightarrow> 's \<Rightarrow> 'a fifo_op list \<Rightarrow> bool" where
  "fifo_ready enq deq ready s [] = True"
| "fifo_ready enq deq ready s (x # xs) =
     ((x = Get \<or> ready s) \<and> (case fifo_step enq deq s x of None \<Rightarrow> True | Some (r, s) \<Rightarrow> fifo_ready enq deq ready s xs))"

locale fifo_impl =
  fixes enq :: "'s \<Rightarrow> 'a \<Rightarrow> (bool \<times> 's) option"
    and deq :: "'s \<Rightarrow> ('b option \<times> 's) option"
    and out :: "'a \<Rightarrow> 'b"
    and rep :: "'s \<Rightarrow> 'a list \<Rightarrow> bool"
    and ready :: "'s \<Rightarrow> bool"
    and valid :: "'a \<Rightarrow> bool"
  assumes enq_law: "rep s xs \<Longrightarrow> ready s \<Longrightarrow> valid x \<Longrightarrow> \<exists>ok s'. enq s x = Some (ok, s') \<and> rep s' (if ok then xs @ [x] else xs)"
    and deq_law: "rep s (x # xs) \<Longrightarrow> \<exists>s'. deq s = Some (Some (out x), s') \<and> rep s' xs"
    and deq_empty_law: "rep s [] \<Longrightarrow> deq s = Some (None, s)"
begin

lemma run_legal:
  assumes "rep s xs" "\<forall>x. Put x \<in> set ops \<longrightarrow> valid x" "fifo_ready enq deq ready s ops"
  shows "\<exists>rs s' xs'. fifo_run enq deq s ops = Some (rs, s') \<and> fifo_trace out xs ops rs = Some xs' \<and> rep s' xs'"
  using assms
proof (induction ops arbitrary: s xs)
  case (Cons x ops)
  show ?case
  proof (cases x)
    case (Put a)
    then obtain ok s' where s: "enq s a = Some (ok, s')" "rep s' (if ok then xs @ [a] else xs)"
      using enq_law [of s xs a] Cons.prems by auto
    then show ?thesis using Cons.IH [OF s(2)] Cons.prems(2,3) Put by auto
  next
    case Get
    show ?thesis
    proof (cases xs)
      case Nil
      then show ?thesis using Cons.IH [of s "[]"] deq_empty_law [of s] Cons.prems Get by auto
    next
      case c: (Cons a as)
      then obtain s' where "deq s = Some (Some (out a), s')" "rep s' as" using deq_law Cons.prems(1) by blast
      then show ?thesis using Cons.IH [of s' as] Cons.prems c Get by auto
    qed
  qed
qed auto

end

end
