(* ===== verification/Intset.thy ===== *)
theory Intset
  imports Interfaces
begin

text \<open>
  The integer set of \<open>intset.c\<close>: a sorted array of 16-, 32- or 64-bit integers kept in one block of
  bytes behind a header of encoding and length. The model is for a little-endian host, where the
  \<open>...ifbe\<close> macros of \<open>endianconv.h\<close> are the identity. Values are \<open>int\<close>s (the C type is
  \<open>int64_t\<close>); lengths and sizes are \<open>nat\<close>s with the \<open>uint32_t\<close> wrap-around written
  out (\<^const>\<open>u32\<close>). Every access to \<open>contents\<close> goes through the checked block operations of the
  prelude, so \<^const>\<open>None\<close> is an access outside the allocated block.
\<close>

section \<open>Data and operations\<close>

definition INTSET_ENC_INT16 :: nat where "INTSET_ENC_INT16 = 2"
definition INTSET_ENC_INT32 :: nat where "INTSET_ENC_INT32 = 4"
definition INTSET_ENC_INT64 :: nat where "INTSET_ENC_INT64 = 8"

lemmas enc_defs = INTSET_ENC_INT16_def INTSET_ENC_INT32_def INTSET_ENC_INT64_def

record intset =
  encoding :: nat
  is_length :: nat
  contents :: "byte list"

definition intsetValueEncoding :: "int \<Rightarrow> nat" where
  "intsetValueEncoding v =
     (if v < - (2 ^ 31) \<or> v > 2 ^ 31 - 1 then INTSET_ENC_INT64
      else if v < - (2 ^ 15) \<or> v > 2 ^ 15 - 1 then INTSET_ENC_INT32
      else INTSET_ENC_INT16)"

definition intsetGetEncoded :: "intset \<Rightarrow> nat \<Rightarrow> nat \<Rightarrow> int option" where
  "intsetGetEncoded s pos enc =
     (if enc = INTSET_ENC_INT64 then map_option le_sint (mem_read (8 * pos) 8 (contents s))
      else if enc = INTSET_ENC_INT32 then map_option le_sint (mem_read (4 * pos) 4 (contents s))
      else map_option le_sint (mem_read (2 * pos) 2 (contents s)))"

definition intsetGet_raw :: "intset \<Rightarrow> nat \<Rightarrow> int option" where
  "intsetGet_raw s pos = intsetGetEncoded s pos (encoding s)"

definition intsetSet :: "intset \<Rightarrow> nat \<Rightarrow> int \<Rightarrow> intset option" where
  "intsetSet s pos value =
     map_option (\<lambda>c. s\<lparr>contents := c\<rparr>)
       (if encoding s = INTSET_ENC_INT64 then mem_write (8 * pos) (le_bytes 8 value) (contents s)
        else if encoding s = INTSET_ENC_INT32 then mem_write (4 * pos) (le_bytes 4 value) (contents s)
        else mem_write (2 * pos) (le_bytes 2 value) (contents s))"

definition intsetNew :: intset where
  "intsetNew = \<lparr>encoding = INTSET_ENC_INT16, is_length = 0, contents = []\<rparr>"

definition intsetResize :: "(nat \<Rightarrow> byte) \<Rightarrow> intset \<Rightarrow> nat \<Rightarrow> intset" where
  "intsetResize junk s len =
     s\<lparr>contents := mem_realloc junk (u32 (len * encoding s)) (contents s)\<rparr>"

function intsetSearch_loop :: "intset \<Rightarrow> int \<Rightarrow> int \<Rightarrow> int \<Rightarrow> int \<Rightarrow> int \<Rightarrow> (int \<times> int \<times> int) option" where
  "intsetSearch_loop s value mn mx mid cur =
     (if mx \<ge> mn then
        (let mid' = (mn + mx) div 2 in
         case intsetGet_raw s (nat mid') of
           None \<Rightarrow> None
         | Some cur' \<Rightarrow>
             if value > cur' then intsetSearch_loop s value (mid' + 1) mx mid' cur'
             else if value < cur' then intsetSearch_loop s value mn (mid' - 1) mid' cur'
             else Some (mn, mid', cur'))
      else Some (mn, mid, cur))"
  by pat_completeness auto
termination
  by (relation "measure (\<lambda>(s, value, mn, mx, mid, cur). nat (mx - mn + 1))") auto

declare intsetSearch_loop.simps [simp del]

text \<open>The result pairs the C return value with what is stored through \<open>pos\<close>.\<close>

definition intsetSearch :: "intset \<Rightarrow> int \<Rightarrow> (bool \<times> nat) option" where
  "intsetSearch s value =
     (if is_length s = 0 then Some (False, 0)
      else do {
        last \<leftarrow> intsetGet_raw s (u32_sub (is_length s) 1);
        if value > last then Some (False, is_length s)
        else do {
          first \<leftarrow> intsetGet_raw s 0;
          if value < first then Some (False, 0)
          else do {
            (mn, mid, cur) \<leftarrow>
              intsetSearch_loop s value 0 (int_of_u32 (u32_sub (is_length s) 1)) (-1) (-1);
            Some (if value = cur then (True, nat mid) else (False, nat mn))
          }
        }
      })"

fun intsetUpgrade_loop :: "intset \<Rightarrow> nat \<Rightarrow> nat \<Rightarrow> nat \<Rightarrow> intset option" where
  "intsetUpgrade_loop s 0 prepend curenc = Some s"
| "intsetUpgrade_loop s (Suc len) prepend curenc = do {
     v \<leftarrow> intsetGetEncoded s len curenc;
     s' \<leftarrow> intsetSet s (len + prepend) v;
     intsetUpgrade_loop s' len prepend curenc
   }"

definition intsetUpgradeAndAdd :: "(nat \<Rightarrow> byte) \<Rightarrow> intset \<Rightarrow> int \<Rightarrow> intset option" where
  "intsetUpgradeAndAdd junk s value = (
     let curenc = encoding s mod 256;
         newenc = intsetValueEncoding value;
         len = is_length s;
         prepend = (if value < 0 then 1 else 0);
         s = s\<lparr>encoding := newenc\<rparr>;
         s = intsetResize junk s (u32 (is_length s + 1))
     in do {
       s \<leftarrow> intsetUpgrade_loop s len prepend curenc;
       s \<leftarrow> (if prepend = 1 then intsetSet s 0 value else intsetSet s (is_length s) value);
       Some (s\<lparr>is_length := u32 (is_length s + 1)\<rparr>)
     })"

definition intsetMoveTail :: "intset \<Rightarrow> nat \<Rightarrow> nat \<Rightarrow> intset option" where
  "intsetMoveTail s frm to = (
     let bytes = u32_sub (is_length s) frm in
     map_option (\<lambda>c. s\<lparr>contents := c\<rparr>)
       (if encoding s = INTSET_ENC_INT64
        then mem_move (8 * to) (8 * frm) (u32 (bytes * 8)) (contents s)
        else if encoding s = INTSET_ENC_INT32
        then mem_move (4 * to) (4 * frm) (u32 (bytes * 4)) (contents s)
        else mem_move (2 * to) (2 * frm) (u32 (bytes * 2)) (contents s)))"

definition intsetAdd :: "(nat \<Rightarrow> byte) \<Rightarrow> intset \<Rightarrow> int \<Rightarrow> (intset \<times> bool) option" where
  "intsetAdd junk s value =
     (if intsetValueEncoding value > encoding s
      then map_option (\<lambda>s'. (s', True)) (intsetUpgradeAndAdd junk s value)
      else do {
        (found, pos) \<leftarrow> intsetSearch s value;
        if found then Some (s, False)
        else do {
          s \<leftarrow> Some (intsetResize junk s (u32 (is_length s + 1)));
          s \<leftarrow> (if pos < is_length s then intsetMoveTail s pos (u32 (pos + 1)) else Some s);
          s \<leftarrow> intsetSet s pos value;
          Some (s\<lparr>is_length := u32 (is_length s + 1)\<rparr>, True)
        }
      })"

definition intsetRemove :: "(nat \<Rightarrow> byte) \<Rightarrow> intset \<Rightarrow> int \<Rightarrow> (intset \<times> bool) option" where
  "intsetRemove junk s value =
     (if intsetValueEncoding value \<le> encoding s
      then do {
        (found, pos) \<leftarrow> intsetSearch s value;
        if found then do {
          len \<leftarrow> Some (is_length s);
          s \<leftarrow> (if pos < u32_sub len 1 then intsetMoveTail s (u32 (pos + 1)) pos else Some s);
          s \<leftarrow> Some (intsetResize junk s (u32_sub len 1));
          Some (s\<lparr>is_length := u32_sub len 1\<rparr>, True)
        }
        else Some (s, False)
      }
      else Some (s, False))"

definition intsetFind :: "intset \<Rightarrow> int \<Rightarrow> bool option" where
  "intsetFind s value =
     (if intsetValueEncoding value \<le> encoding s
      then map_option fst (intsetSearch s value) else Some False)"

text \<open>The argument \<open>r\<close> is the value that \<open>rand()\<close> returns; \<open>rand() % 0\<close> traps.\<close>

definition intsetRandom :: "nat \<Rightarrow> intset \<Rightarrow> int option" where
  "intsetRandom r s =
     (if is_length s = 0 then None else intsetGet_raw s (r mod is_length s))"

definition intsetGet :: "intset \<Rightarrow> nat \<Rightarrow> (bool \<times> int option) option" where
  "intsetGet s pos =
     (if pos < is_length s then map_option (\<lambda>v. (True, Some v)) (intsetGet_raw s pos)
      else Some (False, None))"

definition intsetLen :: "intset \<Rightarrow> nat" where
  "intsetLen s = is_length s"

definition intsetBlobLen :: "intset \<Rightarrow> nat" where
  "intsetBlobLen s = 8 + u32 (is_length s * encoding s)"

section \<open>Abstraction and invariant\<close>

definition elems :: "intset \<Rightarrow> int list" where
  "elems s = map (\<lambda>i. le_sint (take (encoding s) (drop (encoding s * i) (contents s))))
                [0..<is_length s]"

text \<open>
  The block holds exactly \<open>xs\<close> at the set's encoding, followed by \<open>t\<close> (empty between operations,
  the bytes added by \<open>zrealloc\<close> inside one).
\<close>

definition holds :: "intset \<Rightarrow> int list \<Rightarrow> byte list \<Rightarrow> bool" where
  "holds s xs t \<longleftrightarrow>
     encoding s \<in> {2, 4, 8} \<and> is_length s = length xs \<and>
     contents s = blk (encoding s) xs @ t \<and> (\<forall>x\<in>set xs. fits (encoding s) x)"

definition intset_inv :: "intset \<Rightarrow> bool" where
  "intset_inv s \<longleftrightarrow>
     encoding s \<in> {2, 4, 8} \<and> length (contents s) = encoding s * is_length s \<and>
     is_length s < 2 ^ 28 \<and> sorted_wrt (<) (elems s)"

definition int64 :: "int \<Rightarrow> bool" where
  "int64 v \<longleftrightarrow> - (2 ^ 63) \<le> v \<and> v < 2 ^ 63"

section \<open>The block operations on the abstract list\<close>

lemma holds_elems: "holds s xs [] \<Longrightarrow> elems s = xs"
proof -
  assume h: "holds s xs []"
  have "le_sint (take (encoding s) (drop (encoding s * i) (contents s))) = xs ! i"
    if i: "i < length xs" for i
  proof -
    have "mem_read (encoding s * i) (encoding s) (blk (encoding s) xs @ [])
        = Some (le_bytes (encoding s) (xs ! i))"
      using i by (rule mem_read_blk)
    then have "take (encoding s) (drop (encoding s * i) (contents s)) = le_bytes (encoding s) (xs ! i)"
      using h by (simp add: holds_def mem_simps)
    then show ?thesis using h i by (simp add: holds_def le_simps)
  qed
  then show ?thesis using h
    by (auto simp: elems_def holds_def intro: nth_equalityI)
qed

lemma inv_holds: "intset_inv s \<Longrightarrow> holds s (elems s) []"
proof -
  assume i: "intset_inv s"
  then have "contents s = blk (encoding s) (elems s)"
    unfolding elems_def by (intro blk_decode) (simp add: intset_inv_def)
  moreover have "fits (encoding s) (elems s ! j)" if "j < is_length s" for j
  proof -
    have "length (take (encoding s) (drop (encoding s * j) (contents s))) = encoding s"
    proof -
      have "encoding s * Suc j \<le> encoding s * is_length s"
        using that by (intro mult_le_mono2) simp
      then show ?thesis using i by (simp add: intset_inv_def)
    qed
    then show ?thesis
      using le_sint_fits [of "take (encoding s) (drop (encoding s * j) (contents s))"] that
      by (simp add: elems_def)
  qed
  ultimately show ?thesis using i
    by (auto simp: holds_def intset_inv_def in_set_conv_nth elems_def)
qed

lemma holds_inv:
  "holds s xs [] \<Longrightarrow> sorted_wrt (<) xs \<Longrightarrow> length xs < 2 ^ 28 \<Longrightarrow> intset_inv s"
  using holds_elems [of s xs] by (auto simp: intset_inv_def holds_def)

lemma GetEncoded_blk:
  assumes "contents s = blk e xs @ t" "e \<in> {2, 4, 8}" "\<forall>x\<in>set xs. fits e x" "i < length xs"
  shows "intsetGetEncoded s i e = Some (xs ! i)"
  using assms mem_read_blk [of i xs e t]
  by (auto simp: intsetGetEncoded_def enc_defs le_simps)

lemma Get_holds: "holds s xs t \<Longrightarrow> i < length xs \<Longrightarrow> intsetGet_raw s i = Some (xs ! i)"
  unfolding intsetGet_raw_def by (rule GetEncoded_blk) (auto simp: holds_def)

lemma Set_mem_write:
  "encoding s \<in> {2, 4, 8} \<Longrightarrow>
   intsetSet s i v = map_option (\<lambda>c. s\<lparr>contents := c\<rparr>)
     (mem_write (encoding s * i) (le_bytes (encoding s) v) (contents s))"
  by (auto simp: intsetSet_def enc_defs)

lemma MoveTail_mem_move:
  assumes "encoding s \<in> {2, 4, 8}" "is_length s < 2 ^ 28" "frm \<le> is_length s"
  shows "intsetMoveTail s frm to = map_option (\<lambda>c. s\<lparr>contents := c\<rparr>)
     (mem_move (encoding s * to) (encoding s * frm)
        (encoding s * (is_length s - frm)) (contents s))"
proof -
  have "u32_sub (is_length s) frm = is_length s - frm"
    using assms by (intro u32_sub_id) simp_all
  then show ?thesis using assms by (auto simp: intsetMoveTail_def enc_defs u32_id mult.commute)
qed

section \<open>Binary search\<close>

text \<open>The position \<open>rank v xs\<close> is where \<open>v\<close> is, or where it has to be inserted.\<close>

definition rank :: "int \<Rightarrow> int list \<Rightarrow> nat" where
  "rank v xs = length (takeWhile (\<lambda>x. x < v) xs)"

lemma rank_le_length: "rank v xs \<le> length xs"
  by (simp add: rank_def length_takeWhile_le)

lemma rank_eqI:
  assumes "k \<le> length xs" "\<And>i. i < k \<Longrightarrow> xs ! i < v" "k < length xs \<Longrightarrow> v \<le> xs ! k"
  shows "rank v xs = k"
proof -
  have "takeWhile (\<lambda>x. x < v) xs = take k xs"
    using assms by (intro takeWhile_eq_take_P_nth) auto
  then show ?thesis using assms(1) by (simp add: rank_def)
qed

lemma sorted_nth_less: "sorted_wrt (<) xs \<Longrightarrow> i < j \<Longrightarrow> j < length xs \<Longrightarrow> xs ! i < (xs ! j :: int)"
  by (rule sorted_wrt_nth_less)

lemma sorted_nth_le:
  "sorted_wrt (<) xs \<Longrightarrow> i \<le> j \<Longrightarrow> j < length xs \<Longrightarrow> xs ! i \<le> (xs ! j :: int)"
  using sorted_nth_less [of xs i j] by (cases "i = j") auto

lemma Search_loop_correct:
  assumes "holds s xs t" "sorted_wrt (<) xs" "0 \<le> mn" "mx < int (length xs)" "mn \<le> mx + 1"
    and "\<And>i. i < nat mn \<Longrightarrow> xs ! i < v"
    and "\<And>i. mx < int i \<Longrightarrow> i < length xs \<Longrightarrow> v < xs ! i"
    and "mn \<le> mx \<or> cur \<noteq> v"
  shows "\<exists>mn' mid' cur'. intsetSearch_loop s v mn mx mid cur = Some (mn', mid', cur') \<and>
    (if v = cur' then 0 \<le> mid' \<and> mid' < int (length xs) \<and> xs ! nat mid' = v
     else v \<notin> set xs \<and> mn' = int (rank v xs))"
  using assms
proof (induction s v mn mx mid cur rule: intsetSearch_loop.induct)
  case (1 s v mn mx mid cur)
  note unfold = intsetSearch_loop.simps [of s v mn mx mid cur]
  show ?case
  proof (cases "mx \<ge> mn")
    case False
    then have mn: "mn = mx + 1" using "1.prems" by simp
    have notin: "v \<notin> set xs"
    proof
      assume "v \<in> set xs"
      then obtain i where i: "i < length xs" "xs ! i = v" by (auto simp: in_set_conv_nth)
      then show False using "1.prems"(6) [of i] "1.prems"(7) [of i] mn
        by (cases "int i \<le> mx") (auto simp: zless_nat_eq_int_zless)
    qed
    have "rank v xs = nat mn"
    proof (rule rank_eqI)
      show "nat mn \<le> length xs" using "1.prems" mn by auto
      show "xs ! i < v" if "i < nat mn" for i using that "1.prems"(6) by simp
      show "v \<le> xs ! nat mn" if "nat mn < length xs"
        using that "1.prems"(3,7) mn by (auto intro!: less_imp_le)
    qed
    then show ?thesis using False "1.prems"(3,8) notin by (auto simp: unfold)
  next
    case True
    define m where "m = (mn + mx) div 2"
    have m: "mn \<le> m" "m \<le> mx" using True by (auto simp: m_def)
    with "1.prems" have ml: "nat m < length xs" by auto
    then have get: "intsetGet_raw s (nat m) = Some (xs ! nat m)"
      using "1.prems"(1) by (rule Get_holds [rotated])
    consider (gt) "v > xs ! nat m" | (lt) "v < xs ! nat m" | (eq) "v = xs ! nat m" by linarith
    then show ?thesis
    proof cases
      case gt
      have low: "xs ! i < v" if "i < nat (m + 1)" for i
        using sorted_nth_le [OF "1.prems"(2), of i "nat m"] that ml gt m "1.prems"(3)
        by (auto simp: nat_add_distrib)
      have "\<exists>mn' mid' cur'. intsetSearch_loop s v (m + 1) mx m (xs ! nat m) = Some (mn', mid', cur') \<and>
        (if v = cur' then 0 \<le> mid' \<and> mid' < int (length xs) \<and> xs ! nat mid' = v
         else v \<notin> set xs \<and> mn' = int (rank v xs))"
        by (rule "1.IH"(1) [OF True m_def get gt]) (use "1.prems" less_imp_neq [OF gt] m low in auto)
      then show ?thesis using True get gt by (simp add: unfold m_def Let_def)
    next
      case lt
      have high: "v < xs ! i" if "m - 1 < int i" "i < length xs" for i
        using sorted_nth_le [OF "1.prems"(2), of "nat m" i] that ml lt m "1.prems"(3)
        by (auto simp: nat_le_iff)
      have "\<exists>mn' mid' cur'. intsetSearch_loop s v mn (m - 1) m (xs ! nat m) = Some (mn', mid', cur') \<and>
        (if v = cur' then 0 \<le> mid' \<and> mid' < int (length xs) \<and> xs ! nat mid' = v
         else v \<notin> set xs \<and> mn' = int (rank v xs))"
        using lt "1.prems"(4) m
        by (intro "1.IH"(2) [OF True m_def get less_not_sym [OF lt] lt "1.prems"(1-3) _ _ "1.prems"(6) high])
          simp_all
      then show ?thesis using True get lt by (simp add: unfold m_def Let_def)
    next
      case eq
      then have "intsetSearch_loop s v mn mx mid cur = Some (mn, m, v)"
        unfolding unfold Let_def m_def [symmetric] using True get by simp
      then show ?thesis using eq m ml "1.prems"(3) by simp
    qed
  qed
qed

lemma sorted_takeWhile_less:
  "sorted_wrt (<) xs \<Longrightarrow> set (takeWhile (\<lambda>x. x < v) xs) = {x \<in> set xs. x < (v :: int)}"
  by (induction xs) auto

lemma take_rank: "take (rank v xs) xs = takeWhile (\<lambda>x. x < v) xs"
  by (simp add: rank_def flip: takeWhile_eq_take)

lemma drop_rank: "drop (rank v xs) xs = dropWhile (\<lambda>x. x < v) xs"
  by (simp add: rank_def flip: dropWhile_eq_drop)

lemma rank_nth: "sorted_wrt (<) xs \<Longrightarrow> i < length xs \<Longrightarrow> rank (xs ! i) xs = i"
  by (rule rank_eqI) (auto intro: sorted_nth_less)

lemma sorted_wrt_less_mid:
  "sorted_wrt (<) (ys @ zs) \<Longrightarrow> \<forall>x\<in>set ys. x < v \<Longrightarrow> \<forall>x\<in>set zs. v < x \<Longrightarrow>
   sorted_wrt (<) (ys @ (v :: int) # zs)"
  by (auto simp: sorted_wrt_append)

lemma sorted_insert_rank:
  "sorted_wrt (<) xs \<Longrightarrow> v \<notin> set xs \<Longrightarrow> sorted_wrt (<) (take (rank v xs) xs @ v # drop (rank v xs) xs)"
proof -
  assume xs: "sorted_wrt (<) xs" "v \<notin> set xs"
  have low: "\<forall>x\<in>set (takeWhile (\<lambda>x. x < v) xs). x < v" by (meson set_takeWhileD)
  have high: "\<forall>x\<in>set (dropWhile (\<lambda>x. x < v) xs). v < x"
  proof (cases "dropWhile (\<lambda>x. x < v) xs")
    case (Cons y ys)
    then have y: "\<not> y < v" by (metis hd_dropWhile list.distinct(1) list.sel(1))
    have "y \<in> set xs" using Cons by (metis list.set_intros(1) set_dropWhileD)
    with y xs(2) have "v < y" by (cases v y rule: linorder_cases) auto
    moreover have "sorted_wrt (<) (y # ys)"
      using xs Cons sorted_wrt_append [of "(<)" "takeWhile (\<lambda>x. x < v) xs" "y # ys"]
      by (metis takeWhile_dropWhile_id)
    ultimately show ?thesis using Cons by auto
  next
    case Nil
    then show ?thesis by (metis empty_iff empty_set)
  qed
  have "sorted_wrt (<) (takeWhile (\<lambda>x. x < v) xs @ dropWhile (\<lambda>x. x < v) xs)" using xs by simp
  from sorted_wrt_less_mid [OF this low high] show ?thesis by (simp only: take_rank drop_rank)
qed

lemma set_insert_rank: "set (take (rank v xs) xs @ v # drop (rank v xs) xs) = insert v (set xs)"
  by (metis Un_insert_right append_take_drop_id list.simps(15) set_append)

lemma sorted_wrt_less_distinct: "sorted_wrt (<) xs \<Longrightarrow> distinct (xs :: int list)"
  by (induction xs) auto

lemma remove_at_nth:
  assumes "sorted_wrt (<) xs" "i < length xs"
  shows "sorted_wrt (<) (take i xs @ drop (Suc i) xs)"
    and "set (take i xs @ drop (Suc i) xs) = set xs - {xs ! i :: int}"
proof -
  have xs: "xs = take i xs @ xs ! i # drop (Suc i) xs" using assms(2) by (rule id_take_nth_drop)
  have "sorted_wrt (<) (take i xs @ xs ! i # drop (Suc i) xs)" using assms(1) xs by simp
  then show "sorted_wrt (<) (take i xs @ drop (Suc i) xs)"
    unfolding sorted_wrt_append by auto
  have "distinct (take i xs @ xs ! i # drop (Suc i) xs)"
    using sorted_wrt_less_distinct [OF assms(1)] xs by simp
  moreover have "set xs = set (take i xs @ xs ! i # drop (Suc i) xs)" using xs by simp
  ultimately show "set (take i xs @ drop (Suc i) xs) = set xs - {xs ! i}" by auto
qed

lemma Search_correct:
  assumes h: "holds s xs t" and srt: "sorted_wrt (<) xs" and len: "length xs < 2 ^ 28"
  shows "intsetSearch s v = Some (v \<in> set xs, rank v xs)"
proof (cases "xs = []")
  case True
  then show ?thesis using h by (simp add: intsetSearch_def holds_def rank_def)
next
  case False
  let ?n = "length xs"
  have n: "is_length s = ?n" "0 < ?n" using h False by (auto simp: holds_def)
  then have "1 \<le> ?n" by linarith
  have sub: "u32_sub ?n 1 = ?n - 1" using \<open>1 \<le> ?n\<close> len by (intro u32_sub_id) simp_all
  have last: "intsetGet_raw s (?n - 1) = Some (xs ! (?n - 1))" using n by (intro Get_holds [OF h]) simp
  have first: "intsetGet_raw s 0 = Some (xs ! 0)" using n by (intro Get_holds [OF h]) simp
  have mx: "int_of_u32 (?n - 1) = int ?n - 1"
    using \<open>1 \<le> ?n\<close> len int_of_u32_id [of "?n - 1"] by (simp add: of_nat_diff)
  consider "v > xs ! (?n - 1)" | "v < xs ! 0" | "xs ! 0 \<le> v" "v \<le> xs ! (?n - 1)" by linarith
  then show ?thesis
  proof cases
    case 1
    have lt: "xs ! i < v" if "i < ?n" for i
      using sorted_nth_le [OF srt, of i "?n - 1"] that 1 by force
    then have "rank v xs = ?n" by (intro rank_eqI) auto
    moreover have "v \<notin> set xs" using lt by (auto simp: in_set_conv_nth)
    ultimately show ?thesis using 1 n last sub by (simp add: intsetSearch_def)
  next
    case 2
    have gt: "v < xs ! i" if "i < ?n" for i
      using sorted_nth_le [OF srt, of 0 i] that 2 by force
    then have "rank v xs = 0" using n by (intro rank_eqI) (auto intro: less_imp_le)
    moreover have "v \<notin> set xs" using gt by (auto simp: in_set_conv_nth)
    ultimately show ?thesis using 2 gt [of "?n - 1"] n last first sub by (auto simp: intsetSearch_def)
  next
    case 3
    obtain mn mid cur where loop: "intsetSearch_loop s v 0 (int ?n - 1) (-1) (-1) = Some (mn, mid, cur)"
      and res: "if v = cur then 0 \<le> mid \<and> mid < int ?n \<and> xs ! nat mid = v
                else v \<notin> set xs \<and> mn = int (rank v xs)"
      using Search_loop_correct [OF h srt, of 0 "int ?n - 1" v "-1" "-1"] n by auto
    show ?thesis
    proof (cases "v = cur")
      case True
      with res have "rank v xs = nat mid" "v \<in> set xs"
        using rank_nth [OF srt, of "nat mid"] nth_mem [of "nat mid" xs] by auto
      then show ?thesis using 3 True n last first sub mx loop by (simp add: intsetSearch_def)
    next
      case False
      with res show ?thesis using 3 n last first sub mx loop by (simp add: intsetSearch_def)
    qed
  qed
qed

section \<open>Insertion and removal\<close>

lemma fits_ValueEncoding: "int64 v \<Longrightarrow> e \<in> {2, 4, 8} \<Longrightarrow> intsetValueEncoding v \<le> e \<longleftrightarrow> fits e v"
  by (auto simp: intsetValueEncoding_def enc_defs fits_def int64_def)

lemma ValueEncoding_range: "intsetValueEncoding v \<in> {2, 4, 8}"
  by (auto simp: intsetValueEncoding_def enc_defs)

lemma Resize_holds:
  assumes "holds s xs []" "length xs < 2 ^ 28"
  shows "\<exists>t. holds (intsetResize junk s (u32 (is_length s + 1))) xs t \<and> length t = encoding s"
proof -
  have e: "encoding s \<in> {2, 4, 8}" and n: "is_length s = length xs"
    using assms by (auto simp: holds_def)
  have u: "u32 (u32 (length xs + 1) * encoding s) = encoding s * (length xs + 1)"
    using e assms(2) by (auto simp: u32_def)
  have "mem_realloc junk (encoding s * (length xs + 1)) (contents s)
      = contents s @ map junk [length (contents s)..<encoding s * (length xs + 1)]"
    using assms(1) by (intro mem_realloc_grow) (simp add: holds_def)
  then show ?thesis using assms(1) u n
    by (intro exI [of _ "map junk [length (contents s)..<encoding s * (length xs + 1)]"])
       (simp add: holds_def intsetResize_def)
qed

lemma insert_at:
  assumes h: "holds s xs t" and t: "length t = encoding s" and k: "k \<le> length xs"
    and len: "length xs < 2 ^ 28" and v: "fits (encoding s) v"
  shows "\<exists>s'. Option.bind (if k < is_length s then intsetMoveTail s k (u32 (k + 1)) else Some s)
                (\<lambda>s. intsetSet s k v) = Some s' \<and>
              holds (s'\<lparr>is_length := Suc (length xs)\<rparr>) (take k xs @ v # drop k xs) [] \<and>
              is_length s' = length xs"
proof -
  let ?e = "encoding s" and ?n = "length xs"
  have e: "?e \<in> {2, 4, 8}" and n: "is_length s = ?n" and c: "contents s = blk ?e xs @ t"
    and f: "\<forall>x\<in>set xs. fits ?e x"
    using h by (auto simp: holds_def)
  have k1: "u32 (k + 1) = k + 1" using k len by (intro u32_id) simp
  have fin: "\<forall>x\<in>set (take k xs @ v # drop k xs). fits ?e x"
    using f v by (auto dest: in_set_takeD in_set_dropD)
  have split: "blk ?e xs = blk ?e (take k xs) @ blk ?e (drop k xs)"
    by (metis append_take_drop_id blk_simps(3))
  show ?thesis
  proof (cases "k < ?n")
    case False
    then have "k = ?n" using k by simp
    then show ?thesis using e n c t fin
      by (auto simp: Set_mem_write mem_write_def holds_def)
  next
    case True
    let ?c = "take (?e * (k + 1)) (contents s) @ blk ?e (drop k xs)"
    have le: "?e * k + ?e * (?n - k) = ?e * ?n" using k by (simp add: right_diff_distrib')
    then have full: "?e * (k + 1) + ?e * (?n - k) = length (contents s)"
      using c t by simp
    have "drop (?e * k) (contents s) = blk ?e (drop k xs) @ t"
      using c k drop_blk_append by metis
    then have rd: "mem_read (?e * k) (?e * (?n - k)) (contents s) = Some (blk ?e (drop k xs))"
      using c le by (simp add: mem_read_def)
    have "mem_move (?e * (k + 1)) (?e * k) (?e * (?n - k)) (contents s) = Some ?c"
      using full by (simp add: mem_move_def rd mem_write_def)
    then have mv: "intsetMoveTail s k (k + 1) = Some (s\<lparr>contents := ?c\<rparr>)"
      using MoveTail_mem_move [of s k "k + 1"] e n len k by simp
    have lt: "length (take (?e * (k + 1)) (contents s)) = ?e * (k + 1)"
      using full by simp
    have "take (?e * k) ?c = blk ?e (take k xs)"
      using lt c k take_blk_append [of k xs ?e t] by (simp add: min_def)
    moreover have "drop (?e * k + ?e) ?c = blk ?e (drop k xs)" using lt by simp
    moreover have "?e * k + ?e \<le> length ?c" using lt by simp
    ultimately have "mem_write (?e * k) (le_bytes ?e v) ?c = Some (blk ?e (take k xs @ v # drop k xs))"
      unfolding mem_write_def by simp
    then have "intsetSet (s\<lparr>contents := ?c\<rparr>) k v
        = Some (s\<lparr>contents := blk ?e (take k xs @ v # drop k xs)\<rparr>)"
      using e by (subst Set_mem_write) simp_all
    then show ?thesis using True mv n k1 e fin k by (simp add: holds_def)
  qed
qed

lemma Upgrade_loop:
  assumes "encoding s = new" "new \<in> {2, 4, 8}" "cur \<in> {2, 4, 8}" "cur \<le> new" "p \<le> 1"
    and "\<forall>x\<in>set xs. fits cur x" "n \<le> length xs"
    and "length (contents s) = new * (length xs + 1)"
    and "take (cur * n) (contents s) = blk cur (take n xs)"
    and "drop (new * (n + p)) (contents s) = blk new (drop n xs) @ t"
  shows "\<exists>c. intsetUpgrade_loop s n p cur = Some (s\<lparr>contents := c\<rparr>) \<and>
             length c = new * (length xs + 1) \<and> drop (new * p) c = blk new xs @ t"
  using assms
proof (induction n arbitrary: s)
  case 0
  then show ?case by (intro exI [of _ "contents s"]) simp
next
  case (Suc n)
  let ?C = "contents s" and ?v = "xs ! n"
  let ?c = "take (new * (n + p)) ?C @ le_bytes new ?v @ drop (new * (Suc n + p)) ?C"
  have "?C = blk cur (take (Suc n) xs) @ drop (cur * Suc n) ?C"
    using Suc.prems(9) by (metis append_take_drop_id)
  then have get: "intsetGetEncoded s n cur = Some ?v"
    using Suc.prems(3,6,7) GetEncoded_blk [of s cur "take (Suc n) xs" "drop (cur * Suc n) ?C" n]
    by (auto dest: in_set_takeD)
  have bound: "new * (Suc n + p) \<le> new * (length xs + 1)"
    using Suc.prems(5,7) by (intro mult_le_mono2) simp
  moreover have "new * (n + p) \<le> new * (Suc n + p)" by simp
  ultimately have "new * (n + p) \<le> length ?C" using Suc.prems(8) by linarith
  with bound have len: "length ?c = length ?C" "length (take (new * (n + p)) ?C) = new * (n + p)"
    using Suc.prems(8) by (simp_all add: min_absorb2)
  have "mem_write (new * (n + p)) (le_bytes new ?v) ?C = Some ?c"
    using bound Suc.prems(8) by (simp add: mem_write_def add.commute)
  then have set: "intsetSet s (n + p) ?v = Some (s\<lparr>contents := ?c\<rparr>)"
    using Suc.prems(1,2) by (simp add: Set_mem_write)
  have le: "cur * n \<le> new * (n + p)" using Suc.prems(4) by (intro mult_le_mono) simp_all
  have "take (cur * n) ?C = take (cur * n) (take (cur * Suc n) ?C)" by (simp add: min_def)
  also have "\<dots> = blk cur (take n xs)"
    unfolding Suc.prems(9) using Suc.prems(7) by (simp add: take_blk min_def)
  finally have front: "take (cur * n) ?c = blk cur (take n xs)"
    using le len by (simp add: min_def)
  have tail: "drop (new * (n + p)) ?c = blk new (drop n xs) @ t"
    using Suc.prems(7,10) len by (simp flip: Cons_nth_drop_Suc)
  have "\<exists>c. intsetUpgrade_loop (s\<lparr>contents := ?c\<rparr>) n p cur = Some (s\<lparr>contents := ?c, contents := c\<rparr>) \<and>
             length c = new * (length xs + 1) \<and> drop (new * p) c = blk new xs @ t"
    using Suc.prems front tail len by (intro Suc.IH) auto
  then show ?case using get set by simp
qed

lemma UpgradeAndAdd_correct:
  assumes h: "holds s xs []" and srt: "sorted_wrt (<) xs" and len: "length xs < 2 ^ 28"
    and v: "int64 v" and up: "intsetValueEncoding v > encoding s"
  shows "\<exists>s'. intsetUpgradeAndAdd junk s v = Some s' \<and> v \<notin> set xs \<and>
           holds s' (take (rank v xs) xs @ v # drop (rank v xs) xs) []"
proof -
  let ?new = "intsetValueEncoding v" and ?n = "length xs"
  define p :: nat where "p = (if v < 0 then 1 else 0)"
  have e: "encoding s \<in> {2, 4, 8}" "is_length s = ?n" "contents s = blk (encoding s) xs"
    "\<forall>x\<in>set xs. fits (encoding s) x" using h by (auto simp: holds_def)
  have new: "?new \<in> {2, 4, 8}" "fits ?new v"
    using ValueEncoding_range fits_ValueEncoding [OF v] by (blast, blast)
  have nf: "\<not> fits (encoding s) v" using up fits_ValueEncoding [OF v e(1)] by simp
  have fx: "\<forall>x\<in>set xs. fits ?new x" using e(4) up fits_mono less_imp_le by blast
  have side: "if v < 0 then \<forall>x\<in>set xs. v < x else \<forall>x\<in>set xs. x < v"
    using nf e(4) by (auto simp: fits_def)
  have u: "u32 (u32 (?n + 1) * ?new) = ?new * (?n + 1)" "u32 (?n + 1) = ?n + 1"
    "encoding s mod 256 = encoding s"
    using new(1) e(1) len by (auto simp: u32_def)
  let ?s = "s\<lparr>encoding := ?new, contents := mem_realloc junk (?new * (?n + 1)) (contents s)\<rparr>"
  have el: "encoding s * ?n \<le> ?new * (?n + 1)" using up by (intro mult_le_mono) simp_all
  have re: "intsetResize junk (s\<lparr>encoding := ?new\<rparr>) (u32 (?n + 1)) = ?s"
    using u by (simp add: intsetResize_def)
  obtain t where t: "drop (?new * (?n + p)) (contents ?s) = t" by blast
  have tk: "take (encoding s * ?n) (contents ?s) = blk (encoding s) (take ?n xs)"
    using el e(3) by (simp add: mem_realloc_grow)
  have "\<exists>c. intsetUpgrade_loop ?s ?n p (encoding s) = Some (?s\<lparr>contents := c\<rparr>) \<and>
       length c = ?new * (?n + 1) \<and> drop (?new * p) c = blk ?new xs @ t"
    using new(1) e up tk t by (intro Upgrade_loop) (auto simp: p_def)
  then obtain c where c: "intsetUpgrade_loop ?s ?n p (encoding s) = Some (?s\<lparr>contents := c\<rparr>)"
    "length c = ?new * (?n + 1)" "drop (?new * p) c = blk ?new xs @ t" by blast
  have final: "intsetSet (?s\<lparr>contents := c\<rparr>) (if p = 1 then 0 else ?n) v =
      Some (?s\<lparr>contents := blk ?new (take (rank v xs) xs @ v # drop (rank v xs) xs)\<rparr>)"
  proof (cases "v < 0")
    case True
    then have "rank v xs = 0" using side by (cases xs) (auto simp: rank_def)
    moreover have "length (blk ?new xs @ t) = ?new * ?n"
      using c(2) True unfolding c(3) [symmetric] by (simp add: p_def)
    then have "t = []" by simp
    ultimately show ?thesis using c True new(1)
      by (simp add: Set_mem_write mem_write_def p_def)
  next
    case False
    then have "takeWhile (\<lambda>x. x < v) xs = xs" using side by simp
    then have r: "rank v xs = ?n" by (simp only: rank_def)
    have "c = blk ?new xs @ t" using c(3) False by (simp add: p_def)
    moreover from this have "length t = ?new" using c(2) by simp
    ultimately show ?thesis using False new(1) r
      by (simp add: Set_mem_write mem_write_def p_def)
  qed
  have "v \<notin> set xs" using nf e(4) by blast
  moreover have "intsetUpgradeAndAdd junk s v = Some (?s\<lparr>contents :=
      blk ?new (take (rank v xs) xs @ v # drop (rank v xs) xs), is_length := Suc ?n\<rparr>)"
    using c(1) final re u e(2)
    by (cases "p = 1") (simp_all add: intsetUpgradeAndAdd_def p_def [symmetric] Let_def)
  moreover have "\<forall>x\<in>set (take (rank v xs) xs @ v # drop (rank v xs) xs). fits ?new x"
    using fx new(2) by (simp only: set_insert_rank) simp
  ultimately show ?thesis using new(1) rank_le_length [of v xs] by (simp add: holds_def)
qed

text \<open>The whole insertion on the abstract list.\<close>

lemma Add_holds:
  assumes h: "holds s xs []" and srt: "sorted_wrt (<) xs" and len: "length xs < 2 ^ 28" and v: "int64 v"
  shows "\<exists>s'. intsetAdd junk s v = Some (s', v \<notin> set xs) \<and>
    holds s' (if v \<in> set xs then xs else take (rank v xs) xs @ v # drop (rank v xs) xs) []"
proof (cases "intsetValueEncoding v > encoding s")
  case True
  then show ?thesis using UpgradeAndAdd_correct [OF h srt len v True, of junk]
    by (auto simp: intsetAdd_def)
next
  case False
  have e: "encoding s \<in> {2, 4, 8}" "is_length s = length xs" using h by (auto simp: holds_def)
  have fv: "fits (encoding s) v" using False fits_ValueEncoding [OF v e(1)] by simp
  have srch: "intsetSearch s v = Some (v \<in> set xs, rank v xs)" using h srt len by (rule Search_correct)
  let ?s = "intsetResize junk s (u32 (is_length s + 1))"
  obtain t where t: "holds ?s xs t" "length t = encoding s" using Resize_holds [OF h len] by blast
  have enc: "encoding ?s = encoding s" by (simp add: intsetResize_def)
  obtain s' where s': "Option.bind (if rank v xs < is_length ?s
        then intsetMoveTail ?s (rank v xs) (u32 (rank v xs + 1)) else Some ?s) (\<lambda>s. intsetSet s (rank v xs) v) = Some s'"
    "holds (s'\<lparr>is_length := Suc (length xs)\<rparr>) (take (rank v xs) xs @ v # drop (rank v xs) xs) []"
    "is_length s' = length xs"
    using insert_at [OF t(1) _ rank_le_length len, of v v] t(2) fv enc by auto
  have u: "u32 (length xs + 1) = Suc (length xs)" using len by (simp add: u32_def)
  show ?thesis
  proof (cases "v \<in> set xs")
    case True
    then show ?thesis using False srch h by (simp add: intsetAdd_def)
  next
    case notin: False
    have "intsetAdd junk s v = Option.bind (if rank v xs < is_length ?s
        then intsetMoveTail ?s (rank v xs) (u32 (rank v xs + 1)) else Some ?s)
        (\<lambda>s. Option.bind (intsetSet s (rank v xs) v) (\<lambda>s. Some (s\<lparr>is_length := u32 (is_length s + 1)\<rparr>, True)))"
      using False srch notin by (simp add: intsetAdd_def)
    also have "\<dots> = Some (s'\<lparr>is_length := u32 (is_length s' + 1)\<rparr>, True)"
      unfolding Option.bind_assoc [symmetric] s'(1) by simp
    finally show ?thesis using s'(2,3) u notin by simp
  qed
qed

lemma Remove_at:
  assumes h: "holds s xs []" and k: "k < length xs" and len: "length xs < 2 ^ 28"
  shows "\<exists>s'. (if k < u32_sub (is_length s) 1 then intsetMoveTail s (u32 (k + 1)) k else Some s) = Some s' \<and>
     holds ((intsetResize junk s' (u32_sub (is_length s) 1))\<lparr>is_length := u32_sub (is_length s) 1\<rparr>)
       (take k xs @ drop (Suc k) xs) []"
proof -
  let ?e = "encoding s" and ?n = "length xs"
  have e: "?e \<in> {2, 4, 8}" and n: "is_length s = ?n" and c: "contents s = blk ?e xs"
    and f: "\<forall>x\<in>set xs. fits ?e x" using h by (auto simp: holds_def)
  have "1 \<le> ?n" using k by linarith
  then have sub: "u32_sub ?n 1 = ?n - 1" using len by (intro u32_sub_id) simp_all
  have u: "u32 ((?n - 1) * ?e) = ?e * (?n - 1)" "u32 (k + 1) = k + 1"
    using e k len by (auto simp: u32_def)
  have fin: "\<forall>x\<in>set (take k xs @ drop (Suc k) xs). fits ?e x"
    using f by (auto dest: in_set_takeD in_set_dropD)
  have le: "?e * k + ?e * (?n - (k + 1)) = ?e * (?n - 1)"
    by (simp add: add_mult_distrib2 [symmetric]) (use k in simp)
  have tk: "take (?e * k) (contents s) = blk ?e (take k xs)" using c by (simp add: take_blk)
  show ?thesis
  proof (cases "k < ?n - 1")
    case False
    then have "k = ?n - 1" using k by simp
    then show ?thesis using n sub u e fin c tk
      by (simp add: holds_def intsetResize_def mem_realloc_shrink)
  next
    case True
    let ?c = "take (?e * k) (contents s) @ blk ?e (drop (Suc k) xs) @ drop (?e * (?n - 1)) (contents s)"
    have "(k + 1) + (?n - (k + 1)) = ?n" using k by simp
    then have full: "?e * (k + 1) + ?e * (?n - (k + 1)) = ?e * ?n"
      by (simp only: add_mult_distrib2 [symmetric])
    have "drop (?e * (k + 1)) (contents s) = blk ?e (drop (k + 1) xs)" by (simp only: c drop_blk)
    then have rd: "mem_read (?e * (k + 1)) (?e * (?n - (k + 1))) (contents s) = Some (blk ?e (drop (Suc k) xs))"
      unfolding mem_read_def using full c by simp
    have le': "?e * (?n - 1) \<le> ?e * ?n" by (rule mult_le_mono2) simp
    have "mem_move (?e * k) (?e * (k + 1)) (?e * (?n - (k + 1))) (contents s) = Some ?c"
      unfolding mem_move_def rd mem_write_def using le le' c by simp
    then have mv: "intsetMoveTail s (k + 1) k = Some (s\<lparr>contents := ?c\<rparr>)"
      using MoveTail_mem_move [of s "k + 1" k] e n len k by simp
    have lc: "length (take (?e * k) (contents s) @ blk ?e (drop (Suc k) xs)) = ?e * (?n - 1)"
      using tk le k by simp
    have "mem_realloc junk (?e * (?n - 1)) ?c = blk ?e (take k xs @ drop (Suc k) xs)"
      using mem_realloc_append [OF lc, of junk "drop (?e * (?n - 1)) (contents s)"]
      by (simp only: tk append_assoc blk_simps)
    then show ?thesis using True mv n sub u e fin k
      by (simp add: holds_def intsetResize_def)
  qed
qed

lemma Remove_holds:
  assumes h: "holds s xs []" and srt: "sorted_wrt (<) xs" and len: "length xs < 2 ^ 28" and v: "int64 v"
  shows "\<exists>s'. intsetRemove junk s v = Some (s', v \<in> set xs) \<and>
    holds s' (if v \<in> set xs then take (rank v xs) xs @ drop (Suc (rank v xs)) xs else xs) []"
proof (cases "intsetValueEncoding v \<le> encoding s")
  case False
  then have "v \<notin> set xs" using h fits_ValueEncoding [OF v] by (auto simp: holds_def)
  then show ?thesis using False h by (simp add: intsetRemove_def)
next
  case True
  have srch: "intsetSearch s v = Some (v \<in> set xs, rank v xs)" using h srt len by (rule Search_correct)
  show ?thesis
  proof (cases "v \<in> set xs")
    case False
    then show ?thesis using True srch h by (simp add: intsetRemove_def)
  next
    case mem: True
    then have "rank v xs < length xs" using rank_nth [OF srt] by (auto simp: in_set_conv_nth)
    from Remove_at [OF h this len, of junk] show ?thesis
      using True mem srch by (auto simp: intsetRemove_def)
  qed
qed

section \<open>The set interface\<close>

lemma Add_inv:
  assumes i: "intset_inv s" and v: "int64 v" and c: "card (set (elems s)) < 2 ^ 28 - 1"
  shows "\<exists>s'. intsetAdd junk s v = Some (s', v \<notin> set (elems s)) \<and> intset_inv s' \<and>
           set (elems s') = insert v (set (elems s))"
proof -
  let ?xs = "elems s"
  have h: "holds s ?xs []" and srt: "sorted_wrt (<) ?xs" using i inv_holds by (auto simp: intset_inv_def)
  have len: "length ?xs < 2 ^ 28 - 1"
    using c distinct_card [OF sorted_wrt_less_distinct [OF srt]] by simp
  obtain s' where s': "intsetAdd junk s v = Some (s', v \<notin> set ?xs)"
    "holds s' (if v \<in> set ?xs then ?xs else take (rank v ?xs) ?xs @ v # drop (rank v ?xs) ?xs) []"
    using Add_holds [OF h srt _ v, of junk] len by auto
  show ?thesis
  proof (cases "v \<in> set ?xs")
    case True
    then show ?thesis using s' holds_elems holds_inv srt len by (auto simp: insert_absorb)
  next
    case False
    let ?ys = "take (rank v ?xs) ?xs @ v # drop (rank v ?xs) ?xs"
    have "holds s' ?ys []" using s'(2) False by simp
    moreover have "length ?ys < 2 ^ 28" using rank_le_length [of v ?xs] len by simp
    ultimately have "intset_inv s'" "elems s' = ?ys"
      using holds_inv holds_elems sorted_insert_rank [OF srt False] by blast+
    then show ?thesis using s'(1) set_insert_rank [of v ?xs] by simp
  qed
qed

lemma Remove_inv:
  assumes i: "intset_inv s" and v: "int64 v"
  shows "\<exists>s'. intsetRemove junk s v = Some (s', v \<in> set (elems s)) \<and> intset_inv s' \<and>
           set (elems s') = set (elems s) - {v}"
proof -
  let ?xs = "elems s"
  have h: "holds s ?xs []" and srt: "sorted_wrt (<) ?xs" and len: "length ?xs < 2 ^ 28"
    using i inv_holds by (auto simp: intset_inv_def elems_def)
  obtain s' where s': "intsetRemove junk s v = Some (s', v \<in> set ?xs)"
    "holds s' (if v \<in> set ?xs then take (rank v ?xs) ?xs @ drop (Suc (rank v ?xs)) ?xs else ?xs) []"
    using Remove_holds [OF h srt len v, of junk] by auto
  show ?thesis
  proof (cases "v \<in> set ?xs")
    case False
    then show ?thesis using s' holds_elems holds_inv srt len by auto
  next
    case True
    let ?ys = "take (rank v ?xs) ?xs @ drop (Suc (rank v ?xs)) ?xs"
    obtain i where i: "i < length ?xs" "v = ?xs ! i" using True by (auto simp: in_set_conv_nth)
    then have r: "rank v ?xs = i" using rank_nth [OF srt] by simp
    have "holds s' ?ys []" using s'(2) True by simp
    moreover have "length ?ys < 2 ^ 28" using len i r by simp
    ultimately have "intset_inv s'" "elems s' = ?ys"
      using holds_inv holds_elems remove_at_nth(1) [OF srt i(1)] r by auto
    then show ?thesis using s'(1) remove_at_nth(2) [OF srt i(1)] r i(2) by simp
  qed
qed

lemma Find_inv: "intset_inv s \<Longrightarrow> int64 v \<Longrightarrow> intsetFind s v = Some (v \<in> set (elems s))"
proof -
  assume i: "intset_inv s" and v: "int64 v"
  have h: "holds s (elems s) []" and srt: "sorted_wrt (<) (elems s)" and len: "length (elems s) < 2 ^ 28"
    using i inv_holds by (auto simp: intset_inv_def elems_def)
  have "\<not> intsetValueEncoding v \<le> encoding s \<Longrightarrow> v \<notin> set (elems s)"
    using h fits_ValueEncoding [OF v] by (auto simp: holds_def)
  then show ?thesis using Search_correct [OF h srt len, of v] by (auto simp: intsetFind_def)
qed

interpretation iset: set_impl "intsetAdd junk" "intsetRemove junk" intsetFind
    "\<lambda>s. set (elems s)" intset_inv int64 "2 ^ 28 - 1" for junk
  by unfold_locales (simp_all only: finite_set Add_inv Remove_inv Find_inv)

section \<open>Properties\<close>

text \<open>Property C5: any sequence of insertions, removals and membership tests on an intset, whatever the
  encoding upgrades on the way and whatever bytes \<open>zrealloc\<close> adds, stays inside its memory, keeps the
  array sorted and duplicate-free, and gives exactly the replies and the final contents of a
  mathematical set.\<close>

theorem intset_run_refines:
  assumes "intset_inv s" "\<forall>x\<in>set xs. int64 (set_op_arg x)" "card (set (elems s)) + length xs \<le> 2 ^ 28 - 1"
  shows "\<exists>s'. set_impl_run (intsetAdd junk) (intsetRemove junk) intsetFind s xs
               = Some (s', snd (set_spec_run (set (elems s)) xs)) \<and>
             intset_inv s' \<and> set (elems s') = fst (set_spec_run (set (elems s)) xs)"
  using assms by (rule iset.run_refines)

lemma intsetNew_inv: "intset_inv intsetNew \<and> elems intsetNew = []"
  by (simp add: intset_inv_def intsetNew_def elems_def enc_defs)

theorem intset_run_refines_witness:
  "\<exists>s'. set_impl_run (intsetAdd (\<lambda>_. 7)) (intsetRemove (\<lambda>_. 7)) intsetFind intsetNew
           [SetAdd 5, SetAdd 70000, SetAdd (-3), SetAdd 5, SetRem 5, SetMem 70000]
         = Some (s', [True, True, True, False, True, True]) \<and>
       intset_inv s' \<and> set (elems s') = {70000, -3}"
proof -
  let ?ops = "[SetAdd 5, SetAdd 70000, SetAdd (-3), SetAdd 5, SetRem 5, SetMem 70000] :: int set_op list"
  have "set_spec_run (set (elems intsetNew)) ?ops = ({70000, -3}, [True, True, True, False, True, True])"
    by (auto simp: intsetNew_inv)
  then show ?thesis
    using intset_run_refines [of intsetNew ?ops "\<lambda>_. 7"] intsetNew_inv by (simp add: int64_def)
qed

text \<open>Property C39: the binary search of \<open>intsetSearch\<close> terminates and reports whether the value is in the
  set together with the number of smaller elements, which is its position, or the position where it
  has to be inserted.\<close>

theorem intsetSearch_position:
  assumes "intset_inv s"
  shows "intsetSearch s v = Some (v \<in> set (elems s), card {x \<in> set (elems s). x < v})"
proof -
  have h: "holds s (elems s) []" and srt: "sorted_wrt (<) (elems s)" and len: "length (elems s) < 2 ^ 28"
    using assms inv_holds by (auto simp: intset_inv_def elems_def)
  have "{x \<in> set (elems s). x < v} = set (takeWhile (\<lambda>x. x < v) (elems s))"
    using sorted_takeWhile_less [OF srt] by simp
  moreover have "distinct (takeWhile (\<lambda>x. x < v) (elems s))"
    using sorted_wrt_less_distinct [OF srt] by (rule distinct_takeWhile)
  ultimately have "card {x \<in> set (elems s). x < v} = rank v (elems s)"
    by (simp add: rank_def distinct_card)
  then show ?thesis using Search_correct [OF h srt len, of v] by simp
qed

theorem intsetSearch_position_witness:
  "intset_inv \<lparr>encoding = 2, is_length = 2, contents = [3, 0, 9, 0]\<rparr> \<and>
   intsetSearch \<lparr>encoding = 2, is_length = 2, contents = [3, 0, 9, 0]\<rparr> 5 = Some (False, 1)"
proof -
  let ?s = "\<lparr>encoding = 2, is_length = 2, contents = [3, 0, 9, 0]\<rparr> :: intset"
  have e: "elems ?s = [3, 9]" by (simp add: elems_def le_sint_def upt_rec)
  then have i: "intset_inv ?s" by (simp add: intset_inv_def)
  have "{x \<in> set (elems ?s). x < 5} = {3}" using e by auto
  then show ?thesis using i intsetSearch_position [OF i, of 5] e by simp
qed

end
