(* ===== verification/Dict.thy ===== *)
theory Dict
  imports Interfaces
begin

text \<open>
  The hash table of \<open>dict.c\<close>: two bucket arrays with chaining and incremental rehashing from
  \<open>ht[0]\<close> to \<open>ht[1]\<close>. A chain of \<open>dictEntry\<close> nodes is the list of its key/value pairs in
  link order, a \<open>NULL\<close> table is the empty bucket list, and a pointer to an entry is its place
  (table number, bucket, position in the chain). Counters are \<open>unsigned long\<close>s with their
  wrap-around written out. The callbacks of \<open>dictType\<close> and the two globals that steer resizing are
  parameters, gathered in a record. \<^const>\<open>None\<close> is an access outside a table or a failed assertion.
\<close>

section \<open>Data\<close>

record 'k dict_ctx =
  hashFunction :: "'k \<Rightarrow> nat"
  keyCompare :: "'k \<Rightarrow> 'k \<Rightarrow> bool"
  dict_can_resize :: bool
  g_IsForkedProcess :: bool

record ('k, 'v) dictht =
  ht_table :: "('k \<times> 'v) list list"
  ht_size :: nat
  ht_sizemask :: nat
  ht_used :: nat

record ('k, 'v) dict =
  ht0 :: "('k, 'v) dictht"
  ht1 :: "('k, 'v) dictht"
  rehashidx :: int
  iterators :: nat

definition DICT_HT_INITIAL_SIZE :: nat where "DICT_HT_INITIAL_SIZE = 4"
definition dict_force_resize_ratio :: nat where "dict_force_resize_ratio = 5"
definition LONG_MAX :: nat where "LONG_MAX = 2 ^ 63 - 1"

definition u64 :: "nat \<Rightarrow> nat" where "u64 n = n mod 2 ^ 64"
definition u64_dec :: "nat \<Rightarrow> nat" where "u64_dec n = (n + (2 ^ 64 - 1)) mod 2 ^ 64"

definition bucket :: "('k, 'v) dictht \<Rightarrow> nat \<Rightarrow> ('k \<times> 'v) list option" where
  "bucket ht i = (if i < length (ht_table ht) then Some (ht_table ht ! i) else None)"

definition set_bucket :: "('k, 'v) dictht \<Rightarrow> nat \<Rightarrow> ('k \<times> 'v) list \<Rightarrow> ('k, 'v) dictht" where
  "set_bucket ht i c = ht\<lparr>ht_table := (ht_table ht)[i := c]\<rparr>"

definition dictIsRehashing :: "('k, 'v) dict \<Rightarrow> bool" where
  "dictIsRehashing d \<longleftrightarrow> rehashidx d \<noteq> -1"

definition dictSize :: "('k, 'v) dict \<Rightarrow> nat" where
  "dictSize d = u64 (ht_used (ht0 d) + ht_used (ht1 d))"

definition dictSlots :: "('k, 'v) dict \<Rightarrow> nat" where
  "dictSlots d = u64 (ht_size (ht0 d) + ht_size (ht1 d))"

section \<open>Creation and resizing\<close>

definition dictReset :: "('k, 'v) dictht" where
  "dictReset = \<lparr>ht_table = [], ht_size = 0, ht_sizemask = 0, ht_used = 0\<rparr>"

definition dictCreate :: "('k, 'v) dict" where
  "dictCreate = \<lparr>ht0 = dictReset, ht1 = dictReset, rehashidx = -1, iterators = 0\<rparr>"

text \<open>The doubling loop starts at 4, so the guard \<open>i = 0\<close> never fires.\<close>

function dictNextPower_loop :: "nat \<Rightarrow> nat \<Rightarrow> nat" where
  "dictNextPower_loop i sz = (if i \<ge> sz \<or> i = 0 then i else dictNextPower_loop (i * 2) sz)"
  by pat_completeness auto
termination
  by (relation "measure (\<lambda>(i, sz). sz - i)") auto

declare dictNextPower_loop.simps [simp del]

definition dictNextPower :: "nat \<Rightarrow> nat" where
  "dictNextPower sz =
     (if sz \<ge> LONG_MAX then LONG_MAX else dictNextPower_loop DICT_HT_INITIAL_SIZE sz)"

text \<open>The flag of the result is true for \<open>DICT_OK\<close>.\<close>

definition dictExpand :: "('k, 'v) dict \<Rightarrow> nat \<Rightarrow> ('k, 'v) dict \<times> bool" where
  "dictExpand d sz = (
     let realsize = dictNextPower sz;
         n = \<lparr>ht_table = replicate realsize [], ht_size = realsize,
              ht_sizemask = realsize - 1, ht_used = 0\<rparr>
     in if dictIsRehashing d \<or> ht_used (ht0 d) > sz then (d, False)
        else if realsize = ht_size (ht0 d) then (d, False)
        else if ht_table (ht0 d) = [] then (d\<lparr>ht0 := n\<rparr>, True)
        else (d\<lparr>ht1 := n, rehashidx := 0\<rparr>, True))"

definition dictResize :: "'k dict_ctx \<Rightarrow> ('k, 'v) dict \<Rightarrow> ('k, 'v) dict \<times> bool" where
  "dictResize cx d =
     (if \<not> dict_can_resize cx \<or> dictIsRehashing d then (d, False)
      else let minimal = int_of_u32 (ht_used (ht0 d));
               minimal = (if minimal < int DICT_HT_INITIAL_SIZE then int DICT_HT_INITIAL_SIZE else minimal)
           in dictExpand d (nat minimal))"

section \<open>Incremental rehashing\<close>

text \<open>The inner loop over empty buckets; the flag is true when the visit budget ran out.\<close>

function dictRehash_skip :: "('k, 'v) dict \<Rightarrow> int \<Rightarrow> (('k, 'v) dict \<times> int \<times> bool) option" where
  "dictRehash_skip d ev =
     (if 0 \<le> rehashidx d \<and> nat (rehashidx d) < length (ht_table (ht0 d)) then
        (if ht_table (ht0 d) ! nat (rehashidx d) = [] then
           (let d' = d\<lparr>rehashidx := rehashidx d + 1\<rparr>; ev' = ev - 1 in
            if ev' = 0 then Some (d', ev', True) else dictRehash_skip d' ev')
         else Some (d, ev, False))
      else None)"
  by pat_completeness auto
termination
  by (relation "measure (\<lambda>(d, ev). length (ht_table (ht0 d)) - nat (rehashidx d))") auto

declare dictRehash_skip.simps [simp del]

fun dictRehash_move :: "'k dict_ctx \<Rightarrow> ('k \<times> 'v) list \<Rightarrow> ('k, 'v) dict \<Rightarrow> ('k, 'v) dict option" where
  "dictRehash_move cx [] d = Some d"
| "dictRehash_move cx (de # es) d = (
     let h = hashFunction cx (fst de) AND ht_sizemask (ht1 d) in
     do {
       b \<leftarrow> bucket (ht1 d) h;
       dictRehash_move cx es
         (d\<lparr>ht0 := (ht0 d)\<lparr>ht_used := u64_dec (ht_used (ht0 d))\<rparr>,
            ht1 := (set_bucket (ht1 d) h (de # b))\<lparr>ht_used := u64 (ht_used (ht1 d) + 1)\<rparr>\<rparr>)
     })"

definition dictRehash_finish :: "('k, 'v) dict \<Rightarrow> ('k, 'v) dict \<times> bool" where
  "dictRehash_finish d =
     (if ht_used (ht0 d) = 0 then (d\<lparr>ht0 := ht1 d, ht1 := dictReset, rehashidx := -1\<rparr>, False)
      else (d, True))"

fun dictRehash_loop :: "'k dict_ctx \<Rightarrow> nat \<Rightarrow> int \<Rightarrow> ('k, 'v) dict \<Rightarrow> (('k, 'v) dict \<times> bool) option" where
  "dictRehash_loop cx 0 ev d = Some (dictRehash_finish d)"
| "dictRehash_loop cx (Suc n) ev d =
     (if ht_used (ht0 d) = 0 then Some (dictRehash_finish d)
      else if \<not> int (ht_size (ht0 d)) > rehashidx d then None
      else do {
        (d, ev, out) \<leftarrow> dictRehash_skip d ev;
        if out then Some (d, True)
        else do {
          de \<leftarrow> bucket (ht0 d) (nat (rehashidx d));
          d \<leftarrow> dictRehash_move cx de d;
          dictRehash_loop cx n ev
            (d\<lparr>ht0 := set_bucket (ht0 d) (nat (rehashidx d)) [], rehashidx := rehashidx d + 1\<rparr>)
        }
      })"

definition dictRehash :: "'k dict_ctx \<Rightarrow> ('k, 'v) dict \<Rightarrow> nat \<Rightarrow> (('k, 'v) dict \<times> bool) option" where
  "dictRehash cx d n =
     (if g_IsForkedProcess cx then Some (d, False)
      else if \<not> dictIsRehashing d then Some (d, False)
      else dictRehash_loop cx n (int n * 10) d)"

definition dictRehashStep :: "'k dict_ctx \<Rightarrow> ('k, 'v) dict \<Rightarrow> ('k, 'v) dict option" where
  "dictRehashStep cx d = (if iterators d = 0 then map_option fst (dictRehash cx d 1) else Some d)"

section \<open>Insertion\<close>

definition dictExpandIfNeeded :: "'k dict_ctx \<Rightarrow> ('k, 'v) dict \<Rightarrow> ('k, 'v) dict \<times> bool" where
  "dictExpandIfNeeded cx d =
     (if dictIsRehashing d then (d, True)
      else if ht_size (ht0 d) = 0 then dictExpand d DICT_HT_INITIAL_SIZE
      else if ht_used (ht0 d) \<ge> ht_size (ht0 d) \<and>
              (dict_can_resize cx \<or> ht_used (ht0 d) div ht_size (ht0 d) > dict_force_resize_ratio)
      then dictExpand d (u64 (ht_used (ht0 d) * 2))
      else (d, True))"

fun chain_find :: "'k dict_ctx \<Rightarrow> 'k \<Rightarrow> ('k \<times> 'v) list \<Rightarrow> nat option" where
  "chain_find cx key [] = None"
| "chain_find cx key (he # c) =
     (if keyCompare cx key (fst he) then Some 0 else map_option Suc (chain_find cx key c))"

definition dictKeyIndex :: "'k dict_ctx \<Rightarrow> ('k, 'v) dict \<Rightarrow> 'k \<Rightarrow> (('k, 'v) dict \<times> int) option" where
  "dictKeyIndex cx d key = (
     let (d, ok) = dictExpandIfNeeded cx d in
     if \<not> ok then Some (d, -1)
     else let h = hashFunction cx key; idx0 = h AND ht_sizemask (ht0 d) in
     do {
       c0 \<leftarrow> bucket (ht0 d) idx0;
       if chain_find cx key c0 \<noteq> None then Some (d, -1)
       else if \<not> dictIsRehashing d then Some (d, int_of_u32 idx0)
       else do {
         idx1 \<leftarrow> Some (h AND ht_sizemask (ht1 d));
         c1 \<leftarrow> bucket (ht1 d) idx1;
         if chain_find cx key c1 \<noteq> None then Some (d, -1) else Some (d, int_of_u32 idx1)
       }
     })"

text \<open>
  The new entry goes to the head of its chain; its value field, which the caller fills, starts
  as the uninitialised \<open>junk\<close>. The result names its table and bucket.
\<close>

definition dictAddRaw ::
    "'k dict_ctx \<Rightarrow> 'v \<Rightarrow> ('k, 'v) dict \<Rightarrow> 'k \<Rightarrow> (('k, 'v) dict \<times> (nat \<times> nat) option) option" where
  "dictAddRaw cx junk d key = do {
     d \<leftarrow> (if dictIsRehashing d then dictRehashStep cx d else Some d);
     (d, index) \<leftarrow> dictKeyIndex cx d key;
     if index = -1 then Some (d, None)
     else if index < 0 then None
     else if dictIsRehashing d then do {
       c \<leftarrow> bucket (ht1 d) (nat index);
       Some (d\<lparr>ht1 := (set_bucket (ht1 d) (nat index) ((key, junk) # c))
                 \<lparr>ht_used := u64 (ht_used (ht1 d) + 1)\<rparr>\<rparr>, Some (1, nat index))
     }
     else do {
       c \<leftarrow> bucket (ht0 d) (nat index);
       Some (d\<lparr>ht0 := (set_bucket (ht0 d) (nat index) ((key, junk) # c))
                 \<lparr>ht_used := u64 (ht_used (ht0 d) + 1)\<rparr>\<rparr>, Some (0, nat index))
     }
   }"

definition ht_get :: "('k, 'v) dict \<Rightarrow> nat \<Rightarrow> ('k, 'v) dictht" where
  "ht_get d t = (if t = 0 then ht0 d else ht1 d)"

definition ht_put :: "('k, 'v) dict \<Rightarrow> nat \<Rightarrow> ('k, 'v) dictht \<Rightarrow> ('k, 'v) dict" where
  "ht_put d t ht = (if t = 0 then d\<lparr>ht0 := ht\<rparr> else d\<lparr>ht1 := ht\<rparr>)"

text \<open>\<open>dictSetVal\<close> and \<open>dictGetVal\<close> through a pointer to the entry at a place.\<close>

definition dictSetVal :: "('k, 'v) dict \<Rightarrow> nat \<times> nat \<times> nat \<Rightarrow> 'v \<Rightarrow> ('k, 'v) dict option" where
  "dictSetVal d = (\<lambda>(t, idx, pos) v. do {
     c \<leftarrow> bucket (ht_get d t) idx;
     if pos < length c
     then Some (ht_put d t (set_bucket (ht_get d t) idx (c[pos := (fst (c ! pos), v)])))
     else None
   })"

definition dictGetEntry :: "('k, 'v) dict \<Rightarrow> nat \<times> nat \<times> nat \<Rightarrow> ('k \<times> 'v) option" where
  "dictGetEntry d = (\<lambda>(t, idx, pos). do {
     c \<leftarrow> bucket (ht_get d t) idx;
     if pos < length c then Some (c ! pos) else None
   })"

definition dictAdd ::
    "'k dict_ctx \<Rightarrow> 'v \<Rightarrow> ('k, 'v) dict \<Rightarrow> 'k \<Rightarrow> 'v \<Rightarrow> (('k, 'v) dict \<times> bool) option" where
  "dictAdd cx junk d key val = do {
     (d, entry) \<leftarrow> dictAddRaw cx junk d key;
     case entry of None \<Rightarrow> Some (d, False)
     | Some (t, idx) \<Rightarrow> map_option (\<lambda>d. (d, True)) (dictSetVal d (t, idx, 0) val)
   }"

section \<open>Lookup, replacement and deletion\<close>

definition dictFind ::
    "'k dict_ctx \<Rightarrow> ('k, 'v) dict \<Rightarrow> 'k \<Rightarrow> (('k, 'v) dict \<times> (nat \<times> nat \<times> nat) option) option" where
  "dictFind cx d key =
     (if ht_size (ht0 d) = 0 then Some (d, None)
      else do {
        d \<leftarrow> (if dictIsRehashing d then dictRehashStep cx d else Some d);
        idx0 \<leftarrow> Some (hashFunction cx key AND ht_sizemask (ht0 d));
        c0 \<leftarrow> bucket (ht0 d) idx0;
        case chain_find cx key c0 of
          Some p \<Rightarrow> Some (d, Some (0, idx0, p))
        | None \<Rightarrow>
            if \<not> dictIsRehashing d then Some (d, None)
            else do {
              idx1 \<leftarrow> Some (hashFunction cx key AND ht_sizemask (ht1 d));
              c1 \<leftarrow> bucket (ht1 d) idx1;
              Some (d, map_option (\<lambda>p. (1, idx1, p)) (chain_find cx key c1))
            }
      })"

definition dictFetchValue ::
    "'k dict_ctx \<Rightarrow> ('k, 'v) dict \<Rightarrow> 'k \<Rightarrow> (('k, 'v) dict \<times> 'v option) option" where
  "dictFetchValue cx d key = do {
     (d, he) \<leftarrow> dictFind cx d key;
     case he of None \<Rightarrow> Some (d, None)
     | Some p \<Rightarrow> map_option (\<lambda>e. (d, Some (snd e))) (dictGetEntry d p)
   }"

definition dictReplace ::
    "'k dict_ctx \<Rightarrow> 'v \<Rightarrow> ('k, 'v) dict \<Rightarrow> 'k \<Rightarrow> 'v \<Rightarrow> (('k, 'v) dict \<times> bool) option" where
  "dictReplace cx junk d key val = do {
     (d, ok) \<leftarrow> dictAdd cx junk d key val;
     if ok then Some (d, True)
     else do {
       (d, entry) \<leftarrow> dictFind cx d key;
       case entry of None \<Rightarrow> None
       | Some p \<Rightarrow> map_option (\<lambda>d. (d, False)) (dictSetVal d p val)
     }
   }"

definition dictReplaceRaw ::
    "'k dict_ctx \<Rightarrow> 'v \<Rightarrow> ('k, 'v) dict \<Rightarrow> 'k \<Rightarrow> (('k, 'v) dict \<times> (nat \<times> nat \<times> nat) option) option" where
  "dictReplaceRaw cx junk d key = do {
     (d, entry) \<leftarrow> dictFind cx d key;
     case entry of Some p \<Rightarrow> Some (d, Some p)
     | None \<Rightarrow> map_option (\<lambda>(d, e). (d, map_option (\<lambda>(t, idx). (t, idx, 0)) e)) (dictAddRaw cx junk d key)
   }"

definition chain_remove :: "nat \<Rightarrow> 'a list \<Rightarrow> 'a list" where
  "chain_remove p c = take p c @ drop (Suc p) c"

definition dictGenericDelete ::
    "'k dict_ctx \<Rightarrow> ('k, 'v) dict \<Rightarrow> 'k \<Rightarrow> (('k, 'v) dict \<times> bool) option" where
  "dictGenericDelete cx d key =
     (if ht_size (ht0 d) = 0 then Some (d, False)
      else do {
        d \<leftarrow> (if dictIsRehashing d then dictRehashStep cx d else Some d);
        idx0 \<leftarrow> Some (hashFunction cx key AND ht_sizemask (ht0 d));
        c0 \<leftarrow> bucket (ht0 d) idx0;
        case chain_find cx key c0 of
          Some p \<Rightarrow>
            Some (d\<lparr>ht0 := (set_bucket (ht0 d) idx0 (chain_remove p c0))
                     \<lparr>ht_used := u64_dec (ht_used (ht0 d))\<rparr>\<rparr>, True)
        | None \<Rightarrow>
            if \<not> dictIsRehashing d then Some (d, False)
            else do {
              idx1 \<leftarrow> Some (hashFunction cx key AND ht_sizemask (ht1 d));
              c1 \<leftarrow> bucket (ht1 d) idx1;
              case chain_find cx key c1 of
                Some p \<Rightarrow>
                  Some (d\<lparr>ht1 := (set_bucket (ht1 d) idx1 (chain_remove p c1))
                           \<lparr>ht_used := u64_dec (ht_used (ht1 d))\<rparr>\<rparr>, True)
              | None \<Rightarrow> Some (d, False)
            }
      })"

text \<open>
  Whether the key and the value are freed does not change the table: \<open>dictDelete\<close> and
  \<open>dictDeleteNoFree\<close> differ only in the callbacks they run.
\<close>

definition dictDelete :: "'k dict_ctx \<Rightarrow> ('k, 'v) dict \<Rightarrow> 'k \<Rightarrow> (('k, 'v) dict \<times> bool) option" where
  "dictDelete cx d key = dictGenericDelete cx d key"

definition dictDeleteNoFree :: "'k dict_ctx \<Rightarrow> ('k, 'v) dict \<Rightarrow> 'k \<Rightarrow> (('k, 'v) dict \<times> bool) option" where
  "dictDeleteNoFree cx d key = dictGenericDelete cx d key"

definition dictEmpty :: "('k, 'v) dict \<Rightarrow> ('k, 'v) dict" where
  "dictEmpty d = d\<lparr>ht0 := dictReset, ht1 := dictReset, rehashidx := -1, iterators := 0\<rparr>"

section \<open>Abstraction and invariant\<close>

definition ht_entries :: "('k, 'v) dictht \<Rightarrow> ('k \<times> 'v) multiset" where
  "ht_entries ht = mset (concat (ht_table ht))"

definition dict_entries :: "('k, 'v) dict \<Rightarrow> ('k \<times> 'v) multiset" where
  "dict_entries d = ht_entries (ht0 d) + ht_entries (ht1 d)"

definition dict_list :: "('k, 'v) dict \<Rightarrow> ('k \<times> 'v) list" where
  "dict_list d = concat (ht_table (ht0 d)) @ concat (ht_table (ht1 d))"

text \<open>Every entry is in the bucket its hash selects.\<close>

definition placed :: "'k dict_ctx \<Rightarrow> ('k, 'v) dictht \<Rightarrow> bool" where
  "placed cx ht \<longleftrightarrow> (\<forall>i < length (ht_table ht). \<forall>e \<in> set (ht_table ht ! i).
      hashFunction cx (fst e) AND ht_sizemask ht = i)"

definition ht_alloc :: "'k dict_ctx \<Rightarrow> ('k, 'v) dictht \<Rightarrow> bool" where
  "ht_alloc cx ht \<longleftrightarrow> (\<exists>n \<in> {2..31}. ht_size ht = 2 ^ n) \<and> ht_sizemask ht = ht_size ht - 1 \<and>
     length (ht_table ht) = ht_size ht \<and> ht_used ht = size (ht_entries ht) \<and> placed cx ht"

definition dict_cap :: nat where "dict_cap = 2 ^ 30"

definition dict_inv :: "'k dict_ctx \<Rightarrow> ('k, 'v) dict \<Rightarrow> bool" where
  "dict_inv cx d \<longleftrightarrow>
     (ht0 d = dictReset \<or> ht_alloc cx (ht0 d)) \<and>
     (if dictIsRehashing d
      then ht_alloc cx (ht0 d) \<and> ht_alloc cx (ht1 d) \<and>
           0 \<le> rehashidx d \<and> rehashidx d \<le> int (ht_size (ht0 d)) \<and>
           (\<forall>i < nat (rehashidx d). ht_table (ht0 d) ! i = [])
      else ht1 d = dictReset) \<and>
     size (dict_entries d) \<le> dict_cap \<and>
     distinct (map fst (dict_list d))"

text \<open>What the client relies on of the key type: keys are equal exactly when the comparison callback says so.\<close>

definition ctx_ok :: "'k dict_ctx \<Rightarrow> bool" where
  "ctx_ok cx \<longleftrightarrow> (\<forall>a b. keyCompare cx a b \<longleftrightarrow> a = b)"

text \<open>The dictionary as a finite map.\<close>

definition dict_map :: "('k, 'v) dict \<Rightarrow> 'k \<Rightarrow> 'v option" where
  "dict_map d = map_of (dict_list d)"

section \<open>Counters and bucket updates\<close>

lemma u64_id: "n < 2 ^ 64 \<Longrightarrow> u64 n = n"
  by (simp add: u64_def)

lemma u64_dec_Suc: "n < 2 ^ 64 \<Longrightarrow> 0 < n \<Longrightarrow> u64_dec n = n - 1"
proof -
  assume "n < 2 ^ 64" "0 < n"
  then have "n + (2 ^ 64 - 1) = (n - 1) + 2 ^ 64" by simp
  then show ?thesis using \<open>n < 2 ^ 64\<close> by (simp only: u64_dec_def mod_add_self2) simp
qed

lemma and_mask_less: "sz = 2 ^ n \<Longrightarrow> (h :: nat) AND (sz - 1) < sz"
proof -
  assume "sz = 2 ^ n"
  then have "h AND (sz - 1) = h mod 2 ^ n"
    by (simp only: mask_eq_exp_minus_1 [symmetric] take_bit_eq_mask [symmetric] take_bit_eq_mod)
  then show ?thesis using \<open>sz = 2 ^ n\<close> by simp
qed

lemma mset_concat_update:
  "i < length t \<Longrightarrow> mset (concat (t[i := c])) + mset (t ! i) = mset (concat t) + mset c"
proof (induction t arbitrary: i)
  case (Cons b t)
  then show ?case by (cases i) (auto simp: ac_simps)
qed simp

lemma mset_concat_nth: "i < length t \<Longrightarrow> mset (t ! i) \<subseteq># mset (concat t)"
proof (induction t arbitrary: i)
  case (Cons b t)
  then show ?case by (cases i) (auto intro: subset_mset.add_increasing subset_mset.order_trans)
qed simp

lemma mset_dict_list: "mset (dict_list d) = dict_entries d"
  by (simp add: dict_list_def dict_entries_def ht_entries_def)

lemma dict_map_iff:
  "distinct (map fst (dict_list d)) \<Longrightarrow> dict_map d k = Some v \<longleftrightarrow> (k, v) \<in># dict_entries d"
  by (simp add: dict_map_def flip: mset_dict_list)

lemma distinct_keys_cong:
  "dict_entries d' = dict_entries d \<Longrightarrow> distinct (map fst (dict_list d')) = distinct (map fst (dict_list d))"
  by (rule mset_eq_imp_distinct_iff) (simp add: mset_dict_list)

lemma dict_map_cong:
  "dict_entries d' = dict_entries d \<Longrightarrow> distinct (map fst (dict_list d)) \<Longrightarrow> dict_map d' = dict_map d"
  by (metis (no_types, lifting) distinct_keys_cong dict_map_iff ext not_Some_eq)

lemma ht_entries_set_bucket:
  "i < length (ht_table ht) \<Longrightarrow>
   ht_entries (set_bucket ht i c) + mset (ht_table ht ! i) = ht_entries ht + mset c"
  by (simp add: ht_entries_def set_bucket_def mset_concat_update)

lemma set_bucket_simps [simp]:
  "ht_size (set_bucket ht i c) = ht_size ht" "ht_sizemask (set_bucket ht i c) = ht_sizemask ht"
  "ht_used (set_bucket ht i c) = ht_used ht" "length (ht_table (set_bucket ht i c)) = length (ht_table ht)"
  "ht_table (set_bucket ht i c) = (ht_table ht)[i := c]"
  by (simp_all add: set_bucket_def)

lemma set_bucket_used [simp]: "set_bucket (ht\<lparr>ht_used := n\<rparr>) i c = (set_bucket ht i c)\<lparr>ht_used := n\<rparr>"
  by (simp add: set_bucket_def)

lemma ht_entries_used [simp]: "ht_entries (ht\<lparr>ht_used := n\<rparr>) = ht_entries ht"
  by (simp add: ht_entries_def)

lemma ht_entries_reset [simp]: "ht_entries dictReset = {#}"
  by (simp add: ht_entries_def dictReset_def)

lemma placed_set_bucket:
  assumes "placed cx ht" "\<forall>e\<in>set c. hashFunction cx (fst e) AND ht_sizemask ht = i"
  shows "placed cx ((set_bucket ht i c)\<lparr>ht_used := n\<rparr>)"
  unfolding placed_def
proof (intro allI impI ballI)
  fix j e
  assume "j < length (ht_table ((set_bucket ht i c)\<lparr>ht_used := n\<rparr>))"
    and "e \<in> set (ht_table ((set_bucket ht i c)\<lparr>ht_used := n\<rparr>) ! j)"
  then show "hashFunction cx (fst e) AND ht_sizemask ((set_bucket ht i c)\<lparr>ht_used := n\<rparr>) = j"
    using assms by (cases "j = i") (simp_all add: placed_def)
qed

lemma ht_alloc_placed:
  "ht_alloc cx ht \<Longrightarrow> i < length (ht_table ht) \<Longrightarrow> e \<in> set (ht_table ht ! i) \<Longrightarrow>
   hashFunction cx (fst e) AND ht_sizemask ht = i"
  unfolding ht_alloc_def placed_def by blast

lemma placed_used [simp]: "placed cx (ht\<lparr>ht_used := n\<rparr>) = placed cx ht"
  by (simp add: placed_def)

lemma ht_alloc_index: "ht_alloc cx ht \<Longrightarrow> h AND ht_sizemask ht < length (ht_table ht)"
  unfolding ht_alloc_def using and_mask_less by metis

lemma ht_alloc_bucket:
  "ht_alloc cx ht \<Longrightarrow> bucket ht (h AND ht_sizemask ht) = Some (ht_table ht ! (h AND ht_sizemask ht))"
  using ht_alloc_index by (simp add: bucket_def)

text \<open>Replacing one chain by another whose entries hash to the same bucket keeps a table well formed.\<close>

lemma ht_alloc_set_bucket:
  assumes "ht_alloc cx ht" "\<forall>e\<in>set c. hashFunction cx (fst e) AND ht_sizemask ht = i"
    "n = size (ht_entries (set_bucket ht i c))"
  shows "ht_alloc cx ((set_bucket ht i c)\<lparr>ht_used := n\<rparr>)"
  using assms placed_set_bucket [of cx ht c i n] by (auto simp: ht_alloc_def)

lemma ht_alloc_size_pos: "ht_alloc cx ht \<Longrightarrow> 0 < ht_size ht"
  by (auto simp: ht_alloc_def)

section \<open>Rehashing keeps the contents\<close>

lemma dictRehash_move_correct:
  assumes "ht_alloc cx (ht1 d)" "size (ht_entries (ht1 d)) + length es \<le> dict_cap"
    and "ht_used (ht0 d) = m + length es" "m + length es \<le> dict_cap"
  shows "\<exists>h1. dictRehash_move cx es d
       = Some (d\<lparr>ht0 := (ht0 d)\<lparr>ht_used := m\<rparr>, ht1 := h1\<rparr>) \<and>
     ht_alloc cx h1 \<and> ht_entries h1 = ht_entries (ht1 d) + mset es"
  using assms
proof (induction es arbitrary: d)
  case Nil
  then show ?case by (intro exI [of _ "ht1 d"]) simp
next
  case (Cons e es)
  let ?i = "hashFunction cx (fst e) AND ht_sizemask (ht1 d)"
  let ?c = "ht_table (ht1 d) ! ?i"
  let ?h1 = "(set_bucket (ht1 d) ?i (e # ?c))\<lparr>ht_used := u64 (ht_used (ht1 d) + 1)\<rparr>"
  let ?d = "d\<lparr>ht0 := (ht0 d)\<lparr>ht_used := u64_dec (ht_used (ht0 d))\<rparr>, ht1 := ?h1\<rparr>"
  have i: "?i < length (ht_table (ht1 d))" using Cons.prems(1) by (rule ht_alloc_index)
  have ent: "ht_entries (set_bucket (ht1 d) ?i (e # ?c)) = add_mset e (ht_entries (ht1 d))"
    using ht_entries_set_bucket [OF i, of "e # ?c"] by simp
  have "u64 (ht_used (ht1 d) + 1) = size (ht_entries (ht1 d)) + 1"
    using Cons.prems(1,2) by (simp add: ht_alloc_def u64_id dict_cap_def)
  then have al: "ht_alloc cx ?h1"
    using Cons.prems(1) i ent ht_alloc_placed [OF Cons.prems(1) i]
    by (intro ht_alloc_set_bucket) simp_all
  have dec: "u64_dec (ht_used (ht0 d)) = m + length es"
    using Cons.prems(3,4) by (subst u64_dec_Suc) (simp_all add: dict_cap_def)
  have "\<exists>h1. dictRehash_move cx es ?d = Some (?d\<lparr>ht0 := (ht0 ?d)\<lparr>ht_used := m\<rparr>, ht1 := h1\<rparr>) \<and>
     ht_alloc cx h1 \<and> ht_entries h1 = ht_entries (ht1 ?d) + mset es"
    using al Cons.prems(2,4) ent dec by (intro Cons.IH) simp_all
  then show ?case using i ent by (auto simp: Let_def bucket_def)
qed

lemma dictRehash_skip_correct:
  assumes "0 \<le> rehashidx d" "\<forall>i < nat (rehashidx d). ht_table (ht0 d) ! i = []"
    and "ht_entries (ht0 d) \<noteq> {#}" "nat (rehashidx d) \<le> length (ht_table (ht0 d))"
  shows "\<exists>r ev' out. dictRehash_skip d ev = Some (d\<lparr>rehashidx := r\<rparr>, ev', out) \<and> 0 \<le> r \<and>
     nat r < length (ht_table (ht0 d)) \<and> (\<forall>i < nat r. ht_table (ht0 d) ! i = []) \<and>
     (\<not> out \<longrightarrow> ht_table (ht0 d) ! nat r \<noteq> [])"
  using assms
proof (induction d ev rule: dictRehash_skip.induct)
  case (1 d ev)
  let ?t = "ht_table (ht0 d)" and ?r = "nat (rehashidx d)"
  note unf = dictRehash_skip.simps [of d ev]
  have lt: "?r < length ?t"
  proof (rule ccontr)
    assume "\<not> ?r < length ?t"
    then have "\<forall>c\<in>set ?t. c = []" using "1.prems"(2) by (auto simp: in_set_conv_nth)
    then show False using "1.prems"(3) by (auto simp: ht_entries_def)
  qed
  show ?case
  proof (cases "?t ! ?r = []")
    case False
    then show ?thesis using lt "1.prems"
      by (intro exI [of _ "rehashidx d"] exI [of _ ev] exI [of _ False]) (simp add: unf)
  next
    case True
    let ?d = "d\<lparr>rehashidx := rehashidx d + 1\<rparr>"
    have e: "\<forall>i < nat (rehashidx ?d). ht_table (ht0 ?d) ! i = []"
      using True "1.prems"(1,2) by (auto simp: nat_add_distrib less_Suc_eq)
    have lt': "nat (rehashidx d + 1) < length ?t"
    proof (rule ccontr)
      assume "\<not> nat (rehashidx d + 1) < length ?t"
      then have "\<forall>c\<in>set ?t. c = []" using e by (auto simp: in_set_conv_nth)
      then show False using "1.prems"(3) by (auto simp: ht_entries_def)
    qed
    show ?thesis
    proof (cases "ev - 1 = 0")
      case True': True
      then have "dictRehash_skip d ev = Some (?d, 0, True)"
        unfolding unf Let_def using lt True "1.prems"(1) by simp
      then show ?thesis using e lt' "1.prems"(1)
        by (intro exI [of _ "rehashidx d + 1"] exI [of _ "0::int"] exI [of _ True]) simp
    next
      case False
      have "\<exists>r ev' out. dictRehash_skip ?d (ev - 1) = Some (?d\<lparr>rehashidx := r\<rparr>, ev', out) \<and> 0 \<le> r \<and>
       nat r < length (ht_table (ht0 ?d)) \<and> (\<forall>i < nat r. ht_table (ht0 ?d) ! i = []) \<and>
       (\<not> out \<longrightarrow> ht_table (ht0 ?d) ! nat r \<noteq> [])"
        by (rule "1.IH" [OF _ True refl refl False]) (use "1.prems"(1,3) lt lt' e in auto)
      moreover have "dictRehash_skip d ev = dictRehash_skip ?d (ev - 1)"
        using lt True "1.prems"(1) False by (simp add: unf)
      ultimately show ?thesis by auto
    qed
  qed
qed

lemma dict_inv_rehashing:
  assumes "dict_inv cx d" "dictIsRehashing d"
  shows "ht_alloc cx (ht0 d)" "ht_alloc cx (ht1 d)" "0 \<le> rehashidx d"
    "rehashidx d \<le> int (ht_size (ht0 d))" "\<forall>i < nat (rehashidx d). ht_table (ht0 d) ! i = []"
  using assms by (auto simp: dict_inv_def)

lemma dict_inv_common:
  assumes "dict_inv cx d"
  shows "size (dict_entries d) \<le> dict_cap" "distinct (map fst (dict_list d))"
  using assms by (auto simp: dict_inv_def)

lemma dict_inv_rehashingI:
  assumes "dict_inv cx d" "ht_alloc cx (ht0 d')" "ht_alloc cx (ht1 d')" "0 \<le> rehashidx d'"
    "rehashidx d' \<le> int (ht_size (ht0 d'))" "\<forall>i < nat (rehashidx d'). ht_table (ht0 d') ! i = []"
    "dict_entries d' = dict_entries d"
  shows "dict_inv cx d'"
  using assms distinct_keys_cong [OF assms(7)] by (simp add: dict_inv_def dictIsRehashing_def)

lemma dictRehash_finish_correct:
  assumes "dict_inv cx d" "dictIsRehashing d"
  shows "\<exists>d' b. dictRehash_finish d = (d', b) \<and> dict_inv cx d' \<and> dict_entries d' = dict_entries d \<and>
     iterators d' = iterators d \<and> b = dictIsRehashing d' \<and> ht_alloc cx (ht0 d')"
proof (cases "ht_used (ht0 d) = 0")
  case True
  then have e: "ht_entries (ht0 d) = {#}"
    using dict_inv_rehashing(1) [OF assms] by (simp add: ht_alloc_def)
  let ?d = "d\<lparr>ht0 := ht1 d, ht1 := dictReset, rehashidx := -1\<rparr>"
  have ent: "dict_entries ?d = dict_entries d" using e by (simp add: dict_entries_def)
  have "dict_inv cx ?d"
    using dict_inv_rehashing(2) [OF assms] dict_inv_common [OF assms(1)] ent distinct_keys_cong [OF ent]
    by (simp add: dict_inv_def dictIsRehashing_def)
  then show ?thesis using True ent dict_inv_rehashing(2) [OF assms]
    by (simp add: dictRehash_finish_def dictIsRehashing_def)
next
  case False
  then show ?thesis using assms dict_inv_rehashing(1) [OF assms] by (simp add: dictRehash_finish_def)
qed

lemma dictRehash_bucket_correct:
  assumes i: "dict_inv cx d" and r: "dictIsRehashing d" and lt: "nat (rehashidx d) < length (ht_table (ht0 d))"
  shows "\<exists>d1. dictRehash_move cx (ht_table (ht0 d) ! nat (rehashidx d)) d = Some d1 \<and>
     (let d2 = d1\<lparr>ht0 := set_bucket (ht0 d1) (nat (rehashidx d1)) [], rehashidx := rehashidx d1 + 1\<rparr>
      in dict_inv cx d2 \<and> dictIsRehashing d2 \<and> dict_entries d2 = dict_entries d \<and> iterators d2 = iterators d)"
proof -
  note inv = dict_inv_rehashing [OF i r]
  let ?i = "nat (rehashidx d)"
  let ?c = "ht_table (ht0 d) ! ?i"
  define m where "m = size (ht_entries (ht0 d)) - length ?c"
  have sub: "mset ?c \<subseteq># ht_entries (ht0 d)"
    using mset_concat_nth [OF lt] by (simp add: ht_entries_def)
  then have le: "length ?c \<le> size (ht_entries (ht0 d))" using size_mset_mono by fastforce
  have cap: "size (ht_entries (ht0 d)) + size (ht_entries (ht1 d)) \<le> dict_cap"
    using dict_inv_common(1) [OF i] by (simp add: dict_entries_def)
  obtain h1 where mv: "dictRehash_move cx ?c d = Some (d\<lparr>ht0 := (ht0 d)\<lparr>ht_used := m\<rparr>, ht1 := h1\<rparr>)"
    and h1: "ht_alloc cx h1" "ht_entries h1 = ht_entries (ht1 d) + mset ?c"
    using dictRehash_move_correct [OF inv(2), of ?c m] inv(1) le cap by (auto simp: ht_alloc_def m_def)
  let ?d1 = "d\<lparr>ht0 := (ht0 d)\<lparr>ht_used := m\<rparr>, ht1 := h1\<rparr>"
  let ?h0 = "(set_bucket (ht0 d) ?i [])\<lparr>ht_used := m\<rparr>"
  let ?d2 = "?d1\<lparr>ht0 := set_bucket (ht0 ?d1) (nat (rehashidx ?d1)) [], rehashidx := rehashidx ?d1 + 1\<rparr>"
  have h0: "ht0 ?d2 = ?h0" by (simp add: set_bucket_def)
  have e0: "ht_entries ?h0 + mset ?c = ht_entries (ht0 d)"
    using ht_entries_set_bucket [OF lt, of "[]"] by simp
  then have ent: "dict_entries ?d2 = dict_entries d" using h1 h0 by (simp add: dict_entries_def ac_simps)
  have "size (ht_entries ?h0) + length ?c = size (ht_entries (ht0 d))"
    using arg_cong [OF e0, of size] by simp
  then have al: "ht_alloc cx ?h0" using inv(1) by (intro ht_alloc_set_bucket) (simp_all add: m_def)
  have empt: "\<forall>i < nat (rehashidx ?d2). ht_table (ht0 ?d2) ! i = []"
    using inv(3,5) lt by (auto simp: set_bucket_def nat_add_distrib less_Suc_eq nth_list_update)
  have sz: "length (ht_table (ht0 d)) = ht_size (ht0 d)" using inv(1) by (simp add: ht_alloc_def)
  have "dict_inv cx ?d2"
    by (rule dict_inv_rehashingI [OF i _ _ _ _ empt ent]) (use al h0 h1 inv(3) lt sz in simp_all)
  moreover have "dictIsRehashing ?d2" using inv(3) by (simp add: dictIsRehashing_def)
  ultimately show ?thesis using mv ent by (simp add: Let_def)
qed

lemma dictRehash_loop_correct:
  assumes "dict_inv cx d" "dictIsRehashing d"
  shows "\<exists>d' b. dictRehash_loop cx n ev d = Some (d', b) \<and> dict_inv cx d' \<and>
     dict_entries d' = dict_entries d \<and> iterators d' = iterators d \<and> b = dictIsRehashing d' \<and>
     ht_alloc cx (ht0 d')"
  using assms
proof (induction n arbitrary: d ev)
  case 0
  then show ?case using dictRehash_finish_correct [of cx d] by auto
next
  case (Suc n)
  note inv = dict_inv_rehashing [OF Suc.prems]
  show ?case
  proof (cases "ht_used (ht0 d) = 0")
    case True
    then show ?thesis using dictRehash_finish_correct [OF Suc.prems] by auto
  next
    case False
    have len: "length (ht_table (ht0 d)) = ht_size (ht0 d)" using inv(1) by (simp add: ht_alloc_def)
    have ne: "ht_entries (ht0 d) \<noteq> {#}" using False inv(1) by (auto simp: ht_alloc_def)
    obtain r ev' out where skip: "dictRehash_skip d ev = Some (d\<lparr>rehashidx := r\<rparr>, ev', out)"
      and r: "0 \<le> r" "nat r < length (ht_table (ht0 d))" "\<forall>i < nat r. ht_table (ht0 d) ! i = []"
      using dictRehash_skip_correct [OF inv(3,5) ne, of ev] inv(4) len by (auto simp: nat_le_iff)
    have asrt: "int (ht_size (ht0 d)) > rehashidx d"
    proof (rule ccontr)
      assume "\<not> int (ht_size (ht0 d)) > rehashidx d"
      then have "\<forall>c\<in>set (ht_table (ht0 d)). c = []" using inv(5) len by (auto simp: in_set_conv_nth)
      then show False using ne by (auto simp: ht_entries_def)
    qed
    let ?d = "d\<lparr>rehashidx := r\<rparr>"
    have ent: "dict_entries ?d = dict_entries d" by (simp add: dict_entries_def)
    have i: "dict_inv cx ?d"
      by (rule dict_inv_rehashingI [OF Suc.prems(1) _ _ _ _ _ ent]) (use inv r len in simp_all)
    have re: "dictIsRehashing ?d" using r by (simp add: dictIsRehashing_def)
    show ?thesis
    proof (cases out)
      case True
      then show ?thesis using False asrt skip i ent re inv(1) by simp
    next
      case nout: False
      obtain d1 where d1: "dictRehash_move cx (ht_table (ht0 d) ! nat r) ?d = Some d1"
        "let d2 = d1\<lparr>ht0 := set_bucket (ht0 d1) (nat (rehashidx d1)) [], rehashidx := rehashidx d1 + 1\<rparr>
         in dict_inv cx d2 \<and> dictIsRehashing d2 \<and> dict_entries d2 = dict_entries ?d \<and> iterators d2 = iterators ?d"
        using dictRehash_bucket_correct [OF i re] r(2) by auto
      define d2 where "d2 = d1\<lparr>ht0 := set_bucket (ht0 d1) (nat (rehashidx d1)) [], rehashidx := rehashidx d1 + 1\<rparr>"
      have d2: "dict_inv cx d2" "dictIsRehashing d2" "dict_entries d2 = dict_entries ?d" "iterators d2 = iterators ?d"
        using d1(2) by (simp_all add: d2_def Let_def)
      have "dictRehash_loop cx (Suc n) ev d = dictRehash_loop cx n ev' d2"
        using False asrt skip nout d1(1) r(2) by (simp add: bucket_def d2_def)
      then show ?thesis using Suc.IH [OF d2(1,2), of ev'] d2(3,4) ent by auto
    qed
  qed
qed

lemma dictRehash_correct:
  assumes "dict_inv cx d"
  shows "\<exists>d' b. dictRehash cx d n = Some (d', b) \<and> dict_inv cx d' \<and> dict_entries d' = dict_entries d \<and>
     iterators d' = iterators d \<and> (\<not> g_IsForkedProcess cx \<longrightarrow> b = dictIsRehashing d')"
  using assms dictRehash_loop_correct [of cx d n "int n * 10"] by (auto simp: dictRehash_def)

text \<open>The step every lookup and update starts with: it never changes the contents.\<close>

lemma dictRehashStep_correct:
  assumes "dict_inv cx d" "ht_alloc cx (ht0 d)"
  shows "\<exists>d'. (if dictIsRehashing d then dictRehashStep cx d else Some d) = Some d' \<and>
     dict_inv cx d' \<and> ht_alloc cx (ht0 d') \<and> dict_entries d' = dict_entries d \<and> iterators d' = iterators d"
  using assms dictRehash_loop_correct [of cx d 1 "int 1 * 10"]
  by (auto simp: dictRehashStep_def dictRehash_def)

lemma dict_inv_alloc: "dict_inv cx d \<Longrightarrow> ht_size (ht0 d) \<noteq> 0 \<Longrightarrow> ht_alloc cx (ht0 d)"
  by (auto simp: dict_inv_def dictReset_def)

lemma dict_inv_empty: "dict_inv cx d \<Longrightarrow> ht_size (ht0 d) = 0 \<Longrightarrow> dict_entries d = {#} \<and> \<not> dictIsRehashing d"
  by (auto simp: dict_inv_def dict_entries_def dest!: ht_alloc_size_pos split: if_splits)

section \<open>Chains\<close>

lemma chain_find_None: "ctx_ok cx \<Longrightarrow> chain_find cx k c = None \<longleftrightarrow> k \<notin> fst ` set c"
  by (induction c) (auto simp: ctx_ok_def)

lemma chain_find_Some:
  "ctx_ok cx \<Longrightarrow> chain_find cx k c = Some p \<Longrightarrow> p < length c \<and> fst (c ! p) = k"
  by (induction c arbitrary: p) (auto simp: ctx_ok_def split: if_splits)

lemma mset_chain_remove: "p < length c \<Longrightarrow> add_mset (c ! p) (mset (chain_remove p c)) = mset c"
  unfolding chain_remove_def
  by (subst (4) id_take_nth_drop [of p c]) simp_all

lemma mset_chain_update: "p < length c \<Longrightarrow> add_mset (c ! p) (mset (c[p := e])) = add_mset e (mset c)"
  by (simp add: mset_update)

text \<open>A key is in a table exactly when it is in the chain its hash selects.\<close>

lemma key_in_bucket:
  assumes "ht_alloc cx ht"
  shows "k \<in># image_mset fst (ht_entries ht) \<longleftrightarrow> k \<in> fst ` set (ht_table ht ! (hashFunction cx k AND ht_sizemask ht))"
    (is "_ \<longleftrightarrow> k \<in> fst ` set (ht_table ht ! ?i)")
proof
  assume "k \<in># image_mset fst (ht_entries ht)"
  then obtain j e where "j < length (ht_table ht)" "e \<in> set (ht_table ht ! j)" "fst e = k"
    by (auto simp: ht_entries_def in_set_conv_nth [of _ "ht_table ht"])
  moreover from this have "hashFunction cx (fst e) AND ht_sizemask ht = j"
    using ht_alloc_placed [OF assms] by blast
  ultimately show "k \<in> fst ` set (ht_table ht ! ?i)" by force
next
  assume "k \<in> fst ` set (ht_table ht ! ?i)"
  then show "k \<in># image_mset fst (ht_entries ht)"
    using nth_mem [OF ht_alloc_index [OF assms, of "hashFunction cx k"]]
    by (auto simp: ht_entries_def intro!: image_eqI)
qed

section \<open>Updating one chain\<close>

definition keys_of :: "('k \<times> 'v) multiset \<Rightarrow> 'k multiset" where
  "keys_of M = image_mset fst M"

lemma keys_of_simps [simp]:
  "keys_of {#} = {#}" "keys_of (add_mset e M) = add_mset (fst e) (keys_of M)"
  "keys_of (M + N) = keys_of M + keys_of N" "keys_of (mset xs) = mset (map fst xs)"
  by (simp_all add: keys_of_def)

lemma distinct_keys_iff:
  "distinct (map fst (dict_list d)) \<longleftrightarrow> (\<forall>k. count (keys_of (dict_entries d)) k \<le> 1)"
proof -
  have "keys_of (dict_entries d) = mset (map fst (dict_list d))"
    by (simp add: keys_of_def flip: mset_dict_list)
  then show ?thesis
    by (simp only: distinct_count_atmost_1)
       (metis count_eq_zero_iff count_greater_eq_one_iff le_antisym le_zero_eq less_one linorder_not_le nle_le set_mset_mset zero_le_one)
qed

lemma dict_map_None_iff:
  "dict_map d k = None \<longleftrightarrow> k \<notin># keys_of (dict_entries d)"
  by (simp add: dict_map_def map_of_eq_None_iff keys_of_def flip: mset_dict_list)

lemma ht_get_put [simp]: "ht_get (ht_put d t h) t = h"
  by (simp add: ht_get_def ht_put_def)

lemma ht_put_entries:
  "dict_entries (ht_put d t h) + ht_entries (ht_get d t) = dict_entries d + ht_entries h"
  by (simp add: ht_put_def ht_get_def dict_entries_def ac_simps)

lemma update_chain:
  assumes i: "dict_inv cx d" and al: "ht_alloc cx (ht_get d t)" and t: "t = 0 \<or> dictIsRehashing d"
    and b: "bucket (ht_get d t) idx = Some c"
    and h: "\<forall>e\<in>set c'. hashFunction cx (fst e) AND ht_sizemask (ht_get d t) = idx"
    and ne: "c \<noteq> [] \<or> t \<noteq> 0 \<or> \<not> dictIsRehashing d"
    and n: "n + length c = ht_used (ht_get d t) + length c'"
  defines "d' \<equiv> ht_put d t ((set_bucket (ht_get d t) idx c')\<lparr>ht_used := n\<rparr>)"
  assumes cap: "size (dict_entries d') \<le> dict_cap" and dist: "\<forall>k. count (keys_of (dict_entries d')) k \<le> 1"
  shows "dict_inv cx d'" "dict_entries d' + mset c = dict_entries d + mset c'"
    "ht_alloc cx (ht0 d) \<Longrightarrow> ht_alloc cx (ht0 d')"
proof -
  let ?h = "(set_bucket (ht_get d t) idx c')\<lparr>ht_used := n\<rparr>"
  have lt: "idx < length (ht_table (ht_get d t))" and c: "c = ht_table (ht_get d t) ! idx"
    using b by (auto simp: bucket_def split: if_splits)
  have e: "ht_entries ?h + mset c = ht_entries (ht_get d t) + mset c'"
    using ht_entries_set_bucket [OF lt, of c'] c by simp
  show ent: "dict_entries d' + mset c = dict_entries d + mset c'"
  proof -
    have "dict_entries d' + ht_entries (ht_get d t) + mset c
        = dict_entries d + (ht_entries ?h + mset c)"
      using ht_put_entries [of d t ?h] by (simp add: d'_def ac_simps)
    then show ?thesis unfolding e by (simp add: ac_simps)
  qed
  have "size (ht_entries ?h) + length c = ht_used (ht_get d t) + length c'"
    using arg_cong [OF e, of size] al by (simp add: ht_alloc_def)
  then have al': "ht_alloc cx ?h"
    using n al h by (intro ht_alloc_set_bucket) simp_all
  show "ht_alloc cx (ht0 d) \<Longrightarrow> ht_alloc cx (ht0 d')" using al' by (cases "t = 0") (simp_all add: d'_def ht_put_def)
  have dist': "distinct (map fst (dict_list d'))" using dist by (simp add: distinct_keys_iff)
  show "dict_inv cx d'"
  proof (cases "dictIsRehashing d")
    case False
    then have "t = 0" using t by simp
    then show ?thesis using i al' cap dist' False
      by (auto simp: dict_inv_def d'_def ht_put_def dictIsRehashing_def)
  next
    case True
    note inv = dict_inv_rehashing [OF i True]
    have "ht_table (ht0 d') ! j = []" if "j < nat (rehashidx d)" for j
    proof (cases "t = 0")
      case False
      then show ?thesis using inv(5) that by (simp add: d'_def ht_put_def)
    next
      case True': True
      then have "c \<noteq> []" "c = ht_table (ht0 d) ! idx" using ne True c by (simp_all add: ht_get_def)
      then have "j \<noteq> idx" using inv(5) that by auto
      then show ?thesis using inv(5) that True' by (simp add: d'_def ht_put_def ht_get_def)
    qed
    then show ?thesis using inv al' cap dist' True
      by (auto simp: dict_inv_def d'_def ht_put_def ht_get_def dictIsRehashing_def)
  qed
qed

section \<open>Insertion, lookup and deletion against the contents\<close>

lemma dictNextPower_loop_correct:
  assumes "i = 2 ^ m" "m \<le> 31" "sz \<le> 2 ^ 31"
  shows "\<exists>n \<in> {m..31}. dictNextPower_loop i sz = 2 ^ n \<and> sz \<le> 2 ^ n"
  using assms
proof (induction i sz arbitrary: m rule: dictNextPower_loop.induct)
  case (1 i sz)
  show ?case
  proof (cases "i \<ge> sz")
    case True
    then have "dictNextPower_loop i sz = 2 ^ m" unfolding dictNextPower_loop.simps [of i sz] using "1.prems" by simp
    then show ?thesis using "1.prems" True by (intro bexI [of _ m]) auto
  next
    case False
    then have "m \<noteq> 31" using "1.prems" by auto
    then have "\<exists>n\<in>{Suc m..31}. dictNextPower_loop (i * 2) sz = 2 ^ n \<and> sz \<le> 2 ^ n"
      using "1.prems" False by (intro "1.IH") auto
    moreover have "dictNextPower_loop i sz = dictNextPower_loop (i * 2) sz"
      unfolding dictNextPower_loop.simps [of i sz] using False "1.prems" by simp
    ultimately show ?thesis by auto
  qed
qed

lemma dictNextPower_correct:
  "sz \<le> 2 ^ 31 \<Longrightarrow> \<exists>n \<in> {2..31}. dictNextPower sz = 2 ^ n \<and> sz \<le> 2 ^ n"
  using dictNextPower_loop_correct [of 4 2 sz]
  by (auto simp: dictNextPower_def LONG_MAX_def DICT_HT_INITIAL_SIZE_def)

lemma ht_alloc_new:
  "n \<in> {2..31} \<Longrightarrow> ht_alloc cx \<lparr>ht_table = replicate (2 ^ n) [], ht_size = 2 ^ n,
     ht_sizemask = 2 ^ n - 1, ht_used = 0\<rparr>"
  by (auto simp: ht_alloc_def ht_entries_def placed_def)

lemma dictExpand_correct:
  assumes i: "dict_inv cx d" and sz: "sz \<le> 2 ^ 31" and e: "dictExpand d sz = (d', ok)"
  shows "dict_inv cx d'" "dict_entries d' = dict_entries d" "ok \<Longrightarrow> ht_alloc cx (ht0 d')"
    "iterators d' = iterators d"
proof -
  obtain n where n: "n \<in> {2..31}" "dictNextPower sz = 2 ^ n" using dictNextPower_correct [OF sz] by auto
  let ?n = "\<lparr>ht_table = replicate (2 ^ n) [], ht_size = 2 ^ n, ht_sizemask = 2 ^ n - 1, ht_used = 0\<rparr>
    :: ('a, 'b) dictht"
  have al: "ht_alloc cx ?n" using n(1) by (rule ht_alloc_new)
  have e0: "ht_entries ?n = {#}" by (simp add: ht_entries_def)
  have len0: "ht_alloc cx (ht0 d) \<Longrightarrow> ht_table (ht0 d) \<noteq> []" by (auto simp: ht_alloc_def)
  have cs: "d' = d \<and> \<not> ok \<or> \<not> dictIsRehashing d \<and> ht_table (ht0 d) = [] \<and> d' = d\<lparr>ht0 := ?n\<rparr>
    \<or> \<not> dictIsRehashing d \<and> ht_table (ht0 d) \<noteq> [] \<and> d' = d\<lparr>ht1 := ?n, rehashidx := 0\<rparr>"
    using e unfolding dictExpand_def n(2) Let_def by (simp split: if_splits)
  have "dict_inv cx d' \<and> dict_entries d' = dict_entries d \<and> (ok \<longrightarrow> ht_alloc cx (ht0 d')) \<and> iterators d' = iterators d"
    using cs
  proof (elim disjE)
    assume "d' = d \<and> \<not> ok"
    then show ?thesis using i by simp
  next
    assume 2: "\<not> dictIsRehashing d \<and> ht_table (ht0 d) = [] \<and> d' = d\<lparr>ht0 := ?n\<rparr>"
    then have "ht0 d = dictReset" using i len0 by (auto simp: dict_inv_def)
    moreover have "ht1 d = dictReset" using i 2 by (simp add: dict_inv_def)
    ultimately have "dict_list d' = []" "dict_entries d' = {#}" "dict_entries d = {#}"
      using 2 by (simp_all add: dict_list_def dict_entries_def dictReset_def ht_entries_def)
    then show ?thesis using 2 al \<open>ht1 d = dictReset\<close>
      by (simp add: dict_inv_def dictIsRehashing_def)
  next
    assume 3: "\<not> dictIsRehashing d \<and> ht_table (ht0 d) \<noteq> [] \<and> d' = d\<lparr>ht1 := ?n, rehashidx := 0\<rparr>"
    then have h: "ht_alloc cx (ht0 d)" "ht1 d = dictReset"
      using i by (auto simp: dict_inv_def dictReset_def)
    then have "dict_entries d' = dict_entries d" using 3 e0 by (simp add: dict_entries_def)
    moreover from this have "distinct (map fst (dict_list d'))"
      using distinct_keys_cong i by (auto simp: dict_inv_def)
    ultimately show ?thesis using i 3 al h by (simp add: dict_inv_def dictIsRehashing_def)
  qed
  then show "dict_inv cx d'" "dict_entries d' = dict_entries d" "ok \<Longrightarrow> ht_alloc cx (ht0 d')"
    "iterators d' = iterators d" by auto
qed

lemma dictExpandIfNeeded_correct:
  assumes i: "dict_inv cx d" and c: "size (dict_entries d) < dict_cap"
  shows "\<exists>d'. dictExpandIfNeeded cx d = (d', True) \<and> dict_inv cx d' \<and> ht_alloc cx (ht0 d') \<and>
    dict_entries d' = dict_entries d \<and> iterators d' = iterators d"
proof (cases "dictIsRehashing d \<or> (ht_size (ht0 d) \<noteq> 0 \<and> \<not> (ht_used (ht0 d) \<ge> ht_size (ht0 d) \<and>
      (dict_can_resize cx \<or> ht_used (ht0 d) div ht_size (ht0 d) > dict_force_resize_ratio)))")
  case True
  then have "ht_alloc cx (ht0 d)" using i dict_inv_alloc dict_inv_rehashing by blast
  then show ?thesis using True i by (auto simp: dictExpandIfNeeded_def)
next
  case False
  define sz where "sz = (if ht_size (ht0 d) = 0 then 4 else ht_used (ht0 d) * 2)"
  have r: "\<not> dictIsRehashing d" using False by simp
  have used: "ht_used (ht0 d) < 2 ^ 30"
  proof (cases "ht_size (ht0 d) = 0")
    case True
    then show ?thesis using i by (auto simp: dict_inv_def dictReset_def dest!: ht_alloc_size_pos)
  next
    case nz: False
    then have "ht_used (ht0 d) = size (ht_entries (ht0 d))"
      using dict_inv_alloc [OF i] by (simp add: ht_alloc_def)
    then show ?thesis using c by (simp add: dict_entries_def dict_cap_def)
  qed
  have sz31: "sz \<le> 2 ^ 31" using used by (simp add: sz_def)
  have eq: "dictExpandIfNeeded cx d = dictExpand d sz"
    using False used by (auto simp: dictExpandIfNeeded_def sz_def DICT_HT_INITIAL_SIZE_def u64_id)
  have "ht_size (ht0 d) < sz" using False by (auto simp: sz_def)
  moreover obtain n where "dictNextPower sz = 2 ^ n" "sz \<le> 2 ^ n" using dictNextPower_correct [OF sz31] by auto
  moreover have "ht_used (ht0 d) \<le> sz"
    using i by (auto simp: sz_def dict_inv_def dictReset_def dest!: ht_alloc_size_pos)
  ultimately have "snd (dictExpand d sz)" using r by (auto simp: dictExpand_def Let_def)
  then obtain d' where "dictExpand d sz = (d', True)" by (metis prod.collapse)
  then show ?thesis using dictExpand_correct [OF i sz31] eq by auto
qed

lemma key_in_dict:
  assumes "dict_inv cx d" "ht_alloc cx (ht0 d)"
  shows "k \<in># keys_of (dict_entries d) \<longleftrightarrow>
    k \<in> fst ` set (ht_table (ht0 d) ! (hashFunction cx k AND ht_sizemask (ht0 d))) \<or>
    dictIsRehashing d \<and> k \<in> fst ` set (ht_table (ht1 d) ! (hashFunction cx k AND ht_sizemask (ht1 d)))"
proof (cases "dictIsRehashing d")
  case True
  then show ?thesis using key_in_bucket [of cx "ht0 d" k] key_in_bucket [of cx "ht1 d" k] assms
      dict_inv_rehashing(2) [OF assms(1) True]
    by (simp add: dict_entries_def keys_of_def)
next
  case False
  then have "ht1 d = dictReset" using assms(1) by (simp add: dict_inv_def)
  then show ?thesis using key_in_bucket [of cx "ht0 d" k] assms False
    by (simp add: dict_entries_def keys_of_def)
qed

text \<open>The index that an absent key gets, in the table new entries go to.\<close>

definition slot :: "'k dict_ctx \<Rightarrow> ('k, 'v) dict \<Rightarrow> 'k \<Rightarrow> nat" where
  "slot cx d k = hashFunction cx k AND ht_sizemask (if dictIsRehashing d then ht1 d else ht0 d)"

lemma int_of_u32_index: "ht_alloc cx ht \<Longrightarrow> int_of_u32 (h AND ht_sizemask ht) = int (h AND ht_sizemask ht)"
proof (rule int_of_u32_id)
  assume a: "ht_alloc cx ht"
  then obtain n where "n \<le> 31" "length (ht_table ht) = 2 ^ n" by (auto simp: ht_alloc_def)
  moreover from this have "(2::nat) ^ n \<le> 2 ^ 31"
    using power_increasing [of n 31 "2::nat"] by simp
  ultimately show "h AND ht_sizemask ht < 2 ^ 31" using ht_alloc_index [OF a, of h] by linarith
qed

lemma dictKeyIndex_correct:
  assumes cx: "ctx_ok cx" and i: "dict_inv cx d" and c: "size (dict_entries d) < dict_cap"
  shows "\<exists>d'. dictKeyIndex cx d k = Some (d', if k \<in># keys_of (dict_entries d) then -1 else int (slot cx d' k)) \<and>
    dict_inv cx d' \<and> ht_alloc cx (ht0 d') \<and> dict_entries d' = dict_entries d \<and> iterators d' = iterators d"
proof -
  obtain d' where d': "dictExpandIfNeeded cx d = (d', True)" "dict_inv cx d'" "ht_alloc cx (ht0 d')"
    "dict_entries d' = dict_entries d" "iterators d' = iterators d"
    using dictExpandIfNeeded_correct [OF i c] by blast
  note k = key_in_dict [OF d'(2,3), of k]
  show ?thesis
  proof (cases "dictIsRehashing d'")
    case True
    then show ?thesis using d' k dict_inv_rehashing(2) [OF d'(2) True]
      by (auto simp: dictKeyIndex_def Let_def ht_alloc_bucket slot_def int_of_u32_index
          chain_find_None [OF cx] dest!: chain_find_Some [OF cx])
  next
    case False
    then show ?thesis using d' k
      by (auto simp: dictKeyIndex_def Let_def ht_alloc_bucket slot_def int_of_u32_index
          chain_find_None [OF cx])
  qed
qed

lemma slot_bucket:
  assumes "dict_inv cx d" "ht_alloc cx (ht0 d)"
  defines "t \<equiv> if dictIsRehashing d then 1 else 0"
  shows "ht_alloc cx (ht_get d t)" "slot cx d k = hashFunction cx k AND ht_sizemask (ht_get d t)"
  using assms dict_inv_rehashing(2) [of cx d] by (auto simp: ht_get_def slot_def)

lemma dictAddRaw_correct:
  assumes cx: "ctx_ok cx" and i: "dict_inv cx d" and c: "size (dict_entries d) < dict_cap"
  shows "\<exists>d' loc. dictAddRaw cx junk d k = Some (d', loc) \<and> dict_inv cx d' \<and> ht_alloc cx (ht0 d') \<and>
    iterators d' = iterators d \<and>
    (if k \<in># keys_of (dict_entries d) then loc = None \<and> dict_entries d' = dict_entries d
     else dict_entries d' = add_mset (k, junk) (dict_entries d) \<and>
          (\<exists>t idx ch. loc = Some (t, idx) \<and> (t = 0 \<or> dictIsRehashing d') \<and> ht_alloc cx (ht_get d' t) \<and>
             bucket (ht_get d' t) idx = Some ((k, junk) # ch)))"
proof -
  have "\<exists>d0. (if dictIsRehashing d then dictRehashStep cx d else Some d) = Some d0 \<and>
     dict_inv cx d0 \<and> dict_entries d0 = dict_entries d \<and> iterators d0 = iterators d"
    using dictRehashStep_correct [OF i] dict_inv_rehashing(1) [OF i] i by (cases "dictIsRehashing d") auto
  then obtain d0 where d0: "(if dictIsRehashing d then dictRehashStep cx d else Some d) = Some d0"
    "dict_inv cx d0" "dict_entries d0 = dict_entries d" "iterators d0 = iterators d" by blast
  obtain d1 where d1: "dictKeyIndex cx d0 k = Some (d1, if k \<in># keys_of (dict_entries d0) then -1 else int (slot cx d1 k))"
    "dict_inv cx d1" "ht_alloc cx (ht0 d1)" "dict_entries d1 = dict_entries d0" "iterators d1 = iterators d0"
    using dictKeyIndex_correct [OF cx d0(2), of k] c d0(3) by auto
  show ?thesis
  proof (cases "k \<in># keys_of (dict_entries d)")
    case True
    then show ?thesis using d0 d1 by (simp add: dictAddRaw_def)
  next
    case False
    define t :: nat where "t = (if dictIsRehashing d1 then 1 else 0)"
    define idx where "idx = slot cx d1 k"
    have al: "ht_alloc cx (ht_get d1 t)" and idx: "idx = hashFunction cx k AND ht_sizemask (ht_get d1 t)"
      using slot_bucket [OF d1(2,3)] by (simp_all add: t_def idx_def)
    define ch where "ch = ht_table (ht_get d1 t) ! idx"
    have lt: "idx < length (ht_table (ht_get d1 t))" using ht_alloc_index [OF al] idx by simp
    have b: "bucket (ht_get d1 t) idx = Some ch" using lt by (simp add: bucket_def ch_def)
    let ?h = "(set_bucket (ht_get d1 t) idx ((k, junk) # ch))\<lparr>ht_used := ht_used (ht_get d1 t) + 1\<rparr>"
    have used: "u64 (ht_used (ht_get d1 t) + 1) = ht_used (ht_get d1 t) + 1"
    proof (rule u64_id)
      have "size (ht_entries (ht_get d1 t)) \<le> size (dict_entries d1)"
        by (simp add: ht_get_def dict_entries_def)
      then show "ht_used (ht_get d1 t) + 1 < 2 ^ 64"
        using al d1(4) d0(3) c by (simp add: ht_alloc_def dict_cap_def)
    qed
    let ?d = "ht_put d1 t ?h"
    have "ht_entries ?h = add_mset (k, junk) (ht_entries (ht_get d1 t))"
      using ht_entries_set_bucket [OF lt, of "(k, junk) # ch"] by (simp add: ch_def)
    then have ent: "dict_entries ?d = add_mset (k, junk) (dict_entries d1)"
      using ht_put_entries [of d1 t ?h] by simp
    have cnt: "\<forall>j. count (keys_of (dict_entries ?d)) j \<le> 1"
      using ent False d1(4) d0(3) dict_inv_common(2) [OF d1(2)]
      by (auto simp: distinct_keys_iff not_in_iff)
    have sz: "size (dict_entries ?d) \<le> dict_cap" using ent d1(4) d0(3) c by simp
    have hs: "\<forall>e\<in>set ((k, junk) # ch). hashFunction cx (fst e) AND ht_sizemask (ht_get d1 t) = idx"
      using idx ht_alloc_placed [OF al lt] by (auto simp: ch_def)
    have inv: "dict_inv cx ?d" and al0: "ht_alloc cx (ht0 ?d)"
      using update_chain [OF d1(2) al _ b hs _ _ sz cnt] d1(3) by (auto simp: t_def)
    have "ht_alloc cx ?h" using update_chain(3) inv al0 dict_inv_rehashing(2) [OF inv]
      by (cases "dictIsRehashing d1") (auto simp: t_def ht_put_def dictIsRehashing_def)
    moreover have "bucket ?h idx = Some ((k, junk) # ch)" using lt by (simp add: bucket_def)
    moreover have "dictIsRehashing ?d = dictIsRehashing d1" "iterators ?d = iterators d1"
      by (simp_all add: ht_put_def dictIsRehashing_def)
    moreover have "dictAddRaw cx junk d k = Some (?d, Some (t, idx))"
      using False d0 d1(1) b used
      by (cases "dictIsRehashing d1") (simp_all add: dictAddRaw_def t_def ht_get_def ht_put_def idx_def)
    ultimately show ?thesis using False inv al0 ent d1(4,5) d0(3,4)
      by (intro exI [of _ ?d] exI [of _ "Some (t, idx)"]) (auto simp: t_def)
  qed
qed

lemma mset_cancel_mid:
  assumes "H' + C = H + C'" "D' + H = D + (H' :: 'a multiset)"
  shows "D' + C = D + C'"
proof -
  have "D' + C + H = D + (H' + C)" using assms(2) by (simp add: ac_simps)
  also have "\<dots> = D + C' + H" unfolding assms(1) by (simp add: ac_simps)
  finally show ?thesis by simp
qed

lemma mset_exchange:
  assumes "M + C = N + C'" "add_mset a C' = add_mset b C"
  shows "add_mset a M = add_mset b N"
proof -
  have "add_mset a M + C = N + add_mset a C'" using assms(1) by simp
  also have "\<dots> = add_mset b N + C" using assms(2) by simp
  finally show ?thesis by simp
qed

lemma key_of_nth: "p < length c \<Longrightarrow> fst (c ! p) = k \<Longrightarrow> k \<in> fst ` set c"
  by (metis image_eqI nth_mem)

lemma bucket_entry: "bucket ht idx = Some ch \<Longrightarrow> e \<in> set ch \<Longrightarrow> e \<in># ht_entries ht"
  by (auto simp: bucket_def ht_entries_def split: if_splits intro!: bexI [OF _ nth_mem])

lemma ht_get_entry: "e \<in># ht_entries (ht_get d t) \<Longrightarrow> e \<in># dict_entries d"
  by (auto simp: ht_get_def dict_entries_def split: if_splits)

lemma dictSetVal_correct:
  assumes i: "dict_inv cx d" and al: "ht_alloc cx (ht_get d t)" and t: "t = 0 \<or> dictIsRehashing d"
    and b: "bucket (ht_get d t) idx = Some ch" and p: "p < length ch"
  shows "\<exists>d'. dictSetVal d (t, idx, p) v = Some d' \<and> dict_inv cx d' \<and>
    (ht_alloc cx (ht0 d) \<longrightarrow> ht_alloc cx (ht0 d')) \<and> iterators d' = iterators d \<and>
    add_mset (ch ! p) (dict_entries d') = add_mset (fst (ch ! p), v) (dict_entries d)"
proof -
  let ?c = "ch[p := (fst (ch ! p), v)]"
  let ?d = "ht_put d t (set_bucket (ht_get d t) idx ?c)"
  let ?d' = "ht_put d t ((set_bucket (ht_get d t) idx ?c)\<lparr>ht_used := ht_used (ht_get d t)\<rparr>)"
  have eq: "?d' = ?d" by (simp add: set_bucket_def)
  have lt: "idx < length (ht_table (ht_get d t))" and ch: "ch = ht_table (ht_get d t) ! idx"
    using b by (auto simp: bucket_def split: if_splits)
  have "ht_entries (set_bucket (ht_get d t) idx ?c) + mset ch = ht_entries (ht_get d t) + mset ?c"
    using ht_entries_set_bucket [OF lt, of ?c] ch by simp
  then have "dict_entries ?d' + mset ch = dict_entries d + mset ?c"
    using ht_put_entries [of d t "set_bucket (ht_get d t) idx ?c"] unfolding eq
    by (rule mset_cancel_mid)
  moreover have "add_mset (ch ! p) (mset ?c) = add_mset (fst (ch ! p), v) (mset ch)"
    using p by (rule mset_chain_update)
  ultimately have ent: "add_mset (ch ! p) (dict_entries ?d') = add_mset (fst (ch ! p), v) (dict_entries d)"
    by (rule mset_exchange)
  have keys: "keys_of (dict_entries ?d') = keys_of (dict_entries d)"
    using arg_cong [OF ent, of keys_of] by simp
  have hs: "\<forall>e\<in>set ?c. hashFunction cx (fst e) AND ht_sizemask (ht_get d t) = idx"
  proof
    fix e assume "e \<in> set ?c"
    then have "e = (fst (ch ! p), v) \<or> e \<in> set ch" using set_update_subset_insert by fast
    then show "hashFunction cx (fst e) AND ht_sizemask (ht_get d t) = idx"
      using ht_alloc_placed [OF al lt, of e, folded ch] ht_alloc_placed [OF al lt, of "ch ! p", folded ch]
        nth_mem [OF p] by auto
  qed
  have "size (dict_entries ?d') \<le> dict_cap"
    using arg_cong [OF keys, of size] dict_inv_common(1) [OF i] by (simp add: keys_of_def)
  moreover have "\<forall>k. count (keys_of (dict_entries ?d')) k \<le> 1"
    using dict_inv_common(2) [OF i] keys by (simp add: distinct_keys_iff)
  moreover have "ch \<noteq> []" using p by auto
  ultimately have "dict_inv cx ?d'" "ht_alloc cx (ht0 d) \<Longrightarrow> ht_alloc cx (ht0 ?d')"
    using update_chain [OF i al t b hs] by simp_all
  moreover have "dictSetVal d (t, idx, p) v = Some ?d'"
    using b p unfolding eq by (simp add: dictSetVal_def)
  moreover have "iterators ?d' = iterators d" by (simp add: ht_put_def)
  ultimately show ?thesis using ent by blast
qed

lemma dictAdd_correct:
  assumes cx: "ctx_ok cx" and i: "dict_inv cx d" and c: "size (dict_entries d) < dict_cap"
  shows "\<exists>d'. dictAdd cx junk d k v = Some (d', k \<notin># keys_of (dict_entries d)) \<and> dict_inv cx d' \<and>
    ht_alloc cx (ht0 d') \<and> iterators d' = iterators d \<and>
    dict_entries d' = (if k \<in># keys_of (dict_entries d) then dict_entries d
                       else add_mset (k, v) (dict_entries d))"
proof -
  obtain d1 loc where d1: "dictAddRaw cx junk d k = Some (d1, loc)" "dict_inv cx d1" "ht_alloc cx (ht0 d1)"
    "iterators d1 = iterators d"
    "if k \<in># keys_of (dict_entries d) then loc = None \<and> dict_entries d1 = dict_entries d
     else dict_entries d1 = add_mset (k, junk) (dict_entries d) \<and>
          (\<exists>t idx ch. loc = Some (t, idx) \<and> (t = 0 \<or> dictIsRehashing d1) \<and> ht_alloc cx (ht_get d1 t) \<and>
             bucket (ht_get d1 t) idx = Some ((k, junk) # ch))"
    using dictAddRaw_correct [OF cx i c, of junk k] by metis
  show ?thesis
  proof (cases "k \<in># keys_of (dict_entries d)")
    case True
    then show ?thesis using d1 by (simp add: dictAdd_def)
  next
    case False
    then obtain t idx ch where loc: "loc = Some (t, idx)" "t = 0 \<or> dictIsRehashing d1"
      "ht_alloc cx (ht_get d1 t)" "bucket (ht_get d1 t) idx = Some ((k, junk) # ch)"
      using d1(5) by auto
    obtain d' where "dictSetVal d1 (t, idx, 0) v = Some d'" "dict_inv cx d'" "ht_alloc cx (ht0 d')"
      "iterators d' = iterators d1" "add_mset (k, junk) (dict_entries d') = add_mset (k, v) (dict_entries d1)"
      using dictSetVal_correct [OF d1(2) loc(3,2,4), of 0 v] d1(3) by auto
    moreover from this have "dict_entries d' = add_mset (k, v) (dict_entries d)"
      using d1(5) False by (simp add: add_mset_commute)
    ultimately show ?thesis using False d1(1,4) loc(1) by (simp add: dictAdd_def)
  qed
qed

lemma dictFind_correct:
  assumes cx: "ctx_ok cx" and i: "dict_inv cx d"
  shows "\<exists>d' loc. dictFind cx d k = Some (d', loc) \<and> dict_inv cx d' \<and> iterators d' = iterators d \<and>
    dict_entries d' = dict_entries d \<and> (loc = None \<longleftrightarrow> k \<notin># keys_of (dict_entries d)) \<and>
    (\<forall>t idx p. loc = Some (t, idx, p) \<longrightarrow> (t = 0 \<or> dictIsRehashing d') \<and> ht_alloc cx (ht_get d' t) \<and>
      (\<exists>ch. bucket (ht_get d' t) idx = Some ch \<and> p < length ch \<and> fst (ch ! p) = k))"
proof (cases "ht_size (ht0 d) = 0")
  case True
  then show ?thesis using dict_inv_empty [OF i] i by (simp add: dictFind_def)
next
  case False
  obtain d' where d': "(if dictIsRehashing d then dictRehashStep cx d else Some d) = Some d'"
    "dict_inv cx d'" "ht_alloc cx (ht0 d')" "dict_entries d' = dict_entries d" "iterators d' = iterators d"
    using dictRehashStep_correct [OF i dict_inv_alloc [OF i False]] by blast
  note k = key_in_dict [OF d'(2,3), of k]
  let ?i0 = "hashFunction cx k AND ht_sizemask (ht0 d')" and ?i1 = "hashFunction cx k AND ht_sizemask (ht1 d')"
  have b0: "bucket (ht0 d') ?i0 = Some (ht_table (ht0 d') ! ?i0)" using d'(3) by (rule ht_alloc_bucket)
  show ?thesis
  proof (cases "chain_find cx k (ht_table (ht0 d') ! ?i0)")
    case (Some p)
    then have "dictFind cx d k = Some (d', Some (0, ?i0, p))" using False d'(1) b0 by (simp add: dictFind_def)
    moreover have "p < length (ht_table (ht0 d') ! ?i0)" "fst (ht_table (ht0 d') ! ?i0 ! p) = k"
      using chain_find_Some [OF cx Some] by simp_all
    moreover from this have "k \<in># keys_of (dict_entries d)" 
      using k d'(4) key_of_nth [of p "ht_table (ht0 d') ! ?i0" k] by simp
    ultimately show ?thesis using d' b0 by (simp add: ht_get_def)
  next
    case None
    show ?thesis
    proof (cases "dictIsRehashing d'")
      case nr: False
      then have "dictFind cx d k = Some (d', None)" using False d'(1) b0 None by (simp add: dictFind_def)
      moreover have "k \<notin># keys_of (dict_entries d)"
        using k d'(4) nr None by (simp add: chain_find_None [OF cx])
      ultimately show ?thesis using d' by simp
    next
      case True
      have al1: "ht_alloc cx (ht1 d')" using d'(2) True by (rule dict_inv_rehashing(2))
      then have b1: "bucket (ht1 d') ?i1 = Some (ht_table (ht1 d') ! ?i1)" by (rule ht_alloc_bucket)
      have f: "dictFind cx d k = Some (d', map_option (\<lambda>p. (1, ?i1, p)) (chain_find cx k (ht_table (ht1 d') ! ?i1)))"
        using False d'(1) b0 b1 None True by (simp add: dictFind_def)
      show ?thesis
      proof (cases "chain_find cx k (ht_table (ht1 d') ! ?i1)")
        case n1: None
        have "k \<notin># keys_of (dict_entries d)"
          using k d'(4) None n1 by (simp add: chain_find_None [OF cx])
        then show ?thesis using d' f n1 by simp
      next
        case (Some p)
        then have "p < length (ht_table (ht1 d') ! ?i1)" "fst (ht_table (ht1 d') ! ?i1 ! p) = k"
          using chain_find_Some [OF cx Some] by simp_all
        moreover from this have "k \<in># keys_of (dict_entries d)" 
          using k True d'(4) key_of_nth [of p "ht_table (ht1 d') ! ?i1" k] by simp
        ultimately show ?thesis using d' b1 f Some True al1 by (simp add: ht_get_def)
      qed
    qed
  qed
qed

lemma dictGenericDelete_correct:
  assumes cx: "ctx_ok cx" and i: "dict_inv cx d"
  shows "\<exists>d'. dictGenericDelete cx d k = Some (d', k \<in># keys_of (dict_entries d)) \<and> dict_inv cx d' \<and>
    (if k \<in># keys_of (dict_entries d) then \<exists>v. dict_entries d = add_mset (k, v) (dict_entries d')
     else dict_entries d' = dict_entries d)"
proof (cases "ht_size (ht0 d) = 0")
  case True
  then show ?thesis using dict_inv_empty [OF i] i by (simp add: dictGenericDelete_def)
next
  case False
  obtain d1 loc where find: "dictFind cx d k = Some (d1, loc)" "dict_inv cx d1"
    "dict_entries d1 = dict_entries d" "loc = None \<longleftrightarrow> k \<notin># keys_of (dict_entries d)"
    "\<forall>t idx p. loc = Some (t, idx, p) \<longrightarrow> (t = 0 \<or> dictIsRehashing d1) \<and> ht_alloc cx (ht_get d1 t) \<and>
      (\<exists>ch. bucket (ht_get d1 t) idx = Some ch \<and> p < length ch \<and> fst (ch ! p) = k)"
    using dictFind_correct [OF cx i, of k] by metis
  show ?thesis
  proof (cases loc)
    case None
    then have "dictGenericDelete cx d k = Some (d1, False)" using False find(1)
      by (auto simp: dictGenericDelete_def dictFind_def split: option.splits if_splits
          elim!: bind_eq_Some_conv [THEN iffD1, elim_format])
    then show ?thesis using None find by simp
  next
    case (Some l)
    obtain t idx p where l: "l = (t, idx, p)" by (cases l) auto
    obtain ch where al: "ht_alloc cx (ht_get d1 t)" and t: "t = 0 \<or> dictIsRehashing d1"
      and b: "bucket (ht_get d1 t) idx = Some ch" and p: "p < length ch" "fst (ch ! p) = k"
      using find(5) Some l by blast
    let ?d = "ht_put d1 t ((set_bucket (ht_get d1 t) idx (chain_remove p ch))
                \<lparr>ht_used := u64_dec (ht_used (ht_get d1 t))\<rparr>)"
    have del: "dictGenericDelete cx d k = Some (?d, True)" using False find(1) Some l b
      by (auto simp: dictGenericDelete_def dictFind_def ht_get_def ht_put_def split: option.splits if_splits
          elim!: bind_eq_Some_conv [THEN iffD1, elim_format])
    have lt: "idx < length (ht_table (ht_get d1 t))" and ch: "ch = ht_table (ht_get d1 t) ! idx"
      using b by (auto simp: bucket_def split: if_splits)
    have rm: "add_mset (ch ! p) (mset (chain_remove p ch)) = mset ch" using p(1) by (rule mset_chain_remove)
    let ?h = "(set_bucket (ht_get d1 t) idx (chain_remove p ch))\<lparr>ht_used := u64_dec (ht_used (ht_get d1 t))\<rparr>"
    have "ht_entries ?h + mset ch = ht_entries (ht_get d1 t) + mset (chain_remove p ch)"
      using ht_entries_set_bucket [OF lt, of "chain_remove p ch"] ch by simp
    then have "dict_entries ?d + mset ch = dict_entries d1 + mset (chain_remove p ch)"
      using ht_put_entries [of d1 t ?h] by (rule mset_cancel_mid)
    then have ent: "dict_entries d1 = add_mset (ch ! p) (dict_entries ?d)" using rm [symmetric] by simp
    then have cap: "size (dict_entries ?d) \<le> dict_cap" using dict_inv_common(1) [OF find(2)] by simp
    have cnt: "\<forall>k. count (keys_of (dict_entries ?d)) k \<le> 1"
    proof
      fix k
      have "count (keys_of (dict_entries ?d)) k \<le> count (keys_of (dict_entries d1)) k" using ent by simp
      also have "\<dots> \<le> 1" using dict_inv_common(2) [OF find(2)] by (simp add: distinct_keys_iff)
      finally show "count (keys_of (dict_entries ?d)) k \<le> 1" .
    qed
    have hs: "\<forall>e\<in>set (chain_remove p ch). hashFunction cx (fst e) AND ht_sizemask (ht_get d1 t) = idx"
      using ht_alloc_placed [OF al lt] ch by (auto simp: chain_remove_def dest: in_set_takeD in_set_dropD)
    have "mset ch \<subseteq># ht_entries (ht_get d1 t)" using mset_concat_nth [OF lt] ch by (simp add: ht_entries_def)
    then have "length ch \<le> ht_used (ht_get d1 t)"
      using size_mset_mono al by (fastforce simp: ht_alloc_def)
    moreover have "size (ht_entries (ht_get d1 t)) \<le> size (dict_entries d1)"
      by (simp add: ht_get_def dict_entries_def)
    ultimately have "u64_dec (ht_used (ht_get d1 t)) + length ch = ht_used (ht_get d1 t) + length (chain_remove p ch)"
      using p(1) al dict_inv_common(1) [OF find(2)]
      by (subst u64_dec_Suc) (auto simp: ht_alloc_def dict_cap_def chain_remove_def)
    then have "dict_inv cx ?d"
      by (intro update_chain(1) [OF find(2) al t b hs _ _ cap cnt]) (use p(1) in auto)
    moreover have "dict_entries d = add_mset (k, snd (ch ! p)) (dict_entries ?d)"
      using ent find(3) p(2) by (metis prod.collapse)
    ultimately show ?thesis using del find(4) Some by auto
  qed
qed

lemma dictReplace_correct:
  assumes cx: "ctx_ok cx" and i: "dict_inv cx d" and c: "size (dict_entries d) < dict_cap"
  shows "\<exists>d'. dictReplace cx junk d k v = Some (d', k \<notin># keys_of (dict_entries d)) \<and> dict_inv cx d' \<and>
    (if k \<in># keys_of (dict_entries d)
     then \<exists>w. (k, w) \<in># dict_entries d \<and> add_mset (k, w) (dict_entries d') = add_mset (k, v) (dict_entries d)
     else dict_entries d' = add_mset (k, v) (dict_entries d))"
proof -
  obtain d1 where d1: "dictAdd cx junk d k v = Some (d1, k \<notin># keys_of (dict_entries d))" "dict_inv cx d1"
    "dict_entries d1 = (if k \<in># keys_of (dict_entries d) then dict_entries d else add_mset (k, v) (dict_entries d))"
    using dictAdd_correct [OF cx i c, of junk k v] by blast
  show ?thesis
  proof (cases "k \<in># keys_of (dict_entries d)")
    case False
    then show ?thesis using d1 by (simp add: dictReplace_def)
  next
    case True
    obtain d2 loc where find: "dictFind cx d1 k = Some (d2, loc)" "dict_inv cx d2"
      "dict_entries d2 = dict_entries d1" "loc = None \<longleftrightarrow> k \<notin># keys_of (dict_entries d1)"
      "\<forall>t idx p. loc = Some (t, idx, p) \<longrightarrow> (t = 0 \<or> dictIsRehashing d2) \<and> ht_alloc cx (ht_get d2 t) \<and>
        (\<exists>ch. bucket (ht_get d2 t) idx = Some ch \<and> p < length ch \<and> fst (ch ! p) = k)"
      using dictFind_correct [OF cx d1(2), of k] by metis
    obtain t idx p where l: "loc = Some (t, idx, p)" using find(4) True d1(3) by (cases loc) auto
    obtain ch where al: "ht_alloc cx (ht_get d2 t)" and t: "t = 0 \<or> dictIsRehashing d2"
      and b: "bucket (ht_get d2 t) idx = Some ch" and p: "p < length ch" "fst (ch ! p) = k"
      using find(5) l by blast
    obtain d' where d': "dictSetVal d2 (t, idx, p) v = Some d'" "dict_inv cx d'"
      "add_mset (ch ! p) (dict_entries d') = add_mset (fst (ch ! p), v) (dict_entries d2)"
      using dictSetVal_correct [OF find(2) al t b p(1), of v] by auto
    then have "add_mset (k, snd (ch ! p)) (dict_entries d') = add_mset (k, v) (dict_entries d)"
      using p(2) find(3) d1(3) True by (metis prod.collapse)
    moreover have "ch ! p \<in># dict_entries d2" using b p by (intro ht_get_entry bucket_entry) auto
    then have "(k, snd (ch ! p)) \<in># dict_entries d" using p(2) find(3) d1(3) True by (metis prod.collapse)
    ultimately show ?thesis using True d1(1) find(1) l d'(1,2) by (auto simp: dictReplace_def)
  qed
qed

lemma dictFetchValue_correct:
  assumes cx: "ctx_ok cx" and i: "dict_inv cx d"
  shows "\<exists>d'. dictFetchValue cx d k = Some (d', dict_map d k) \<and> dict_inv cx d' \<and> dict_entries d' = dict_entries d"
proof -
  obtain d1 loc where find: "dictFind cx d k = Some (d1, loc)" "dict_inv cx d1"
    "dict_entries d1 = dict_entries d" "loc = None \<longleftrightarrow> k \<notin># keys_of (dict_entries d)"
    "\<forall>t idx p. loc = Some (t, idx, p) \<longrightarrow> (t = 0 \<or> dictIsRehashing d1) \<and> ht_alloc cx (ht_get d1 t) \<and>
      (\<exists>ch. bucket (ht_get d1 t) idx = Some ch \<and> p < length ch \<and> fst (ch ! p) = k)"
    using dictFind_correct [OF cx i, of k] by metis
  show ?thesis
  proof (cases loc)
    case None
    then show ?thesis using find dict_map_None_iff [of d k] by (simp add: dictFetchValue_def)
  next
    case (Some l)
    obtain t idx p where l: "l = (t, idx, p)" by (cases l) auto
    obtain ch where b: "bucket (ht_get d1 t) idx = Some ch" "p < length ch" "fst (ch ! p) = k"
      using find(5) Some l by blast
    have "ch ! p \<in># dict_entries d"
      unfolding find(3) [symmetric] using b by (intro ht_get_entry bucket_entry) auto
    then have "dict_map d k = Some (snd (ch ! p))"
      using dict_map_iff [OF dict_inv_common(2) [OF i], of k "snd (ch ! p)"] b(3) by (metis prod.collapse)
    then show ?thesis using find Some l b by (simp add: dictFetchValue_def dictGetEntry_def)
  qed
qed

section \<open>The map interface\<close>

lemma dict_map_add:
  assumes "dict_inv cx d" "dict_inv cx d'" "dict_entries d' = add_mset (k, v) (dict_entries d)"
  shows "dict_map d' = (dict_map d)(k \<mapsto> v)"
proof
  fix j
  have nk: "dict_map d k = None"
  proof -
    have "count (keys_of (dict_entries d')) k \<le> 1"
      using dict_inv_common(2) [OF assms(2)] by (simp add: distinct_keys_iff)
    then show ?thesis using assms(3) by (simp add: dict_map_None_iff not_in_iff)
  qed
  then have "(k, w) \<notin># dict_entries d" for w
    using dict_map_iff [OF dict_inv_common(2) [OF assms(1)], of k w] by simp
  then have "dict_map d' j = Some w \<longleftrightarrow> ((dict_map d)(k \<mapsto> v)) j = Some w" for w
    using assms(3) dict_map_iff [OF dict_inv_common(2) [OF assms(1)]]
      dict_map_iff [OF dict_inv_common(2) [OF assms(2)]] by (cases "j = k") auto
  then show "dict_map d' j = ((dict_map d)(k \<mapsto> v)) j" by (metis not_Some_eq)
qed

lemma dict_map_delete:
  assumes "dict_inv cx d" "dict_inv cx d'" "dict_entries d = add_mset (k, v) (dict_entries d')"
  shows "dict_map d' = (dict_map d)(k := None)"
proof -
  have "count (keys_of (dict_entries d)) k \<le> 1"
    using dict_inv_common(2) [OF assms(1)] by (simp add: distinct_keys_iff)
  then have "dict_map d' k = None" using assms(3) by (simp add: dict_map_None_iff not_in_iff)
  then show ?thesis using dict_map_add [OF assms(2,1,3)] by (auto simp: fun_eq_iff)
qed

lemma dict_map_replace:
  assumes i: "dict_inv cx d" "dict_inv cx d'" and m: "(k, w) \<in># dict_entries d"
    and e: "add_mset (k, w) (dict_entries d') = add_mset (k, v) (dict_entries d)"
  shows "dict_map d' = (dict_map d)(k \<mapsto> v)"
proof
  fix j
  note iff = dict_map_iff [OF dict_inv_common(2) [OF i(1)]] dict_map_iff [OF dict_inv_common(2) [OF i(2)]]
  have "dict_map d' j = Some x \<longleftrightarrow> dict_map d j = Some x" if "j \<noteq> k" for x
  proof -
    have "(j, x) \<in># add_mset (k, w) (dict_entries d') \<longleftrightarrow> (j, x) \<in># add_mset (k, v) (dict_entries d)"
      unfolding e ..
    then show ?thesis using that iff by simp
  qed
  moreover have "dict_map d' k = Some v"
  proof (cases "v = w")
    case True
    then have "dict_entries d' = dict_entries d" using e by simp
    then show ?thesis using m True iff by simp
  next
    case False
    then have "(k, v) \<in># dict_entries d'" using e by (metis insert_noteq_member prod.inject)
    then show ?thesis using iff by simp
  qed
  ultimately show "dict_map d' j = ((dict_map d)(k \<mapsto> v)) j"
    by (cases "j = k") (simp_all, metis not_Some_eq)
qed

lemma card_dict_map: "dict_inv cx d \<Longrightarrow> card (dom (dict_map d)) = size (dict_entries d)"
proof -
  assume "dict_inv cx d"
  then have "card (set (map fst (dict_list d))) = length (dict_list d)"
    by (metis dict_inv_common(2) distinct_card length_map)
  then show ?thesis by (simp add: dict_map_def dom_map_of_conv_image_fst flip: mset_dict_list)
qed

lemma dict_map_finite: "finite (dom (dict_map d))"
  by (simp add: dict_map_def finite_dom_map_of)

lemma dict_inv_create: "dict_inv cx dictCreate" "dict_map dictCreate = Map.empty"
  by (simp_all add: dict_inv_def dictCreate_def dictIsRehashing_def dict_list_def dict_entries_def
      dict_map_def) (simp_all add: dictReset_def)

lemma dictAdd_map:
  assumes "ctx_ok cx" "dict_inv cx d" "card (dom (dict_map d)) < dict_cap"
  shows "\<exists>d'. dictAdd cx junk d k v = Some (d', dict_map d k = None) \<and> dict_inv cx d' \<and>
     dict_map d' = (if dict_map d k = None then (dict_map d)(k \<mapsto> v) else dict_map d)"
proof -
  obtain d' where d': "dictAdd cx junk d k v = Some (d', k \<notin># keys_of (dict_entries d))" "dict_inv cx d'"
    "dict_entries d' = (if k \<in># keys_of (dict_entries d) then dict_entries d else add_mset (k, v) (dict_entries d))"
    using dictAdd_correct [OF assms(1,2), of junk k v] assms(3) card_dict_map [OF assms(2)] by auto
  then show ?thesis
    using dict_map_None_iff [of d k] dict_map_add [OF assms(2) d'(2)]
      dict_map_cong [of d' d] dict_inv_common(2) [OF assms(2)]
    by (cases "k \<in># keys_of (dict_entries d)") auto
qed

lemma dictReplace_map:
  assumes "ctx_ok cx" "dict_inv cx d" "card (dom (dict_map d)) < dict_cap"
  shows "\<exists>d'. dictReplace cx junk d k v = Some (d', dict_map d k = None) \<and> dict_inv cx d' \<and>
     dict_map d' = (dict_map d)(k \<mapsto> v)"
proof -
  obtain d' where d': "dictReplace cx junk d k v = Some (d', k \<notin># keys_of (dict_entries d))" "dict_inv cx d'"
    "if k \<in># keys_of (dict_entries d)
     then \<exists>w. (k, w) \<in># dict_entries d \<and> add_mset (k, w) (dict_entries d') = add_mset (k, v) (dict_entries d)
     else dict_entries d' = add_mset (k, v) (dict_entries d)"
    using dictReplace_correct [OF assms(1,2), of junk k v] assms(3) card_dict_map [OF assms(2)] by auto
  then show ?thesis
    using dict_map_None_iff [of d k] dict_map_add [OF assms(2) d'(2)] dict_map_replace [OF assms(2) d'(2)]
    by (cases "k \<in># keys_of (dict_entries d)") auto
qed

lemma dictDelete_map:
  assumes "ctx_ok cx" "dict_inv cx d"
  shows "\<exists>d'. dictDelete cx d k = Some (d', dict_map d k \<noteq> None) \<and> dict_inv cx d' \<and>
     dict_map d' = (dict_map d)(k := None)"
proof -
  obtain d' where d': "dictGenericDelete cx d k = Some (d', k \<in># keys_of (dict_entries d))" "dict_inv cx d'"
    "if k \<in># keys_of (dict_entries d) then \<exists>v. dict_entries d = add_mset (k, v) (dict_entries d')
     else dict_entries d' = dict_entries d"
    using dictGenericDelete_correct [OF assms, of k] by auto
  then show ?thesis
    using dict_map_None_iff [of d k] dict_map_delete [OF assms(2) d'(2)]
      dict_map_cong [of d' d] dict_inv_common(2) [OF assms(2)]
    by (cases "k \<in># keys_of (dict_entries d)") (auto simp: dictDelete_def fun_eq_iff)
qed

lemma dictFetchValue_map:
  assumes "ctx_ok cx" "dict_inv cx d"
  shows "\<exists>d'. dictFetchValue cx d k = Some (d', dict_map d k) \<and> dict_inv cx d' \<and> dict_map d' = dict_map d"
  using dictFetchValue_correct [OF assms, of k] dict_map_cong dict_inv_common(2) [OF assms(2)] by blast

text \<open>
  The callbacks and globals vary, so the interface is interpreted for every context that compares
  keys by equality.
\<close>

lemma dict_map_impl:
  assumes "ctx_ok cx"
  shows "map_impl (dictAdd cx junk) (dictReplace cx junk) (dictDelete cx) (dictFetchValue cx)
           dict_map (dict_inv cx) dict_cap"
  using assms
  by unfold_locales (simp_all only: dict_map_finite dictAdd_map dictReplace_map dictDelete_map dictFetchValue_map)

definition eq_ctx :: "('k \<Rightarrow> nat) \<Rightarrow> bool \<Rightarrow> bool \<Rightarrow> 'k dict_ctx" where
  "eq_ctx h r f = \<lparr>hashFunction = h, keyCompare = (=), dict_can_resize = r, g_IsForkedProcess = f\<rparr>"

lemma eq_ctx_ok: "ctx_ok (eq_ctx h r f)"
  by (simp add: ctx_ok_def eq_ctx_def)

interpretation dct: map_impl "dictAdd (eq_ctx h r f) junk" "dictReplace (eq_ctx h r f) junk"
    "dictDelete (eq_ctx h r f)" "dictFetchValue (eq_ctx h r f)" dict_map "dict_inv (eq_ctx h r f)" dict_cap
  for h r f junk
  by (rule dict_map_impl) (rule eq_ctx_ok)

end
