(* ===== verification/Dict_Rehash.thy ===== *)
theory Dict_Rehash
  imports Dict
begin

text \<open>
  Progress of incremental rehashing (every call to \<open>dictRehash\<close> moves the cursor or finishes), the timed
  loop of \<open>dictRehashMilliseconds\<close>, and the properties of the dictionary.
\<close>

section \<open>Progress\<close>

lemma dictRehash_skip_mono:
  "dictRehash_skip d ev = Some (d', ev', out) \<Longrightarrow> d' = d\<lparr>rehashidx := rehashidx d'\<rparr> \<and>
   rehashidx d \<le> rehashidx d' \<and> (out \<longrightarrow> rehashidx d < rehashidx d')"
proof (induction d ev rule: dictRehash_skip.induct)
  case (1 d ev)
  note unf = dictRehash_skip.simps [of d ev]
  show ?case
  proof (cases "0 \<le> rehashidx d \<and> nat (rehashidx d) < length (ht_table (ht0 d)) \<and>
      ht_table (ht0 d) ! nat (rehashidx d) = [] \<and> ev - 1 \<noteq> 0")
    case True
    then have "dictRehash_skip (d\<lparr>rehashidx := rehashidx d + 1\<rparr>) (ev - 1) = Some (d', ev', out)"
      using "1.prems" unfolding unf Let_def by simp
    then show ?thesis using "1.IH" [OF _ _ refl refl] True by fastforce
  next
    case False
    then show ?thesis using "1.prems" unfolding unf Let_def by (auto split: if_splits)
  qed
qed

lemma dictRehash_move_frame:
  "dictRehash_move cx es d = Some d' \<Longrightarrow> rehashidx d' = rehashidx d \<and> ht_size (ht0 d') = ht_size (ht0 d)"
proof (induction es arbitrary: d)
  case (Cons e es)
  then show ?case by (fastforce simp: Let_def split: bind_splits)
qed simp

lemma dictRehash_loop_mono:
  "dictRehash_loop cx n ev d = Some (d', b) \<Longrightarrow> dictIsRehashing d' \<Longrightarrow> 0 \<le> rehashidx d \<Longrightarrow>
   ht_size (ht0 d') = ht_size (ht0 d) \<and> rehashidx d \<le> rehashidx d' \<and>
   (0 < n \<longrightarrow> rehashidx d < rehashidx d')"
proof (induction n arbitrary: ev d)
  case 0
  then show ?case by (auto simp: dictRehash_finish_def dictIsRehashing_def split: if_splits)
next
  case (Suc n)
  show ?case
  proof (cases "ht_used (ht0 d) = 0 \<or> \<not> int (ht_size (ht0 d)) > rehashidx d")
    case True
    then show ?thesis using Suc.prems
      by (auto simp: dictRehash_finish_def dictIsRehashing_def split: if_splits)
  next
    case False
    then obtain d1 ev1 out where skip: "dictRehash_skip d ev = Some (d1, ev1, out)"
      using Suc.prems(1) by (auto split: bind_splits)
    note m = dictRehash_skip_mono [OF skip]
    have sz: "ht_size (ht0 d1) = ht_size (ht0 d)"
      using m by (metis dict.select_convs(1) dict.surjective dict.update_convs(3))
    show ?thesis
    proof (cases out)
      case True
      then show ?thesis using False skip m sz Suc.prems(1) by auto
    next
      case nout: False
      then obtain de d2 where d2: "dictRehash_move cx de d1 = Some d2"
        and rest: "dictRehash_loop cx n ev1
          (d2\<lparr>ht0 := set_bucket (ht0 d2) (nat (rehashidx d2)) [], rehashidx := rehashidx d2 + 1\<rparr>) = Some (d', b)"
        using False skip Suc.prems(1) by (auto split: bind_splits)
      note f = dictRehash_move_frame [OF d2]
      have "ht_size (ht0 d') = ht_size (ht0 d2) \<and> rehashidx d2 + 1 \<le> rehashidx d'"
        using Suc.IH [OF rest Suc.prems(2)] f m Suc.prems(3) by simp
      then show ?thesis using f m sz by auto
    qed
  qed
qed

text \<open>
  A call that does not finish has moved the cursor of the same table forward, so the number of
  calls is bounded by the size of the old table.
\<close>

fun dictRehash_iter :: "'k dict_ctx \<Rightarrow> nat \<Rightarrow> nat \<Rightarrow> ('k, 'v) dict \<Rightarrow> ('k, 'v) dict option" where
  "dictRehash_iter cx n 0 d = Some d"
| "dictRehash_iter cx n (Suc m) d = Option.bind (dictRehash cx d n) (\<lambda>(d, b). dictRehash_iter cx n m d)"

text \<open>A call that does not finish leaves entries in the old table, all at or behind the cursor.\<close>

lemma dictRehash_loop_used:
  "dictRehash_loop cx n ev d = Some (d', b) \<Longrightarrow> dictIsRehashing d' \<Longrightarrow> ht_used (ht0 d') \<noteq> 0"
proof (induction n arbitrary: ev d)
  case 0
  then show ?case by (auto simp: dictRehash_finish_def dictIsRehashing_def split: if_splits)
next
  case (Suc n)
  show ?case
  proof (cases "ht_used (ht0 d) = 0 \<or> \<not> int (ht_size (ht0 d)) > rehashidx d")
    case True
    then show ?thesis using Suc.prems
      by (auto simp: dictRehash_finish_def dictIsRehashing_def split: if_splits)
  next
    case False
    then obtain d1 ev1 out where skip: "dictRehash_skip d ev = Some (d1, ev1, out)"
      using Suc.prems(1) by (auto split: bind_splits)
    have "ht0 d1 = ht0 d" using dictRehash_skip_mono [OF skip] by (metis dict.select_convs(1) dict.surjective dict.update_convs(3))
    then show ?thesis using False skip Suc.prems Suc.IH by (cases out) (auto split: bind_splits)
  qed
qed

lemma rehashing_cursor:
  assumes "dict_inv cx d" "dictIsRehashing d" "ht_used (ht0 d) \<noteq> 0"
  shows "rehashidx d < int (ht_size (ht0 d))"
proof (rule ccontr)
  note inv = dict_inv_rehashing [OF assms(1,2)]
  assume "\<not> rehashidx d < int (ht_size (ht0 d))"
  moreover have "length (ht_table (ht0 d)) = ht_size (ht0 d)" using inv(1) by (simp add: ht_alloc_def)
  ultimately have "\<forall>c\<in>set (ht_table (ht0 d)). c = []" using inv(5) by (auto simp: in_set_conv_nth)
  then have "ht_entries (ht0 d) = {#}" by (auto simp: ht_entries_def)
  then show False using inv(1) assms(3) by (simp add: ht_alloc_def)
qed

text \<open>After one call the dictionary is done, or its cursor is further and entries are left.\<close>

lemma dictRehash_progress:
  assumes "dict_inv cx d" "\<not> g_IsForkedProcess cx" "0 < n"
  shows "\<exists>d' b. dictRehash cx d n = Some (d', b) \<and> dict_inv cx d' \<and> dict_entries d' = dict_entries d \<and>
    (dictIsRehashing d' \<longrightarrow> dictIsRehashing d \<and> ht_size (ht0 d') = ht_size (ht0 d) \<and> rehashidx d < rehashidx d' \<and> ht_used (ht0 d') \<noteq> 0)"
proof -
  obtain d' b where d': "dictRehash cx d n = Some (d', b)" "dict_inv cx d'" "dict_entries d' = dict_entries d"
    using dictRehash_correct [OF assms(1), of n] by blast
  have "dictIsRehashing d \<and> ht_size (ht0 d') = ht_size (ht0 d) \<and> rehashidx d < rehashidx d' \<and> ht_used (ht0 d') \<noteq> 0" if r: "dictIsRehashing d'"
  proof -
    have "dictIsRehashing d" "dictRehash_loop cx n (int n * 10) d = Some (d', b)"
      using r d'(1) assms(2) by (auto simp: dictRehash_def split: if_splits)
    then show ?thesis using dictRehash_loop_mono [of cx n "int n * 10" d d' b] dictRehash_loop_used [of cx n "int n * 10" d d' b] r assms
        dict_inv_rehashing(3) [OF assms(1)] by auto
  qed
  then show ?thesis using d' by blast
qed

lemma dictRehash_iter_correct:
  assumes "dict_inv cx d" "\<not> g_IsForkedProcess cx" "0 < n"
    "dictIsRehashing d \<Longrightarrow> int (ht_size (ht0 d)) - rehashidx d \<le> int m \<and> (0 < m \<or> ht_used (ht0 d) \<noteq> 0)"
  shows "\<exists>d'. dictRehash_iter cx n m d = Some d' \<and> dict_inv cx d' \<and> dict_entries d' = dict_entries d \<and>
     \<not> dictIsRehashing d'"
  using assms
proof (induction m arbitrary: d)
  case 0
  then show ?case using rehashing_cursor [OF 0(1)] by auto
next
  case (Suc m)
  obtain d1 b where d1: "dictRehash cx d n = Some (d1, b)" "dict_inv cx d1" "dict_entries d1 = dict_entries d"
    "dictIsRehashing d1 \<longrightarrow> dictIsRehashing d \<and> ht_size (ht0 d1) = ht_size (ht0 d) \<and> rehashidx d < rehashidx d1 \<and> ht_used (ht0 d1) \<noteq> 0"
    using dictRehash_progress [OF Suc.prems(1-3)] by blast
  then show ?case using Suc.IH [OF d1(2) Suc.prems(2,3)] Suc.prems(4) by auto
qed

section \<open>The timed loop\<close>

text \<open>
  The milliseconds since the start of the call are a parameter: \<open>clock i\<close> is what the \<open>i\<close>-th reading of
  the time gives. The fuel bounds the number of rounds of 100 buckets; the theorem below
  shows that the size of the table is always enough.
\<close>

fun dictRehashMilliseconds_loop ::
    "'k dict_ctx \<Rightarrow> (nat \<Rightarrow> int) \<Rightarrow> int \<Rightarrow> int \<Rightarrow> nat \<Rightarrow> nat \<Rightarrow> int \<Rightarrow> ('k, 'v) dict \<Rightarrow>
     (('k, 'v) dict \<times> int) option" where
  "dictRehashMilliseconds_loop cx clock start ms 0 i rehashes d = None"
| "dictRehashMilliseconds_loop cx clock start ms (Suc fuel) i rehashes d = do {
     (d, more) \<leftarrow> dictRehash cx d 100;
     if \<not> more then Some (d, rehashes)
     else if clock i - start > ms then Some (d, rehashes + 100)
     else dictRehashMilliseconds_loop cx clock start ms fuel (Suc i) (rehashes + 100) d
   }"

definition dictRehashMilliseconds ::
    "'k dict_ctx \<Rightarrow> (nat \<Rightarrow> int) \<Rightarrow> nat \<Rightarrow> ('k, 'v) dict \<Rightarrow> int \<Rightarrow> (('k, 'v) dict \<times> int) option" where
  "dictRehashMilliseconds cx clock fuel d ms =
     dictRehashMilliseconds_loop cx clock (clock 0) ms fuel 1 0 d"

lemma dictRehashMilliseconds_loop_correct:
  assumes "dict_inv cx d" "0 < fuel" "dictIsRehashing d \<Longrightarrow> int (ht_size (ht0 d)) - rehashidx d + 1 < int fuel"
  shows "\<exists>d' r'. dictRehashMilliseconds_loop cx clock start ms fuel i r d = Some (d', r') \<and>
     dict_inv cx d' \<and> dict_entries d' = dict_entries d"
  using assms
proof (induction fuel arbitrary: d i r)
  case (Suc fuel)
  obtain d1 b where d1: "dictRehash cx d 100 = Some (d1, b)" "dict_inv cx d1" "dict_entries d1 = dict_entries d"
    "\<not> g_IsForkedProcess cx \<longrightarrow> b = dictIsRehashing d1"
    using dictRehash_correct [OF Suc.prems(1), of 100] by blast
  show ?case
  proof (cases "b \<and> clock i - start \<le> ms")
    case False
    then show ?thesis using d1 by auto
  next
    case True
    then have nf: "\<not> g_IsForkedProcess cx" using d1(1) by (auto simp: dictRehash_def)
    then have re1: "dictIsRehashing d1" using True d1(4) by simp
    have re: "dictIsRehashing d" using True d1(1) nf by (auto simp: dictRehash_def split: if_splits)
    have lt: "int (ht_size (ht0 d1)) - rehashidx d1 + 1 < int fuel"
      using dictRehash_loop_mono [of cx 100 "int 100 * 10" d d1 b] re1 re nf d1(1) Suc.prems(3)
        dict_inv_rehashing(3) [OF Suc.prems(1)]
      by (auto simp: dictRehash_def)
    then have "0 < fuel" using dict_inv_rehashing(4) [OF d1(2) re1] by linarith
    then show ?thesis using Suc.IH [OF d1(2) _ lt, of "Suc i" "r + 100"] True d1 by auto
  qed
qed simp

section \<open>Properties\<close>

text \<open>Property C1: any sequence of insertions, replacements, deletions and lookups on a dictionary, in
  whatever rehashing state it starts and through every resize and rehashing step the sequence
  triggers, stays inside its tables, keeps the representation invariant and behaves, replies
  included, like a finite map.\<close>

theorem dict_run_refines:
  assumes "ctx_ok cx" "dict_inv cx d" "card (dom (dict_map d)) + length xs \<le> dict_cap"
  shows "\<exists>d'. map_impl_run (dictAdd cx junk) (dictReplace cx junk) (dictDelete cx) (dictFetchValue cx) d xs
               = Some (d', snd (map_spec_run (dict_map d) xs)) \<and>
             dict_inv cx d' \<and> dict_map d' = fst (map_spec_run (dict_map d) xs)"
  using map_impl.run_refines [OF dict_map_impl [OF assms(1)] assms(2,3)] .

theorem dict_run_refines_witness:
  "\<exists>d'. map_impl_run (dictAdd (eq_ctx id True False) 0) (dictReplace (eq_ctx id True False) 0)
          (dictDelete (eq_ctx id True False)) (dictFetchValue (eq_ctx id True False)) dictCreate
          [MapAdd 1 10, MapAdd 5 50, MapAdd 1 (11 :: nat), MapReplace 5 51, MapDelete 1, MapFetch 5]
        = Some (d', [ReplyFlag True, ReplyFlag True, ReplyFlag False, ReplyFlag False, ReplyFlag True,
                     ReplyValue (Some 51)]) \<and>
      dict_inv (eq_ctx id True False) d' \<and> dict_map d' = [5 \<mapsto> 51]"
proof -
  let ?ops = "[MapAdd 1 10, MapAdd 5 50, MapAdd 1 11, MapReplace 5 51, MapDelete 1, MapFetch 5]
    :: (nat, nat) map_op list"
  have "map_spec_run Map.empty ?ops = ([5 \<mapsto> 51], [ReplyFlag True, ReplyFlag True, ReplyFlag False,
      ReplyFlag False, ReplyFlag True, ReplyValue (Some 51)])"
    by (auto simp: fun_eq_iff)
  then show ?thesis
    using dict_run_refines [OF eq_ctx_ok dict_inv_create(1), where xs = ?ops and junk = 0]
    by (simp add: dict_inv_create(2) dict_cap_def)
qed

text \<open>Property C25: incremental rehashing is invisible and always completes. Repeating \<open>dictRehash\<close> with any
  positive number of steps keeps the invariant and the contents, never trips its assertion or
  leaves the tables, and after at most as many calls as the old table has buckets, rehashing
  is over.\<close>

theorem dictRehash_completes:
  assumes "dict_inv cx d" "\<not> g_IsForkedProcess cx" "0 < n"
  shows "\<exists>d'. dictRehash_iter cx n (ht_size (ht0 d)) d = Some d' \<and> dict_inv cx d' \<and>
     dict_map d' = dict_map d \<and> \<not> dictIsRehashing d'"
proof -
  have "int (ht_size (ht0 d)) - rehashidx d \<le> int (ht_size (ht0 d)) \<and> (0 < ht_size (ht0 d) \<or> ht_used (ht0 d) \<noteq> 0)" if "dictIsRehashing d"
    using dict_inv_rehashing(1,3) [OF assms(1) that] by (auto dest: ht_alloc_size_pos)
  from dictRehash_iter_correct [OF assms this] show ?thesis
    using dict_map_cong dict_inv_common(2) [OF assms(1)] by blast
qed

definition rehashing_example :: "(nat, nat) dict" where
  "rehashing_example = \<lparr>ht0 = \<lparr>ht_table = [[], [(5, 50), (1, 10)], [], []], ht_size = 4, ht_sizemask = 3, ht_used = 2\<rparr>,
     ht1 = \<lparr>ht_table = replicate 8 [], ht_size = 8, ht_sizemask = 7, ht_used = 0\<rparr>, rehashidx = 0, iterators = 0\<rparr>"

lemma rehashing_example_inv: "dict_inv (eq_ctx id True False) rehashing_example"
proof -
  have "placed (eq_ctx id True False) (ht0 rehashing_example)"
    by (auto simp: placed_def rehashing_example_def eq_ctx_def nth_Cons' numeral_eq_Suc less_Suc_eq and_nat_def)
  moreover have "placed (eq_ctx id True False) (ht1 rehashing_example)"
    by (auto simp: placed_def rehashing_example_def)
  moreover have "\<exists>n\<in>{2..31}. (4::nat) = 2 ^ n" by (rule bexI [of _ 2]) auto
  moreover have "\<exists>n\<in>{2..31}. (8::nat) = 2 ^ n" by (rule bexI [of _ 3]) auto
  ultimately show ?thesis
    by (simp add: dict_inv_def ht_alloc_def dictIsRehashing_def dict_entries_def ht_entries_def dict_cap_def dict_list_def)
       (simp add: rehashing_example_def)
qed

theorem dictRehash_completes_witness:
  "\<exists>d'. dictRehash_iter (eq_ctx id True False) 1 4 rehashing_example = Some d' \<and>
     dict_inv (eq_ctx id True False) d' \<and> dict_map d' = dict_map rehashing_example \<and> \<not> dictIsRehashing d'"
  using dictRehash_completes [OF rehashing_example_inv, of 1]
  by (simp add: eq_ctx_def rehashing_example_def)

end
