(* ===== verification/Dict_Scan.thy ===== *)
theory Dict_Scan
  imports Dict
begin

text \<open>
  The cursor iteration of \<open>dictScan\<close>. The cursor is an \<open>unsigned long\<close> of 64 bits whose bits are
  incremented from the top of the msk downwards. In the order of the bit-reversed hashes one
  call covers an interval that starts at the cursor, and the returned cursor is the end of that
  interval; completeness of a whole scan follows whatever happens to the table between calls,
  as long as the smaller msk covers the cursor.
\<close>

section \<open>The code\<close>

function rev_loop :: "nat \<Rightarrow> uint64 \<Rightarrow> uint64 \<Rightarrow> uint64" where
  "rev_loop s msk v = (
     let s' = s div 2 in
     if s' > 0 then
       (let msk' = msk XOR push_bit s' msk in
        rev_loop s' msk' ((drop_bit s' v AND msk') OR (push_bit s' v AND NOT msk')))
     else v)"
  by pat_completeness auto
termination
  by (relation "measure (\<lambda>(s, msk, v). s)") auto

declare rev_loop.simps [simp del]

definition rev_ulong :: "uint64 \<Rightarrow> uint64" where
  "rev_ulong v = rev_loop (8 * 8) (NOT 0) v"

text \<open>The increment of the inner loop adds one to the bits above the smaller mask.\<close>

definition scan_step :: "uint64 \<Rightarrow> uint64 \<Rightarrow> uint64" where
  "scan_step m0 v = (((v OR m0) + 1) AND NOT m0) OR (v AND m0)"

text \<open>
  The inner \<open>do ... while\<close> over the expansions of the cursor in the larger table. The fuel is the
  size of that table; running out of it would be \<^const>\<open>None\<close>.
\<close>

fun dictScan_expand ::
    "nat \<Rightarrow> ('k, 'v) dictht \<Rightarrow> uint64 \<Rightarrow> uint64 \<Rightarrow> uint64 \<Rightarrow> (('k \<times> 'v) list \<times> uint64) option" where
  "dictScan_expand 0 t1 m0 m1 v = None"
| "dictScan_expand (Suc fuel) t1 m0 m1 v = do {
     de \<leftarrow> bucket t1 (unat (v AND m1));
     v' \<leftarrow> Some (scan_step m0 v);
     if v' AND (m0 XOR m1) \<noteq> 0
     then map_option (\<lambda>(out, w). (de @ out, w)) (dictScan_expand fuel t1 m0 m1 v')
     else Some (de, v')
   }"

definition scan_next :: "uint64 \<Rightarrow> uint64 \<Rightarrow> uint64" where
  "scan_next m0 v = rev_ulong (rev_ulong (v OR NOT m0) + 1)"

text \<open>The result lists the entries passed to \<open>fn\<close> in order, and the cursor returned.\<close>

definition dictScan :: "('k, 'v) dict \<Rightarrow> uint64 \<Rightarrow> (('k \<times> 'v) list \<times> uint64) option" where
  "dictScan d v =
     (if dictSize d = 0 then Some ([], 0)
      else if \<not> dictIsRehashing d then
        (let m0 = of_nat (ht_sizemask (ht0 d)) in
         map_option (\<lambda>de. (de, scan_next m0 v)) (bucket (ht0 d) (unat (v AND m0))))
      else
        (let (t0, t1) = (if ht_size (ht0 d) > ht_size (ht1 d) then (ht1 d, ht0 d) else (ht0 d, ht1 d));
             m0 = of_nat (ht_sizemask t0);
             m1 = of_nat (ht_sizemask t1)
         in do {
           de \<leftarrow> bucket t0 (unat (v AND m0));
           (out, v') \<leftarrow> dictScan_expand (ht_size t1) t1 m0 m1 v;
           Some (de @ out, scan_next m0 v')
         }))"

section \<open>Bit reversal\<close>

lemma rev_loop_step: "0 < s \<Longrightarrow> rev_loop (2 * s) m v =
    rev_loop s (m XOR push_bit s m)
      ((drop_bit s v AND (m XOR push_bit s m)) OR (push_bit s v AND NOT (m XOR push_bit s m)))"
  by (subst rev_loop.simps) (simp add: Let_def)

lemma rev_loop_1: "rev_loop (Suc 0) m v = v"
  by (subst rev_loop.simps) simp

lemma rev_round_bit:
  fixes v m :: uint64
  assumes "i < 64"
  shows "bit ((drop_bit s v AND m) OR (push_bit s v AND NOT m)) i =
    (if bit m i then bit v (s + i) else s \<le> i \<and> bit v (i - s))"
  using assms by (auto simp: bit_simps)

text \<open>The index read after the rounds with shifts below \<open>2 ^ n\<close>.\<close>

definition rev_index :: "nat \<Rightarrow> nat \<Rightarrow> nat" where
  "rev_index n i = i div 2 ^ n * 2 ^ n + (2 ^ n - 1 - i mod 2 ^ n)"

lemma rev_index_table:
  "\<forall>n\<in>set [0..<6]. \<forall>i\<in>set [0..<64]. rev_index n i < 64 \<and> rev_index (Suc n) i =
     (if even (rev_index n i div 2 ^ n) then 2 ^ n + rev_index n i else rev_index n i - 2 ^ n)
     \<and> (odd (rev_index n i div 2 ^ n) \<longrightarrow> 2 ^ n \<le> rev_index n i)"
  by code_simp

lemma mask_halve_table:
  "\<forall>n\<in>set [0..<6]. \<forall>i\<in>set [0..<64::nat]. even (i div 2 ^ n) =
     (even (i div 2 ^ Suc n) \<noteq> (2 ^ n \<le> i \<and> even ((i - 2 ^ n) div 2 ^ Suc n)))"
  by code_simp

lemma mask_halve:
  fixes m :: uint64
  assumes "n < 6" "\<forall>i<64. bit m i = even (i div 2 ^ Suc n)" "i < 64"
  shows "bit (m XOR push_bit (2 ^ n) m) i = even (i div 2 ^ n)"
proof -
  have "bit (m XOR push_bit (2 ^ n) m) i = (bit m i \<noteq> (2 ^ n \<le> i \<and> bit m (i - 2 ^ n)))"
    using assms(3) by (simp add: bit_simps)
  then show ?thesis using assms mask_halve_table by auto
qed

lemma rev_loop_bit:
  "n \<le> 6 \<Longrightarrow> \<forall>i<64. bit m i = even (i div 2 ^ n) \<Longrightarrow> i < 64 \<Longrightarrow>
   bit (rev_loop (2 ^ n) m v) i = bit v (rev_index n i)"
proof (induction n arbitrary: m v)
  case 0
  then show ?case using rev_loop_1 by (simp add: rev_index_def)
next
  case (Suc n)
  have m': "\<forall>i<64. bit (m XOR push_bit (2 ^ n) m) i = even (i div 2 ^ n)"
    using mask_halve Suc.prems(1,2) by simp
  have t: "rev_index n i < 64" "rev_index (Suc n) i =
     (if even (rev_index n i div 2 ^ n) then 2 ^ n + rev_index n i else rev_index n i - 2 ^ n)"
     "odd (rev_index n i div 2 ^ n) \<Longrightarrow> 2 ^ n \<le> rev_index n i"
    using rev_index_table Suc.prems by auto
  show ?case using Suc.IH [OF _ m' Suc.prems(3)] Suc.prems(1) m' t
    by (simp add: rev_loop_step rev_round_bit)
qed

lemma bit_rev_ulong: "i < 64 \<Longrightarrow> bit (rev_ulong v) i = bit v (63 - i)"
  using rev_loop_bit [of 6 "NOT 0" i v] by (simp add: rev_ulong_def rev_index_def bit_simps)

lemma rev_ulong_rev [simp]: "rev_ulong (rev_ulong v) = v"
  by (rule bit_word_eqI) (simp add: bit_rev_ulong)

section \<open>The order of the cursors\<close>

definition rank :: "uint64 \<Rightarrow> nat" where
  "rank v = unat (rev_ulong v)"

lemma rank_0 [simp]: "rank 0 = 0"
proof -
  have "rev_ulong 0 = 0" by (rule bit_word_eqI) (simp add: bit_rev_ulong)
  then show ?thesis by (simp add: rank_def)
qed

lemma rank_eq_0 [simp]: "rank v = 0 \<longleftrightarrow> v = 0"
proof
  assume "rank v = 0"
  then have "rev_ulong v = 0" by (simp add: rank_def unat_eq_zero)
  then show "v = 0" using rank_0 by (metis rev_ulong_rev rank_def unat_eq_zero)
qed simp

lemma rank_less: "rank v < 2 ^ 64"
  unfolding rank_def using unsigned_less [of "rev_ulong v"] by simp

lemma unat_mask: "k \<le> 64 \<Longrightarrow> unat (mask k :: uint64) = mask k"
  by (rule bit_eqI) (auto simp: bit_unsigned_iff bit_mask_iff)

lemma unat_drop_bit_div: "unat (drop_bit n (w :: uint64)) = unat w div 2 ^ n"
  by (rule bit_eqI) (auto simp: bit_simps simp flip: drop_bit_eq_div)

lemma same_bucket_iff:
  assumes "k \<le> 64"
  shows "v AND mask k = h AND mask k \<longleftrightarrow> rank v div 2 ^ (64 - k) = rank h div 2 ^ (64 - k)"
proof -
  have "rank v div 2 ^ (64 - k) = rank h div 2 ^ (64 - k) \<longleftrightarrow>
      drop_bit (64 - k) (rev_ulong v) = drop_bit (64 - k) (rev_ulong h)"
    unfolding rank_def word_unat_eq_iff unat_drop_bit_div ..
  also have "\<dots> \<longleftrightarrow> (\<forall>i<k. bit v i = bit h i)"
  proof
    assume e: "drop_bit (64 - k) (rev_ulong v) = drop_bit (64 - k) (rev_ulong h)"
    show "\<forall>i<k. bit v i = bit h i"
    proof (intro allI impI)
      fix i assume "i < k"
      then have "bit (drop_bit (64 - k) (rev_ulong v)) (k - 1 - i) = bit v i"
        "bit (drop_bit (64 - k) (rev_ulong h)) (k - 1 - i) = bit h i"
        using assms by (simp_all add: bit_drop_bit_eq bit_rev_ulong)
      then show "bit v i = bit h i" using e by simp
    qed
  next
    assume e: "\<forall>i<k. bit v i = bit h i"
    show "drop_bit (64 - k) (rev_ulong v) = drop_bit (64 - k) (rev_ulong h)"
    proof (rule bit_word_eqI)
      fix n
      show "bit (drop_bit (64 - k) (rev_ulong v)) n = bit (drop_bit (64 - k) (rev_ulong h)) n"
      proof (cases "64 - k + n < 64")
        case True
        then have "63 - (64 - k + n) < k" using assms by linarith
        then show ?thesis using e True by (simp add: bit_drop_bit_eq bit_rev_ulong)
      qed (auto simp: bit_drop_bit_eq dest: bit_imp_le_length)
    qed
  qed
  also have "\<dots> \<longleftrightarrow> v AND mask k = h AND mask k"
    using assms by (auto simp: bit_eq_iff bit_simps) (meson less_le_trans)+
  finally show ?thesis by simp
qed

lemma or_mask_nat: "(a :: nat) OR mask n = a div 2 ^ n * 2 ^ n + (2 ^ n - 1)"
proof -
  have "a OR mask n = push_bit n (drop_bit n a) OR mask n"
    by (rule bit_eqI) (auto simp: bit_simps)
  also have "\<dots> = push_bit n (drop_bit n a) + mask n"
    by (rule disjunctive_add [symmetric]) (auto simp: bit_simps)
  finally show ?thesis by (simp add: push_bit_eq_mult drop_bit_eq_div mask_eq_exp_minus_1)
qed

lemma rank_scan_next:
  assumes "k \<le> 64"
  shows "rank (scan_next (mask k) v) = (rank v div 2 ^ (64 - k) + 1) * 2 ^ (64 - k) mod 2 ^ 64"
proof -
  have "rev_ulong (v OR NOT (mask k)) = rev_ulong v OR mask (64 - k)"
    using assms by (intro bit_word_eqI) (auto simp: bit_simps bit_rev_ulong)
  then have "rank (scan_next (mask k) v) = (unat (rev_ulong v OR mask (64 - k)) + 1) mod 2 ^ 64"
    by (simp add: scan_next_def rank_def unat_word_ariths)
  also have "unat (rev_ulong v OR mask (64 - k)) = rank v OR mask (64 - k)"
    by (simp add: unsigned_or_eq rank_def unat_mask)
  finally show ?thesis by (simp add: or_mask_nat add.commute)
qed

text \<open>One call covers the ranks from its cursor up to the cursor it returns; a returned 0 stands for the end.\<close>

lemma covered_bucket:
  assumes "k \<le> 64" "rank v \<le> rank h" "v' = scan_next (mask k) v" "v' = 0 \<or> rank h < rank v'"
  shows "h AND mask k = v AND mask k"
proof -
  define s :: nat where "s = 2 ^ (64 - k)"
  have s: "0 < s" by (simp add: s_def)
  define q where "q = rank v div s"
  have kk: "(2 :: nat) ^ 64 = 2 ^ k * s" using assms(1) by (simp add: s_def flip: power_add)
  have "q < 2 ^ k" unfolding q_def using rank_less [of v] kk by (simp add: less_mult_imp_div_less)
  then have le: "(q + 1) * s \<le> 2 ^ 64" using kk by (metis Suc_eq_plus1 Suc_leI mult_le_mono1)
  have r: "rank v' = (q + 1) * s mod 2 ^ 64" unfolding assms(3) q_def s_def using rank_scan_next [OF assms(1)] .
  have "rank h < (q + 1) * s"
  proof (cases "(q + 1) * s = 2 ^ 64")
    case True then show ?thesis using rank_less by metis
  next
    case False
    then have "rank v' = (q + 1) * s" using r le by simp
    moreover have "v' \<noteq> 0" using \<open>rank v' = (q + 1) * s\<close> s by (metis rank_0 mult_is_0 add_is_0 not_less0 one_neq_zero)
    ultimately show ?thesis using assms(4) by simp
  qed
  moreover have "q * s \<le> rank h" using assms(2) unfolding q_def by (meson div_times_less_eq_dividend le_trans)
  ultimately have "rank h div s = q" by (intro div_nat_eqI) (simp_all add: mult.commute)
  then show ?thesis using same_bucket_iff [OF assms(1), of h v] by (simp add: q_def s_def)
qed

lemma mask_of_size:
  assumes "ht_alloc cx t"
  obtains k where "2 \<le> k" "k \<le> 31" "ht_size t = 2 ^ k" "of_nat (ht_sizemask t) = (mask k :: uint64)"
    "ht_sizemask t = mask k"
  using assms by (auto simp: ht_alloc_def mask_eq_exp_minus_1 of_nat_diff)

lemma unat_and_mask: "k \<le> 64 \<Longrightarrow> unat ((of_nat h :: uint64) AND mask k) = h AND mask k"
  by (rule bit_eqI) (auto simp: bit_simps bit_unsigned_iff)

section \<open>One call\<close>

lemma unat_low_high: "unat (v :: uint64) = unat (v AND mask k) + unat (drop_bit k v) * 2 ^ k"
proof -
  have "unat v = take_bit k (unat v) + push_bit k (drop_bit k (unat v))"
    by (simp only: take_bit_eq_mod push_bit_eq_mult drop_bit_eq_div mod_mult_div_eq mod_div_mult_eq)
  then show ?thesis
    by (simp add: push_bit_eq_mult unat_drop_bit_eq unsigned_take_bit_eq flip: take_bit_eq_mask)
qed

lemma scan_step_plus:
  assumes "k < 64"
  shows "scan_step (mask k) v = v + 2 ^ k"
proof -
  have a: "v OR mask k = (v AND NOT (mask k)) + mask k"
    by (subst disjunctive_add) (auto simp: bit_simps intro: bit_eqI)
  have b: "(v OR mask k) + 1 = (v AND NOT (mask k)) + 2 ^ k"
    unfolding a by (simp add: mask_eq_exp_minus_1)
  define w where "w = (v AND NOT (mask k)) + 2 ^ k"
  have "v AND NOT (mask k) = push_bit k (drop_bit k v)" by (rule bit_word_eqI) (auto simp: bit_simps)
  then have "w = push_bit k (drop_bit k v + 1)" by (simp add: w_def push_bit_eq_mult algebra_simps)
  then have nb: "\<not> (bit w n \<and> n < k)" for n by (auto simp: bit_simps)
  have "scan_step (mask k) v = w OR (v AND mask k)"
    unfolding scan_step_def b w_def [symmetric] using nb by (intro bit_eqI) (auto simp: bit_simps)
  also have "\<dots> = w + (v AND mask k)"
    using nb by (intro disjunctive_add [symmetric]) (auto simp: bit_simps)
  also have "\<dots> = (v AND NOT (mask k)) + (v AND mask k) + 2 ^ k" by (simp add: w_def)
  also have "(v AND NOT (mask k)) + (v AND mask k) = v"
    by (subst disjunctive_add) (auto simp: bit_simps intro: bit_eqI)
  finally show ?thesis .
qed

lemma unat_and_mask_mod: "k \<le> 64 \<Longrightarrow> unat (v AND (mask k :: uint64)) = unat v mod 2 ^ k"
  by (simp only: unsigned_take_bit_eq flip: take_bit_eq_mod take_bit_eq_mask)

lemma scan_step_index:
  assumes "k \<le> k1" "k1 < 64" "unat (v AND mask k1) = lo + j * 2 ^ k" "lo < 2 ^ k" "j < 2 ^ (k1 - k)"
  shows "unat (scan_step (mask k) v AND mask k1) = (if Suc j < 2 ^ (k1 - k) then lo + Suc j * 2 ^ k else lo)"
proof -
  have k1: "(2 :: nat) ^ k1 = 2 ^ (k1 - k) * 2 ^ k" using assms(1) by (simp flip: power_add)
  have dv: "(2 :: nat) ^ k1 dvd 2 ^ 64" using assms(2) by (intro le_imp_power_dvd) simp
  have p: "unat (2 ^ k :: uint64) = 2 ^ k" using assms(1,2) by (intro bit_eqI) (auto simp: bit_unsigned_iff bit_exp_iff)
  have "unat (scan_step (mask k) v AND mask k1) = (unat v + 2 ^ k) mod 2 ^ 64 mod 2 ^ k1"
    using assms(1,2) p by (simp add: scan_step_plus unat_and_mask_mod unat_word_ariths)
  also have "\<dots> = (unat v + 2 ^ k) mod 2 ^ k1" by (rule mod_mod_cancel [OF dv])
  also have "\<dots> = (unat v mod 2 ^ k1 + 2 ^ k) mod 2 ^ k1" by (simp add: mod_simps)
  also have "unat v mod 2 ^ k1 = lo + j * 2 ^ k" using assms(2,3) by (simp add: unat_and_mask_mod)
  also have "(lo + j * 2 ^ k + 2 ^ k) mod 2 ^ k1 = (lo + Suc j * 2 ^ k) mod 2 ^ k1" by (simp add: ac_simps)
  also have "\<dots> = (if Suc j < 2 ^ (k1 - k) then lo + Suc j * 2 ^ k else lo)"
  proof (cases "Suc j < 2 ^ (k1 - k)")
    case True
    then have "Suc (Suc j) * 2 ^ k \<le> 2 ^ k1" unfolding k1 by (intro mult_le_mono1) simp
    then have "lo + Suc j * 2 ^ k < 2 ^ k1" using assms(4) by simp
    then show ?thesis using True by simp
  next
    case False
    then have "Suc j * 2 ^ k = 2 ^ k1" using assms(5) k1 by (metis Suc_lessI)
    moreover have "lo < 2 ^ k1" using assms(4,1) by (meson less_le_trans power_increasing one_le_numeral)
    ultimately show ?thesis using False by (metis mod_add_self2 mod_less)
  qed
  finally show ?thesis .
qed

lemma scan_stop_iff:
  fixes v :: uint64
  assumes "k \<le> k1" "k1 < 64"
  shows "v AND (mask k XOR mask k1) = 0 \<longleftrightarrow> unat (v AND mask k1) < (2 :: nat) ^ k"
proof -
  have "v AND (mask k XOR mask k1) = 0 \<longleftrightarrow> v AND mask k1 = (v AND mask k1) AND mask k"
    using assms by (auto simp: bit_eq_iff bit_simps)
  also have "\<dots> \<longleftrightarrow> unat (v AND mask k1) = unat (v AND mask k1) mod 2 ^ k"
    using assms by (simp only: word_unat_eq_iff unat_and_mask_mod [of k])
  also have "\<dots> \<longleftrightarrow> unat (v AND mask k1) < 2 ^ k"
    by (metis mod_less mod_less_divisor zero_less_numeral zero_less_power)
  finally show ?thesis .
qed

lemma and_mask_scan_step:
  assumes "k < 64"
  shows "scan_step (mask k) v AND mask k = v AND mask k"
  unfolding scan_step_def by (rule bit_word_eqI) (auto simp: bit_simps)

lemma dictScan_expand_correct:
  assumes "k \<le> k1" "k1 < 64" "length (ht_table t1) = 2 ^ k1" "lo < 2 ^ k"
    "unat (v AND mask k1) = lo + j * 2 ^ k" "j < 2 ^ (k1 - k)" "2 ^ (k1 - k) - j \<le> fuel"
  shows "\<exists>out v'. dictScan_expand fuel t1 (mask k) (mask k1) v = Some (out, v') \<and>
    v' AND mask k = v AND mask k \<and> set out \<subseteq> set (concat (ht_table t1)) \<and>
    (\<forall>j'. j \<le> j' \<and> j' < 2 ^ (k1 - k) \<longrightarrow> set (ht_table t1 ! (lo + j' * 2 ^ k)) \<subseteq> set out)"
  using assms(5-)
proof (induction fuel arbitrary: v j)
  case 0
  then show ?case by simp
next
  case (Suc fuel)
  define idx where "idx = lo + j * 2 ^ k"
  have "unat (v AND mask k1) < 2 ^ k1" using assms(2) by (simp add: unat_and_mask_mod)
  then have idx: "idx < length (ht_table t1)" using Suc.prems(1) assms(3) by (simp add: idx_def)
  then have mem: "set (ht_table t1 ! idx) \<subseteq> set (concat (ht_table t1))" by (auto intro: nth_mem)
  let ?v = "scan_step (mask k) v"
  note nx = scan_step_index [OF assms(1,2) Suc.prems(1) assms(4) Suc.prems(2)]
  have same: "?v AND mask k = v AND mask k" using and_mask_scan_step assms(1,2) by simp
  show ?case
  proof (cases "Suc j < 2 ^ (k1 - k)")
    case True
    then have v': "unat (?v AND mask k1) = lo + Suc j * 2 ^ k" using nx by simp
    moreover have "\<not> lo + Suc j * 2 ^ k < 2 ^ k" by simp
    ultimately have go: "?v AND (mask k XOR mask k1) \<noteq> 0" using scan_stop_iff [OF assms(1,2)] by metis
    have fl: "2 ^ (k1 - k) - Suc j \<le> fuel" using Suc.prems(3) by linarith
    obtain out w where o: "dictScan_expand fuel t1 (mask k) (mask k1) ?v = Some (out, w)"
      "w AND mask k = v AND mask k" "set out \<subseteq> set (concat (ht_table t1))"
      "\<forall>j'. Suc j \<le> j' \<and> j' < 2 ^ (k1 - k) \<longrightarrow> set (ht_table t1 ! (lo + j' * 2 ^ k)) \<subseteq> set out"
      using Suc.IH [OF v' True fl] same by auto
    have "dictScan_expand (Suc fuel) t1 (mask k) (mask k1) v = Some (ht_table t1 ! idx @ out, w)"
      using Suc.prems(1) idx go o(1) by (simp add: bucket_def idx_def)
    moreover have "set (ht_table t1 ! (lo + j' * 2 ^ k)) \<subseteq> set (ht_table t1 ! idx @ out)"
      if "j \<le> j' \<and> j' < 2 ^ (k1 - k)" for j'
    proof (cases "j' = j")
      case False
      then have "set (ht_table t1 ! (lo + j' * 2 ^ k)) \<subseteq> set out" using o(4) that by simp
      then show ?thesis by auto
    qed (simp add: idx_def)
    ultimately show ?thesis using o(2,3) mem by auto
  next
    case False
    then have "unat (?v AND mask k1) < 2 ^ k" using nx assms(4) by simp
    then have "?v AND (mask k XOR mask k1) = 0" using scan_stop_iff [OF assms(1,2)] by blast
    then have "dictScan_expand (Suc fuel) t1 (mask k) (mask k1) v = Some (ht_table t1 ! idx, ?v)"
      using Suc.prems(1) idx by (simp add: bucket_def idx_def)
    moreover have "j' = j" if "j \<le> j' \<and> j' < 2 ^ (k1 - k)" for j' using that False Suc.prems(2) by linarith
    ultimately show ?thesis using same mem by (auto simp: idx_def)
  qed
qed

definition scan_table :: "('k, 'v) dict \<Rightarrow> ('k, 'v) dictht" where
  "scan_table d = (if dictIsRehashing d \<and> ht_size (ht0 d) > ht_size (ht1 d) then ht1 d else ht0 d)"

lemma scan_next_cong:
  assumes "v AND m = w AND m"
  shows "scan_next m v = scan_next m w"
proof -
  have "v OR NOT m = (v AND m) OR NOT m" "w OR NOT m = (w AND m) OR NOT m"
    by (rule bit_word_eqI, auto simp: bit_simps)+
  then show ?thesis using assms by (simp add: scan_next_def)
qed

lemma entry_bucket:
  assumes "ht_alloc cx t" "e \<in># ht_entries t" "ht_sizemask t = mask k" "k \<le> 64"
  shows "e \<in> set (ht_table t ! unat ((of_nat (hashFunction cx (fst e)) :: uint64) AND mask k))"
proof -
  obtain i where i: "i < length (ht_table t)" "e \<in> set (ht_table t ! i)"
    using assms(2) unfolding ht_entries_def by (metis in_set_conv_nth set_concat set_mset_mset UN_E)
  then have "hashFunction cx (fst e) AND mask k = i" using ht_alloc_placed [OF assms(1)] assms(3) by auto
  then show ?thesis using i(2) assms(4) by (simp add: unat_and_mask)
qed

lemma bucket_at_cursor:
  fixes v :: uint64
  assumes "ht_alloc cx t" "ht_sizemask t = mask k" "k \<le> 64"
  shows "bucket t (unat (v AND mask k)) = Some (ht_table t ! unat (v AND mask k))"
    "set (ht_table t ! unat (v AND mask k)) \<subseteq> set_mset (ht_entries t)"
proof -
  have "unat (v AND mask k) = unat v AND ht_sizemask t"
    using assms(2,3) by (simp add: unsigned_and_eq unat_mask)
  then have i: "unat (v AND mask k) < length (ht_table t)" using ht_alloc_index [OF assms(1)] by simp
  then show "bucket t (unat (v AND mask k)) = Some (ht_table t ! unat (v AND mask k))" by (simp add: bucket_def)
  then show "set (ht_table t ! unat (v AND mask k)) \<subseteq> set_mset (ht_entries t)"
    using bucket_entry by (metis subsetI)
qed

lemma expansion_bucket:
  assumes "k \<le> k1" "k1 < 64" "h AND mask k = v AND (mask k :: uint64)"
  obtains j where "j < 2 ^ (k1 - k)" "unat (h AND mask k1) = unat (v AND mask k) + j * 2 ^ k"
proof
  let ?j = "unat h div 2 ^ k mod 2 ^ (k1 - k)"
  show "?j < 2 ^ (k1 - k)" by simp
  have "unat (h AND mask k1) = unat h mod (2 ^ k * 2 ^ (k1 - k))"
    using assms(1,2) by (simp add: unat_and_mask_mod flip: power_add)
  also have "\<dots> = unat h mod 2 ^ k + ?j * 2 ^ k" by (simp add: mod_mult2_eq)
  also have "unat h mod 2 ^ k = unat (v AND mask k)"
    using assms unat_and_mask_mod [of k h] by simp
  finally show "unat (h AND mask k1) = unat (v AND mask k) + ?j * 2 ^ k" .
qed

lemma expand_emits:
  assumes "ht_alloc cx t1" "ht_sizemask t1 = mask k1" "ht_size t1 = 2 ^ k1" "k \<le> k1" "k1 < 64"
    "v AND (mask k XOR mask k1) = 0"
  shows "\<exists>out v'. dictScan_expand (ht_size t1) t1 (mask k) (mask k1) v = Some (out, v') \<and>
    v' AND mask k = v AND mask k \<and> set out \<subseteq> set_mset (ht_entries t1) \<and>
    (\<forall>e \<in># ht_entries t1. of_nat (hashFunction cx (fst e)) AND mask k = v AND mask k \<longrightarrow> e \<in> set out)"
proof -
  have "v AND mask k1 = v AND mask k"
    using assms(4-6) by (auto simp: bit_eq_iff bit_simps)
  then have v: "unat (v AND mask k1) = unat (v AND mask k) + 0 * 2 ^ k" by simp
  have lo: "unat (v AND mask k) < 2 ^ k" using assms(4,5) by (simp add: unat_and_mask_mod)
  have fuel: "2 ^ (k1 - k) - 0 \<le> ht_size t1" using assms(3,4) by simp
  have len: "length (ht_table t1) = 2 ^ k1" using assms(1,3) by (simp add: ht_alloc_def)
  obtain out v' where o: "dictScan_expand (ht_size t1) t1 (mask k) (mask k1) v = Some (out, v')"
    "v' AND mask k = v AND mask k" "set out \<subseteq> set (concat (ht_table t1))"
    "\<forall>j. j < 2 ^ (k1 - k) \<longrightarrow> set (ht_table t1 ! (unat (v AND mask k) + j * 2 ^ k)) \<subseteq> set out"
    using dictScan_expand_correct [OF assms(4,5) len lo v _ fuel] by auto
  have "e \<in> set out" if e: "e \<in># ht_entries t1"
    "of_nat (hashFunction cx (fst e)) AND mask k = v AND mask k" for e
  proof -
    obtain j where "j < 2 ^ (k1 - k)" "unat ((of_nat (hashFunction cx (fst e)) :: uint64) AND mask k1) =
        unat (v AND mask k) + j * 2 ^ k"
      using expansion_bucket [OF assms(4,5) e(2)] by blast
    then show ?thesis using o(4) entry_bucket [OF assms(1) e(1) assms(2)] assms(5) by auto
  qed
  then show ?thesis using o by (auto simp: ht_entries_def)
qed

lemma dictSize_pos: "dict_inv cx d \<Longrightarrow> dictSize d = size (dict_entries d)"
proof -
  assume i: "dict_inv cx d"
  then have "ht_used (ht0 d) + ht_used (ht1 d) = size (dict_entries d)"
    by (auto simp: dict_inv_def dict_entries_def ht_alloc_def dictReset_def ht_entries_def split: if_splits)
  then show ?thesis using dict_inv_common(1) [OF i] by (simp add: dictSize_def u64_def dict_cap_def)
qed

lemma dictScan_call:
  assumes i: "dict_inv cx d" and ne: "dict_entries d \<noteq> {#}" and k: "ht_size (scan_table d) = 2 ^ k"
    and v: "v AND NOT (mask k) = 0"
  shows "\<exists>out. dictScan d v = Some (out, scan_next (mask k) v) \<and> set out \<subseteq> set_mset (dict_entries d) \<and>
    (\<forall>e \<in># dict_entries d. of_nat (hashFunction cx (fst e)) AND mask k = v AND mask k \<longrightarrow> e \<in> set out)"
proof (cases "dictIsRehashing d")
  case False
  have t: "ht_alloc cx (ht0 d)" "ht_entries (ht0 d) = dict_entries d" "dictSize d \<noteq> 0"
    using i ne False dict_inv_empty [OF i] dictSize_pos [OF i] by (auto simp: dict_inv_def dict_entries_def)
  obtain k' where k': "k' \<le> 31" "ht_size (ht0 d) = 2 ^ k'" "of_nat (ht_sizemask (ht0 d)) = (mask k' :: uint64)"
    "ht_sizemask (ht0 d) = mask k'" using mask_of_size [OF t(1)] by metis
  have [simp]: "k' = k" using k k'(2) False by (simp add: scan_table_def)
  have "e \<in> set (ht_table (ht0 d) ! unat (v AND mask k))"
    if "e \<in># dict_entries d" "of_nat (hashFunction cx (fst e)) AND mask k = v AND mask k" for e
    using entry_bucket [OF t(1), of e k] that t(2) k' by simp
  then show ?thesis
    using bucket_at_cursor [OF t(1), of k v] t k' False by (auto simp: dictScan_def Let_def)
next
  case True
  define t0 where "t0 = scan_table d"
  define t1 where "t1 = (if ht_size (ht0 d) > ht_size (ht1 d) then ht0 d else ht1 d)"
  have a: "ht_alloc cx t0" "ht_alloc cx t1" "ht_size t0 \<le> ht_size t1"
    "dict_entries d = ht_entries t0 + ht_entries t1"
    using dict_inv_rehashing [OF i True] True by (auto simp: t0_def t1_def scan_table_def dict_entries_def)
  obtain k0 where k0: "k0 \<le> 31" "ht_size t0 = 2 ^ k0" "of_nat (ht_sizemask t0) = (mask k0 :: uint64)"
    "ht_sizemask t0 = mask k0" using mask_of_size [OF a(1)] by metis
  obtain k1 where k1: "k1 \<le> 31" "ht_size t1 = 2 ^ k1" "of_nat (ht_sizemask t1) = (mask k1 :: uint64)"
    "ht_sizemask t1 = mask k1" using mask_of_size [OF a(2)] by metis
  have [simp]: "k0 = k" using k k0(2) by (simp add: t0_def)
  have kk: "k \<le> k1" "k1 < 64" using a(3) k0(2) k1(1,2) by (simp_all add: power_increasing_iff)
  have c: "v AND (mask k XOR mask k1) = 0"
    using v kk by (auto simp: bit_eq_iff bit_simps)
  obtain out v' where o: "dictScan_expand (ht_size t1) t1 (mask k) (mask k1) v = Some (out, v')"
    "v' AND mask k = v AND mask k" "set out \<subseteq> set_mset (ht_entries t1)"
    "\<forall>e \<in># ht_entries t1. of_nat (hashFunction cx (fst e)) AND mask k = v AND mask k \<longrightarrow> e \<in> set out"
    using expand_emits [OF a(2) k1(4,2) kk c] by blast
  have b: "bucket t0 (unat (v AND mask k)) = Some (ht_table t0 ! unat (v AND mask k))"
    "set (ht_table t0 ! unat (v AND mask k)) \<subseteq> set_mset (ht_entries t0)"
    using bucket_at_cursor [OF a(1) k0(4)] k0(1) by simp_all
  have "(if ht_size (ht0 d) > ht_size (ht1 d) then (ht1 d, ht0 d) else (ht0 d, ht1 d)) = (t0, t1)"
    using True by (simp add: t0_def t1_def scan_table_def)
  then have "dictScan d v = Some (ht_table t0 ! unat (v AND mask k) @ out, scan_next (mask k) v)"
    using True ne dictSize_pos [OF i] b(1) o(1) scan_next_cong [OF o(2)] k0 k1 by (simp add: dictScan_def Let_def)
  moreover have "e \<in> set (ht_table t0 ! unat (v AND mask k))"
    if "e \<in># ht_entries t0" "of_nat (hashFunction cx (fst e)) AND mask k = v AND mask k" for e
    using entry_bucket [OF a(1) that(1) k0(4)] that(2) k0(1) by simp
  ultimately show ?thesis using b(2) o(3,4) a(4) by auto
qed

section \<open>Whole scans\<close>

text \<open>
  The client's loop: the states of the dictionary at the successive calls are given as a list, so
  anything may happen between two calls. The loop ends when the cursor is 0 again.
\<close>

fun scan_run :: "('k, 'v) dict list \<Rightarrow> uint64 \<Rightarrow> (('k \<times> 'v) list \<times> uint64) option" where
  "scan_run [] v = Some ([], v)"
| "scan_run (d # ds) v = do {
     (out, v') \<leftarrow> dictScan d v;
     if v' = 0 then Some (out, 0)
     else map_option (\<lambda>(out', w). (out @ out', w)) (scan_run ds v')
   }"

lemma scan_next_high:
  assumes "k \<le> 64"
  shows "scan_next (mask k) v AND NOT (mask k) = 0"
proof -
  have "2 ^ (64 - k) dvd rank (scan_next (mask k) v)"
    unfolding rank_scan_next [OF assms] by (intro dvd_mod le_imp_power_dvd dvd_triv_right) simp
  then have "take_bit (64 - k) (unat (rev_ulong (scan_next (mask k) v))) = 0"
    by (simp add: rank_def take_bit_eq_mod)
  then have z: "\<not> bit (rev_ulong (scan_next (mask k) v)) n" if "n < 64 - k" for n
    using that by (metis bit_0 bit_take_bit_iff bit_unsigned_iff bit_0_eq bot_apply bot_bool_def bit_imp_le_length not_le possible_bit_nat)
  show ?thesis
  proof (rule bit_word_eqI)
    fix n assume "n < LENGTH(64)"
    then show "bit (scan_next (mask k) v AND NOT (mask k)) n = bit (0 :: uint64) n"
      using z [of "63 - n"] bit_rev_ulong [of "63 - n" "scan_next (mask k) v"] assms
      by (cases "n < k") (auto simp: bit_simps)
  qed
qed

lemma scan_run_covers:
  assumes "scan_run ds v = Some (out, 0)" "\<forall>d\<in>set ds. dict_inv cx d \<and> key \<in> dom (dict_map d)"
    "sorted (map (ht_size \<circ> scan_table) ds)" "ds \<noteq> []" "2 ^ k \<le> ht_size (scan_table (hd ds))" "k \<le> 31"
    "v AND NOT (mask k) = 0" "rank v \<le> rank (of_nat (hashFunction cx key))"
  shows "key \<in> fst ` set out"
  using assms
proof (induction ds arbitrary: v out k)
  case (Cons d ds)
  let ?h = "of_nat (hashFunction cx key) :: uint64"
  have i: "dict_inv cx d" and kd: "key \<in> dom (dict_map d)" using Cons.prems(2) by auto
  have mem: "key \<in> fst ` set_mset (dict_entries d)"
    using kd mset_dict_list [of d] by (metis dict_map_def dom_map_of_conv_image_fst set_mset_mset)
  then have ne: "dict_entries d \<noteq> {#}" by auto
  then have "ht_alloc cx (scan_table d)"
    using i dict_inv_empty [OF i] dict_inv_alloc [OF i] dict_inv_rehashing [OF i] by (auto simp: scan_table_def)
  then obtain k' where k': "k' \<le> 31" "ht_size (scan_table d) = 2 ^ k'" using mask_of_size by metis
  have kk: "k \<le> k'" using Cons.prems(5) k'(2) by (simp add: power_increasing_iff)
  have v: "v AND NOT (mask k') = 0" using Cons.prems(7) kk by (auto simp: bit_eq_iff bit_simps)
  let ?v = "scan_next (mask k') v"
  obtain o1 where o: "dictScan d v = Some (o1, ?v)"
    "\<forall>e \<in># dict_entries d. of_nat (hashFunction cx (fst e)) AND mask k' = v AND mask k' \<longrightarrow> e \<in> set o1"
    using dictScan_call [OF i ne k'(2) v] by blast
  show ?case
  proof (cases "?v = 0 \<or> rank ?h < rank ?v")
    case True
    then have "?h AND mask k' = v AND mask k'"
      using covered_bucket [OF _ Cons.prems(8) refl, of k'] k'(1) by simp
    then have "key \<in> fst ` set o1" using mem o(2) by force
    moreover have "set o1 \<subseteq> set out" using Cons.prems(1) o(1) by (auto split: if_splits)
    ultimately show ?thesis by auto
  next
    case False
    then obtain o2 where o2: "scan_run ds ?v = Some (o2, 0)" "out = o1 @ o2" using Cons.prems(1) o(1) by auto
    have dsne: "ds \<noteq> []" using o2(1) False by auto
    then have hd: "2 ^ k' \<le> ht_size (scan_table (hd ds))"
      using Cons.prems(3) k'(2) by (cases ds) auto
    have "key \<in> fst ` set o2"
      by (rule Cons.IH [OF o2(1) _ _ dsne hd k'(1) scan_next_high])
        (use Cons.prems(2,3) k'(1) False in auto)
    then show ?thesis using o2(2) by auto
  qed
qed simp

text \<open>Property C4: a cursor scan (dictScan called from cursor 0 until it returns 0) reports every key
  that is present during the whole scan, whatever is inserted, deleted or rehashed between the
  calls, provided the smaller of the two tables never shrinks during the scan.\<close>
theorem dictScan_complete:
  assumes "scan_run ds 0 = Some (out, 0)" "ds \<noteq> []"
    "\<forall>d\<in>set ds. dict_inv cx d \<and> key \<in> dom (dict_map d)"
    "sorted (map (ht_size \<circ> scan_table) ds)"
  shows "key \<in> fst ` set out"
proof -
  have "dict_inv cx (hd ds)" "key \<in> dom (dict_map (hd ds))" using assms(2,3) by auto
  then have "dict_entries (hd ds) \<noteq> {#}"
    using mset_dict_list [of "hd ds"] by (auto simp: dict_map_def)
  then have "0 < ht_size (scan_table (hd ds))"
    using dict_inv_empty [of cx "hd ds"] dict_inv_alloc [of cx "hd ds"] dict_inv_rehashing(2) [of cx "hd ds"]
      \<open>dict_inv cx (hd ds)\<close> ht_alloc_size_pos by (fastforce simp: scan_table_def)
  then show ?thesis
    by (intro scan_run_covers [OF assms(1,3,4,2), of 0]) auto
qed

definition scan_old :: "(nat, nat) dict" where
  "scan_old = dictCreate\<lparr>ht0 := \<lparr>ht_table = (replicate 16 [])[4 := [(4, 0)]], ht_size = 16, ht_sizemask = 15, ht_used = 1\<rparr>\<rparr>"

definition scan_shrunk :: "(nat, nat) dict" where
  "scan_shrunk = fst (dictResize (eq_ctx id True False) scan_old)"

lemmas rev_loop_eval = rev_loop_step [of 32, simplified] rev_loop_step [of 16, simplified]
  rev_loop_step [of 8, simplified] rev_loop_step [of 4, simplified] rev_loop_step [of 2, simplified]
  rev_loop_step [of 1, simplified] rev_loop_1

lemma scan_next_eval:
  "scan_next 15 0 = 8" "scan_next 3 16 = 2" "scan_next 3 18 = 1" "scan_next 3 17 = 3" "scan_next 3 19 = 0"
  by (simp_all add: scan_next_def rev_ulong_def rev_loop_eval mask_eq_exp_minus_1)

lemma scan_shrunk_eq: "scan_shrunk = \<lparr>ht0 = ht0 scan_old,
    ht1 = \<lparr>ht_table = replicate 4 [], ht_size = 4, ht_sizemask = 3, ht_used = 0\<rparr>, rehashidx = 0, iterators = 0\<rparr>"
  by (simp add: scan_shrunk_def scan_old_def dictResize_def dictExpand_def eq_ctx_def dictIsRehashing_def dictCreate_def
      dictNextPower_def dictNextPower_loop.simps DICT_HT_INITIAL_SIZE_def LONG_MAX_def dictReset_def int_of_u32_def)

lemma scan_old_concat: "concat (ht_table (ht0 scan_old)) = [(4, 0)]"
  by code_simp

lemma scan_old_inv: "dict_inv (eq_ctx id True False) scan_old"
proof -
  have "placed (eq_ctx id True False) (ht0 scan_old)"
    by (auto simp: placed_def scan_old_def eq_ctx_def nth_list_update and_nat_def split: if_splits)
  moreover have "\<exists>n\<in>{2..31}. (16::nat) = 2 ^ n" by (rule bexI [of _ 4]) auto
  ultimately show ?thesis
    by (simp add: dict_inv_def ht_alloc_def dictIsRehashing_def dict_entries_def ht_entries_def dict_cap_def dict_list_def)
       (simp add: scan_old_concat, simp add: scan_old_def dictCreate_def dictReset_def)
qed

lemma scan_shrunk_inv: "dict_inv (eq_ctx id True False) scan_shrunk"
proof -
  have "ht_alloc (eq_ctx id True False) (ht0 scan_old)"
    using scan_old_inv by (rule dict_inv_alloc) (simp add: scan_old_def)
  moreover have "ht_alloc (eq_ctx id True False) (ht1 scan_shrunk)"
    unfolding scan_shrunk_eq by (auto simp: ht_alloc_def placed_def ht_entries_def intro: bexI [of _ 2])
  moreover have "dict_entries scan_shrunk = dict_entries scan_old" "dict_list scan_shrunk = dict_list scan_old"
    by (simp_all add: scan_shrunk_eq scan_old_def dictCreate_def dict_entries_def ht_entries_def dict_list_def dictReset_def)
  ultimately show ?thesis using dict_inv_common [OF scan_old_inv]
    by (simp add: dict_inv_def dictIsRehashing_def) (simp add: scan_shrunk_eq)
qed

lemma expand_unfold: "0 < fuel \<Longrightarrow> dictScan_expand fuel t1 m0 m1 v = do {
     de \<leftarrow> bucket t1 (unat (v AND m1));
     if scan_step m0 v AND (m0 XOR m1) \<noteq> 0
     then map_option (\<lambda>(out, w). (de @ out, w)) (dictScan_expand (fuel - 1) t1 m0 m1 (scan_step m0 v))
     else Some (de, scan_step m0 v)
   }"
  by (cases fuel) (simp_all cong: if_cong)

text \<open>Property C29: when the table shrinks to a quarter in the middle of a scan, dictScan misses a key
  that is present from the first call to the last one: the loop over the expansions of the
  cursor starts at the cursor's own high bits, and skips the expansions below them that were
  not visited before.\<close>
theorem dictScan_misses_key_after_shrink:
  "dict_inv (eq_ctx id True False) scan_old \<and> dict_inv (eq_ctx id True False) scan_shrunk \<and>
   scan_shrunk = fst (dictResize (eq_ctx id True False) scan_old) \<and>
   dict_map scan_old 4 = Some 0 \<and> dict_map scan_shrunk 4 = Some 0 \<and>
   scan_run [scan_old, scan_shrunk, scan_shrunk, scan_shrunk, scan_shrunk] 0 = Some ([], 0)"
proof -
  have o: "dict_map scan_old 4 = Some 0" "dict_map scan_shrunk 4 = Some 0"
    by (simp_all add: dict_map_def dict_list_def scan_shrunk_eq scan_old_concat)
  have c0: "dictScan scan_old 0 = Some ([], 8)"
    by (simp add: dictScan_def scan_old_def dictCreate_def dictSize_def u64_def dictIsRehashing_def dictReset_def
        bucket_def scan_next_eval)
  note ev = dictScan_def scan_shrunk_eq scan_old_def dictSize_def u64_def dictIsRehashing_def
    bucket_def scan_next_eval scan_step_def expand_unfold
  have c: "dictScan scan_shrunk 8 = Some ([], 2)" "dictScan scan_shrunk 2 = Some ([], 1)"
    "dictScan scan_shrunk 1 = Some ([], 3)" "dictScan scan_shrunk 3 = Some ([], 0)"
    by (simp_all add: ev)
  show ?thesis using scan_old_inv scan_shrunk_inv o c0 c by (simp add: scan_shrunk_def)
qed

theorem dictScan_complete_witness:
  "4 \<in> fst ` set [(4 :: nat, 0 :: nat)] \<and> scan_run (replicate 4 scan_shrunk) 0 = Some ([(4, 0)], 0)"
proof -
  note ev = dictScan_def scan_shrunk_eq scan_old_def dictSize_def u64_def dictIsRehashing_def
    bucket_def scan_next_eval scan_step_def expand_unfold
  have c: "dictScan scan_shrunk 0 = Some ([(4, 0)], 2)" "dictScan scan_shrunk 2 = Some ([], 1)"
    "dictScan scan_shrunk 1 = Some ([], 3)" "dictScan scan_shrunk 3 = Some ([], 0)"
    by (simp_all add: ev)
  then have r: "scan_run (replicate 4 scan_shrunk) 0 = Some ([(4, 0)], 0)" by (simp add: numeral_eq_Suc)
  have "dict_map scan_shrunk 4 = Some 0" by (simp add: dict_map_def dict_list_def scan_shrunk_eq scan_old_concat)
  then show ?thesis
    using dictScan_complete [OF r, of "eq_ctx id True False" 4] scan_shrunk_inv r by (simp add: dom_def)
qed

lemma scan_run_returns:
  assumes i: "dict_inv cx d" and ne: "dict_entries d \<noteq> {#}" and k: "ht_size (scan_table d) = 2 ^ k" "k \<le> 31"
  shows "0 < n \<Longrightarrow> n \<le> 2 ^ k \<Longrightarrow> rank v = (2 ^ k - n) * 2 ^ (64 - k) \<Longrightarrow> v AND NOT (mask k) = 0 \<Longrightarrow>
    \<exists>out. scan_run (replicate n d) v = Some (out, 0) \<and> set out \<subseteq> set_mset (dict_entries d)"
proof (induction n arbitrary: v)
  case (Suc n)
  let ?v = "scan_next (mask k) v"
  obtain o1 where o: "dictScan d v = Some (o1, ?v)" "set o1 \<subseteq> set_mset (dict_entries d)"
    using dictScan_call [OF i ne k(1) Suc.prems(4)] by blast
  have "rank ?v = (2 ^ k - n) * 2 ^ (64 - k) mod 2 ^ 64"
    using rank_scan_next [of k v] k(2) Suc.prems(2,3) by (simp add: Suc_diff_Suc)
  moreover have p: "(2 :: nat) ^ 64 = 2 ^ k * 2 ^ (64 - k)" using k(2) by (simp flip: power_add)
  moreover have "(2 ^ k - n) * 2 ^ (64 - k) < (2 :: nat) ^ 64" if "n \<noteq> 0"
    unfolding p using that Suc.prems(2) by (intro mult_less_mono1) auto
  ultimately have r: "rank ?v = (if n = 0 then 0 else (2 ^ k - n) * 2 ^ (64 - k))" by auto
  show ?case
  proof (cases "n = 0")
    case True
    then have "?v = 0" using r by simp
    then show ?thesis using o True by simp
  next
    case False
    then have "rank ?v \<noteq> 0" using r Suc.prems(2) by simp
    then have "?v \<noteq> 0" by simp
    moreover obtain o2 where "scan_run (replicate n d) ?v = Some (o2, 0)" "set o2 \<subseteq> set_mset (dict_entries d)"
      using Suc.IH [of ?v] False Suc.prems(2) r scan_next_high [of k v] k(2) by auto
    ultimately show ?thesis using o by simp
  qed
qed simp

text \<open>Property C27: scanning an unchanged non-empty dictionary, rehashing or not, ends after exactly as many
  calls as the smaller table has buckets, and reports exactly the entries of the dictionary.\<close>
theorem dictScan_terminates:
  assumes "dict_inv cx d" "dict_entries d \<noteq> {#}"
  shows "\<exists>out. scan_run (replicate (ht_size (scan_table d)) d) 0 = Some (out, 0) \<and>
    fst ` set out = dom (dict_map d) \<and> set out \<subseteq> set_mset (dict_entries d)"
proof -
  have "ht_alloc cx (scan_table d)"
    using assms dict_inv_empty [OF assms(1)] dict_inv_alloc [OF assms(1)] dict_inv_rehashing [OF assms(1)]
    by (auto simp: scan_table_def)
  then obtain k where k: "ht_size (scan_table d) = 2 ^ k" "k \<le> 31" using mask_of_size by metis
  then obtain out where out: "scan_run (replicate (2 ^ k) d) 0 = Some (out, 0)"
      "set out \<subseteq> set_mset (dict_entries d)"
    using scan_run_returns [OF assms k, of "2 ^ k" 0] by auto
  have dom: "dom (dict_map d) = fst ` set_mset (dict_entries d)"
    using mset_dict_list [of d] by (metis dict_map_def dom_map_of_conv_image_fst set_mset_mset)
  have "key \<in> fst ` set out" if "key \<in> dom (dict_map d)" for key
    using scan_run_covers [OF out(1), of cx key 0] assms(1) that k by simp
  then show ?thesis using out k(1) dom by auto
qed

theorem dictScan_terminates_witness:
  "\<exists>out. scan_run (replicate 4 scan_shrunk) 0 = Some (out, 0) \<and> fst ` set out = dom (dict_map scan_shrunk)"
proof -
  have "dict_entries scan_shrunk \<noteq> {#}" using scan_old_concat
    by (simp add: dict_entries_def ht_entries_def scan_shrunk_eq)
  moreover have "ht_size (scan_table scan_shrunk) = 4"
    by (simp add: scan_table_def scan_shrunk_eq dictIsRehashing_def scan_old_def)
  ultimately show ?thesis using dictScan_terminates [OF scan_shrunk_inv] by auto
qed

end
