(* ===== verification/Util_Num.thy ===== *)
theory Util_Num
  imports Redis_Prelude
begin

text \<open>
  The integer conversions of \<open>util.c\<close>. Characters are bytes; an \<open>unsigned long long\<close> is a natural
  number, with the source's overflow tests against \<open>ULLONG_MAX\<close>; the destination buffer is a block
  of memory, and a store outside it is \<^const>\<open>None\<close>.
\<close>

section \<open>The code\<close>

definition ULLONG_MAX :: nat where "ULLONG_MAX = 2 ^ 64 - 1"
definition LLONG_MAX :: int where "LLONG_MAX = 2 ^ 63 - 1"
definition LLONG_MIN :: int where "LLONG_MIN = - (2 ^ 63)"

function digits10 :: "nat \<Rightarrow> nat" where
  "digits10 v =
     (if v < 10 then 1
      else if v < 100 then 2
      else if v < 1000 then 3
      else if v < 1000000000000 then
        (if v < 100000000 then
           (if v < 1000000 then
              (if v < 10000 then 4 else 5 + of_bool (v \<ge> 100000))
            else 7 + of_bool (v \<ge> 10000000))
         else if v < 10000000000 then 9 + of_bool (v \<ge> 1000000000)
         else 11 + of_bool (v \<ge> 100000000000))
      else 12 + digits10 (v div 1000000000000))"
  by pat_completeness auto
termination
  by (relation "measure id") auto

declare digits10.simps [simp del]

definition digits :: "byte list" where
  "digits = map of_char
    (''0001020304050607080910111213141516171819'' @
     ''2021222324252627282930313233343536373839'' @
     ''4041424344454647484950515253545556575859'' @
     ''6061626364656667686970717273747576777879'' @
     ''8081828384858687888990919293949596979899'') @ [0]"

text \<open>The loop that stores two digits at a time, ending with the store of the last one or two.\<close>

function ll2string_loop :: "nat \<Rightarrow> nat \<Rightarrow> byte list \<Rightarrow> byte list option" where
  "ll2string_loop val nxt dst =
     (if val \<ge> 100 then
        (let i = (val mod 100) * 2 in do {
           dst \<leftarrow> mem_write nxt [digits ! (i + 1)] dst;
           dst \<leftarrow> mem_write (u32_sub nxt 1) [digits ! i] dst;
           ll2string_loop (val div 100) (u32_sub nxt 2) dst
         })
      else if val < 10 then mem_write nxt [48 + of_nat val] dst
      else
        (let i = val * 2 in do {
           dst \<leftarrow> mem_write nxt [digits ! (i + 1)] dst;
           mem_write (u32_sub nxt 1) [digits ! i] dst
         }))"
  by pat_completeness auto
termination
  by (relation "measure (\<lambda>(val, _). val)") auto

declare ll2string_loop.simps [simp del]

definition ll2string :: "byte list \<Rightarrow> nat \<Rightarrow> int \<Rightarrow> (byte list \<times> nat) option" where
  "ll2string dst dstlen svalue = (
     let (val, negative) =
           (if svalue < 0 then
              (if svalue \<noteq> LLONG_MIN then nat (- svalue) else nat LLONG_MAX + 1, 1)
            else (nat svalue, 0));
         len = digits10 val + negative
     in if len \<ge> dstlen then Some (dst, 0)
        else do {
          dst \<leftarrow> mem_write len [0] dst;
          dst \<leftarrow> ll2string_loop val (u32_sub len 1) dst;
          dst \<leftarrow> (if negative = 1 then mem_write 0 [45] dst else Some dst);
          Some (dst, len)
        })"

text \<open>The loop over the remaining digits returns the value and the bytes it did not use.\<close>

definition is_digit :: "byte \<Rightarrow> bool" where "is_digit c \<longleftrightarrow> 48 \<le> c \<and> c \<le> 57"
definition digit_val :: "byte \<Rightarrow> nat" where "digit_val c = unat c - 48"

fun string2ll_loop :: "nat \<Rightarrow> byte list \<Rightarrow> (nat \<times> byte list) option" where
  "string2ll_loop v [] = Some (v, [])"
| "string2ll_loop v (c # p) =
     (if is_digit c then
        (if v > ULLONG_MAX div 10 then None
         else let v = v * 10 in
           if v > ULLONG_MAX - digit_val c then None
           else string2ll_loop (v + digit_val c) p)
      else Some (v, c # p))"

definition string2ll :: "byte list \<Rightarrow> int option" where
  "string2ll s =
     (if s = [] then None
      else if s = [48] then Some 0
      else
        (let negative = (hd s = 45); p = (if negative then tl s else s)
         in if p = [] then None
            else if 49 \<le> hd p \<and> hd p \<le> 57 then do {
              (v, rest) \<leftarrow> string2ll_loop (digit_val (hd p)) (tl p);
              if rest \<noteq> [] then None
              else if negative then
                (if v > nat (- (LLONG_MIN + 1)) + 1 then None else Some (- int v))
              else if v > nat LLONG_MAX then None
              else Some (int v)
            }
            else if hd p = 48 \<and> length s = 1 then Some 0
            else None))"

text \<open>On 64-bit Windows \<open>PORT_LONG\<close> has 64 bits as well.\<close>

definition string2l :: "byte list \<Rightarrow> int option" where
  "string2l s = do {
     llval \<leftarrow> string2ll s;
     if llval < LLONG_MIN \<or> llval > LLONG_MAX then None else Some llval
   }"

section \<open>Decimal notation\<close>

fun dec :: "nat \<Rightarrow> byte list" where
  "dec n = (if n < 10 then [48 + of_nat n] else dec (n div 10) @ [48 + of_nat (n mod 10)])"

declare dec.simps [simp del]

definition decimal :: "int \<Rightarrow> byte list" where
  "decimal v = (if v < 0 then 45 # dec (nat (- v)) else dec (nat v))"

lemma dec_less: "n < 10 \<Longrightarrow> dec n = [48 + of_nat n]"
  and dec_ge: "\<not> n < 10 \<Longrightarrow> dec n = dec (n div 10) @ [48 + of_nat (n mod 10)]"
  by (simp_all add: dec.simps)

lemma dec_append: "n < 10 ^ k \<Longrightarrow> 0 < m \<Longrightarrow> length (dec (m * 10 ^ k + n)) = length (dec m) + k"
proof (induction k arbitrary: n)
  case (Suc k)
  have "1 \<le> m * 10 ^ k" using Suc.prems(2) by simp
  moreover have "m * 10 ^ Suc k + n = 10 * (m * 10 ^ k) + n" by simp
  ultimately have "\<not> m * 10 ^ Suc k + n < 10" by linarith
  moreover have "(m * 10 ^ Suc k + n) div 10 = m * 10 ^ k + n div 10" by simp
  moreover have "n div 10 < 10 ^ k" using Suc.prems(1) by (simp add: less_mult_imp_div_less mult.commute)
  ultimately show ?case using Suc.IH [of "n div 10"] Suc.prems(2) by (simp add: dec_ge)
qed simp

lemma length_dec_pos [simp]: "0 < length (dec n)" "dec n \<noteq> []"
  by (cases "n < 10"; simp add: dec_less dec_ge)+

lemma length_dec_ge: "10 ^ k \<le> n \<Longrightarrow> n < 10 ^ Suc k \<Longrightarrow> length (dec n) = Suc k"
proof (induction k arbitrary: n)
  case (Suc k)
  have "1 \<le> (10 :: nat) ^ k" by simp
  then have "\<not> n < 10" using Suc.prems(1) unfolding power_Suc by linarith
  moreover have "10 ^ k \<le> n div 10" "n div 10 < 10 ^ Suc k"
    using Suc.prems by (simp_all add: less_eq_div_iff_mult_less_eq div_less_iff_less_mult mult.commute)
  ultimately show ?case using Suc.IH [of "n div 10"] by (simp add: dec_ge)
qed (simp add: dec_less)

text \<open>\<open>digits10\<close> is the number of decimal digits.\<close>

lemma digits10_length: "digits10 v = length (dec v)"
proof (induction v rule: digits10.induct)
  case (1 v)
  have d: "v div 10 ^ 12 * 10 ^ 12 + v mod 10 ^ 12 = v" by (rule div_mult_mod_eq)
  consider (s) "v < 10 ^ 12" | (b) "10 ^ 12 \<le> v" by linarith
  then show ?case
  proof cases
    case b
    have "0 < v div 10 ^ 12" using b by (simp add: div_greater_zero_iff)
    then have "length (dec v) = length (dec (v div 10 ^ 12)) + 12"
      using dec_append [of "v mod 10 ^ 12" 12 "v div 10 ^ 12"] d by simp
    then show ?thesis using 1 b by (subst digits10.simps) simp
  next
    case s
    have k: "length (dec v) = Suc k" if "10 ^ k \<le> v" "v < 10 ^ Suc k" for k
      using that by (rule length_dec_ge)
    show ?thesis using s k [of 0] k [of 1] k [of 2] k [of 3] k [of 4] k [of 5] k [of 6] k [of 7] k [of 8]
        k [of 9] k [of 10] k [of 11] dec_less [of v]
      by (subst digits10.simps) auto
  qed
qed

section \<open>Printing\<close>

lemma digits_pairs: "digits = concat (map (\<lambda>n. [48 + of_nat (n div 10), 48 + of_nat (n mod 10)]) [0..<100]) @ [0]"
  by (simp add: digits_def upt_conv_Cons)

lemma concat_pairs_nth:
  "n < m \<Longrightarrow> (concat (map (\<lambda>n. [f n, g n]) [0..<m]) @ ys) ! (n * 2) = f n"
  "n < m \<Longrightarrow> (concat (map (\<lambda>n. [f n, g n]) [0..<m]) @ ys) ! (n * 2 + 1) = g n"
proof (induction m arbitrary: ys)
  case (Suc m)
  have l: "length (concat (map (\<lambda>n. [f n, g n]) [0..<m])) = m * 2" by (induction m) simp_all
  { case 1 then show ?case using Suc.IH(1) [of "[f m, g m] @ ys"] l by (cases "n = m") (simp_all add: nth_append) }
  { case 2 then show ?case using Suc.IH(2) [of "[f m, g m] @ ys"] l by (cases "n = m") (simp_all add: nth_append) }
qed simp_all

lemma digits_nth:
  "n < 100 \<Longrightarrow> digits ! (n * 2) = 48 + of_nat (n div 10)"
  "n < 100 \<Longrightarrow> digits ! (n * 2 + 1) = 48 + of_nat (n mod 10)"
  unfolding digits_pairs by (simp_all add: concat_pairs_nth(1) concat_pairs_nth(2) [simplified])

lemma dec_two: "100 \<le> n \<Longrightarrow> dec n = dec (n div 100) @ [48 + of_nat (n mod 100 div 10), 48 + of_nat (n mod 100 mod 10)]"
proof -
  assume n: "100 \<le> n"
  have "n mod 100 = 10 * (n div 10 mod 10) + n mod 10" using mod_mult2_eq [of n 10 10] by simp
  then have "n div 10 mod 10 = n mod 100 div 10" "n mod 10 = n mod 100 mod 10" by simp_all
  moreover have "n div 10 div 10 = n div 100" by (simp add: div_mult2_eq [of n 10 10, simplified])
  moreover have "\<not> n div 10 < 10" using n div_le_mono [of 100 n 10] by simp
  ultimately show ?thesis using n dec_ge [of n] dec_ge [of "n div 10"] by simp
qed

lemma dec_pair: "10 \<le> n \<Longrightarrow> n < 100 \<Longrightarrow> dec n = [48 + of_nat (n div 10), 48 + of_nat (n mod 10)]"
  using dec_ge [of n] dec_less [of "n div 10"] by simp

lemma mem_write_pair:
  assumes "1 \<le> nxt" "nxt < length dst"
  shows "(mem_write nxt [b] dst \<bind> mem_write (nxt - 1) [a]) = Some (take (nxt - 1) dst @ [a, b] @ drop (Suc nxt) dst)"
proof -
  have "take (nxt - Suc 0) (take nxt dst) = take (nxt - Suc 0) dst" using assms by (simp add: min_def)
  moreover have "drop (nxt - 1 + 1) (take nxt dst @ [b] @ drop (Suc nxt) dst) = [b] @ drop (Suc nxt) dst"
    using assms by simp
  ultimately show ?thesis using assms by (simp add: mem_write_def)
qed

lemma ll2string_loop_correct:
  "length (dec val) \<le> Suc nxt \<Longrightarrow> nxt < length dst \<Longrightarrow> nxt < 2 ^ 32 \<Longrightarrow>
   ll2string_loop val nxt dst = Some (take (Suc nxt - length (dec val)) dst @ dec val @ drop (Suc nxt) dst)"
proof (induction val nxt dst rule: ll2string_loop.induct)
  case (1 val nxt dst)
  consider (a) "val < 10" | (b) "10 \<le> val" "val < 100" | (c) "100 \<le> val" by linarith
  then show ?case
  proof cases
    case a
    then show ?thesis using 1(3)
      by (subst ll2string_loop.simps) (simp add: dec_less mem_write_def)
  next
    case b
    then have "1 \<le> nxt" using 1(2) by (simp add: dec_pair)
    then show ?thesis using b 1(3,4) mem_write_pair [of nxt dst] u32_sub_id [of 1 nxt]
      by (subst ll2string_loop.simps) (simp add: dec_pair digits_nth(1) digits_nth(2) [simplified] Let_def)
  next
    case c
    let ?i = "(val mod 100) * 2"
    have l: "length (dec val) = length (dec (val div 100)) + 2" using dec_two [OF c] by simp
    have n: "2 \<le> nxt" using 1(2) l length_dec_pos [of "val div 100"] by linarith
    define d where "d = take (nxt - 1) dst @ [digits ! ?i, digits ! (?i + 1)] @ drop (Suc nxt) dst"
    have w: "(mem_write nxt [digits ! (?i + 1)] dst \<bind> mem_write (u32_sub nxt 1) [digits ! ?i]) = Some d"
      using mem_write_pair [of nxt dst] n 1(3,4) u32_sub_id [of 1 nxt] by (simp add: d_def)
    have ld: "length d = length dst" using n 1(3) by (simp add: d_def)
    have sub: "u32_sub nxt 2 = nxt - 2" using n 1(4) by (simp add: u32_sub_id)
    have "ll2string_loop val nxt dst = ll2string_loop (val div 100) (nxt - 2) d"
      using c w sub by (subst ll2string_loop.simps) (auto simp: Let_def bind_eq_Some_conv)
    also have "\<dots> = Some (take (Suc (nxt - 2) - length (dec (val div 100))) d @ dec (val div 100) @ drop (Suc (nxt - 2)) d)"
      using 1(1) [OF c refl] w n 1(2-4) l ld sub by (auto simp: bind_eq_Some_conv)
    moreover have "drop (Suc (nxt - 2)) d = [digits ! ?i, digits ! (?i + 1)] @ drop (Suc nxt) dst"
      using n 1(3) by (simp add: d_def Suc_diff_le)
    moreover have "take (Suc (nxt - 2) - length (dec (val div 100))) d = take (Suc nxt - length (dec val)) dst"
      using n 1(2,3) l by (simp add: d_def min_def)
    ultimately show ?thesis using dec_two [OF c] digits_nth [of "val mod 100"] by simp
  qed
qed

definition in_longlong :: "int \<Rightarrow> bool" where
  "in_longlong v \<longleftrightarrow> LLONG_MIN \<le> v \<and> v \<le> LLONG_MAX"

lemma length_dec_bound: "m < 10 ^ k \<Longrightarrow> 0 < k \<Longrightarrow> length (dec m) \<le> k"
proof (induction k arbitrary: m)
  case (Suc k)
  show ?case
  proof (cases "m < 10")
    case False
    have "m div 10 < 10 ^ k" using Suc.prems(1) by (simp add: less_mult_imp_div_less mult.commute)
    moreover have "0 < k" using False Suc.prems(1) by (cases k) simp_all
    ultimately show ?thesis using Suc.IH [of "m div 10"] False by (simp add: dec_ge)
  qed (simp add: dec_less)
qed simp

lemma length_dec_64: "n \<le> 2 ^ 63 \<Longrightarrow> length (dec n) \<le> 19"
  by (rule length_dec_bound) simp_all

lemma ll2string_correct:
  assumes v: "in_longlong v" and d: "dstlen \<le> length dst"
  shows "ll2string dst dstlen v =
    (if length (decimal v) < dstlen
     then Some (decimal v @ [0] @ drop (Suc (length (decimal v))) dst, length (decimal v))
     else Some (dst, 0))"
proof -
  define n where "n = nat \<bar>v\<bar>"
  define neg :: nat where "neg = (if v < 0 then 1 else 0)"
  have n: "n \<le> 2 ^ 63" using v by (auto simp: in_longlong_def LLONG_MIN_def LLONG_MAX_def n_def)
  have pair: "(if v < 0 then (if v \<noteq> LLONG_MIN then nat (- v) else nat LLONG_MAX + 1, 1) else (nat v, 0)) = (n, neg)"
    using v by (auto simp: n_def neg_def LLONG_MIN_def LLONG_MAX_def)
  define len where "len = length (dec n) + neg"
  have dv: "decimal v = (if v < 0 then [45] else []) @ dec n" "length (decimal v) = len"
    by (auto simp: decimal_def n_def len_def neg_def)
  have "0 < length (dec n)" "length (dec n) \<le> 19" using length_dec_64 [of n] n by simp_all
  moreover have "neg \<le> 1" by (simp add: neg_def)
  ultimately have lb: "1 \<le> len" "len \<le> 21" unfolding len_def by linarith+
  show ?thesis
  proof (cases "len < dstlen")
    case True
    define d1 where "d1 = take len dst @ [0] @ drop (Suc len) dst"
    have w: "mem_write len [0] dst = Some d1" using True d by (simp add: mem_write_def d1_def)
    have l1: "length d1 = length dst" using w by (rule mem_write_length)
    have s: "u32_sub len 1 = len - 1" "Suc (len - 1) = len" using lb by (simp_all add: u32_sub_id)
    have p: "ll2string_loop n (len - 1) d1 = Some (take neg d1 @ dec n @ drop len d1)"
      using ll2string_loop_correct [of n "len - 1" d1] lb True d l1 s(2) by (simp add: len_def)
    have "drop len d1 = [0] @ drop (Suc len) dst" using True d by (simp add: d1_def)
    then have "(if neg = 1 then mem_write 0 [45] (take neg d1 @ dec n @ drop len d1) else Some (take neg d1 @ dec n @ drop len d1))
        = Some (decimal v @ [0] @ drop (Suc len) dst)"
      using l1 True d by (auto simp: mem_write_def dv(1) neg_def)
    then show ?thesis using True w p s(1) dv(2)
      by (simp add: ll2string_def pair digits10_length flip: len_def)
  qed (use dv(2) in \<open>simp add: ll2string_def pair digits10_length flip: len_def\<close>)
qed

section \<open>Parsing\<close>

definition digits_val :: "nat \<Rightarrow> byte list \<Rightarrow> nat" where
  "digits_val v p = foldl (\<lambda>v c. v * 10 + digit_val c) v p"

lemma digits_val_simps [simp]:
  "digits_val v [] = v" "digits_val v (c # p) = digits_val (v * 10 + digit_val c) p"
  by (simp_all add: digits_val_def)

lemma digits_val_mono: "v \<le> digits_val v p"
proof (induction p arbitrary: v)
  case (Cons c p)
  have "v \<le> v * 10 + digit_val c" by simp
  also have "\<dots> \<le> digits_val (v * 10 + digit_val c) p" by (rule Cons.IH)
  finally show ?case by simp
qed simp

lemma digit_val_bound: "is_digit c \<Longrightarrow> digit_val c \<le> 9"
  by (auto simp: is_digit_def digit_val_def word_le_nat_alt)

lemma string2ll_loop_iff:
  "v \<le> ULLONG_MAX \<Longrightarrow> string2ll_loop v p = Some (w, []) \<longleftrightarrow>
     (\<forall>c\<in>set p. is_digit c) \<and> w = digits_val v p \<and> w \<le> ULLONG_MAX"
proof (induction p arbitrary: v)
  case (Cons c p)
  define v' where "v' = v * 10 + digit_val c"
  show ?case
  proof (cases "is_digit c")
    case True
    have "v > ULLONG_MAX div 10 \<or> v * 10 > ULLONG_MAX - digit_val c \<longleftrightarrow> v' > ULLONG_MAX"
      using digit_val_bound [OF True] by (auto simp: v'_def ULLONG_MAX_def)
    then have l: "string2ll_loop v (c # p) = (if v' > ULLONG_MAX then None else string2ll_loop v' p)"
      using True by (auto simp: v'_def Let_def)
    show ?thesis
    proof (cases "v' > ULLONG_MAX")
      case over: True
      then have "digits_val v' p > ULLONG_MAX" using digits_val_mono [of v' p] by linarith
      then show ?thesis using l over by (auto simp: v'_def)
    qed (use l True Cons.IH [of v'] in \<open>simp add: v'_def\<close>)
  qed simp
qed auto

lemma byte_of_digit: "is_digit c \<Longrightarrow> 48 + of_nat (digit_val c) = c"
  by (simp add: is_digit_def digit_val_def word_le_nat_alt of_nat_diff)

lemma digit_of_nat: "d < 10 \<Longrightarrow> is_digit (48 + of_nat d) \<and> digit_val (48 + of_nat d) = d"
  by (simp add: is_digit_def digit_val_def word_le_nat_alt unat_word_ariths unsigned_of_nat take_bit_eq_mod)

lemma dec_digits_val: "0 < v \<Longrightarrow> \<forall>c\<in>set p. is_digit c \<Longrightarrow> dec (digits_val v p) = dec v @ p"
proof (induction p arbitrary: v)
  case (Cons c p)
  have "dec (v * 10 + digit_val c) = dec v @ [c]"
    using Cons.prems digit_val_bound [of c] byte_of_digit [of c] dec_ge [of "v * 10 + digit_val c"] by simp
  then show ?case using Cons.IH [of "v * 10 + digit_val c"] Cons.prems by simp
qed simp

lemma digits_val_append: "digits_val v (p @ [c]) = digits_val v p * 10 + digit_val c"
  by (simp add: digits_val_def)

lemma dec_split: "0 < n \<Longrightarrow> \<exists>c p. dec n = c # p \<and> 49 \<le> c \<and> c \<le> 57 \<and> (\<forall>c\<in>set p. is_digit c) \<and> digits_val (digit_val c) p = n"
proof (induction n rule: dec.induct)
  case (1 n)
  show ?case
  proof (cases "n < 10")
    case True
    then have "n \<in> {1..9}" using 1(2) by auto
    then have "49 \<le> (48 + of_nat n :: byte)"
      by (simp add: word_le_nat_alt unat_word_ariths unsigned_of_nat take_bit_eq_mod)
    then show ?thesis using True digit_of_nat [OF True] by (simp add: dec_less is_digit_def)
  next
    case False
    then have "0 < n div 10" by (simp add: div_greater_zero_iff)
    then obtain c p where "dec (n div 10) = c # p" "49 \<le> c" "c \<le> 57" "\<forall>c\<in>set p. is_digit c"
      "digits_val (digit_val c) p = n div 10" using 1(1) [OF False] by blast
    then show ?thesis using False digit_of_nat [of "n mod 10"] by (auto simp: dec_ge digits_val_append)
  qed
qed

lemma string2ll_positive:
  assumes "0 < n" "dec n = c # p" "\<forall>c\<in>set p. is_digit c" "digits_val (digit_val c) p = n" "c \<le> 57" "49 \<le> c"
  shows "string2ll_loop (digit_val c) p = Some (n, []) \<longleftrightarrow> n \<le> ULLONG_MAX"
  using string2ll_loop_iff [of "digit_val c" p n] assms digit_val_bound [of c]
  by (auto simp: ULLONG_MAX_def is_digit_def word_le_nat_alt)

text \<open>The parser accepts exactly the canonical decimal notation of the values in range.\<close>

lemma string2ll_iff: "string2ll s = Some v \<longleftrightarrow> s = decimal v \<and> in_longlong v"
proof
  assume s: "string2ll s = Some v"
  show "s = decimal v \<and> in_longlong v"
  proof (cases "s = [48]")
    case True
    then have "v = 0" using s by (simp add: string2ll_def)
    then show ?thesis using True by (simp add: decimal_def dec_less in_longlong_def LLONG_MIN_def LLONG_MAX_def)
  next
    case False
    define p where "p = (if hd s = 45 then tl s else s)"
    have ne: "s \<noteq> []" "p \<noteq> []" and hp: "49 \<le> hd p \<and> hd p \<le> 57"
      using s False by (auto simp: string2ll_def p_def Let_def length_Suc_conv split: if_splits)
    then obtain w where w: "string2ll_loop (digit_val (hd p)) (tl p) = Some (w, [])"
      and v: "if hd s = 45 then w \<le> nat (- (LLONG_MIN + 1)) + 1 \<and> v = - int w else w \<le> nat LLONG_MAX \<and> v = int w"
      using s False by (auto simp: string2ll_def p_def [symmetric] Let_def split: if_splits bind_splits)
    have dg: "is_digit (hd p)" using hp by (auto simp: is_digit_def word_le_nat_alt)
    then have "digit_val (hd p) \<le> ULLONG_MAX" using digit_val_bound [of "hd p"] by (simp add: ULLONG_MAX_def)
    then have a: "\<forall>c\<in>set (tl p). is_digit c" "w = digits_val (digit_val (hd p)) (tl p)"
      using w string2ll_loop_iff by auto
    have pos: "0 < digit_val (hd p)" using hp by (auto simp: digit_val_def word_le_nat_alt)
    then have "dec w = dec (digit_val (hd p)) @ tl p" using a dec_digits_val by simp
    also have "dec (digit_val (hd p)) = [hd p]"
      using digit_val_bound [OF dg] byte_of_digit [OF dg] by (simp add: dec_less)
    finally have "dec w = p" using ne(2) by simp
    moreover have "0 < w" using pos a(2) digits_val_mono [of "digit_val (hd p)" "tl p"] by linarith
    ultimately show ?thesis using v ne(1)
      by (auto simp: decimal_def p_def in_longlong_def LLONG_MIN_def LLONG_MAX_def split: if_splits)
        (metis list.collapse)
  qed
next
  assume "s = decimal v \<and> in_longlong v"
  then have s: "s = decimal v" and r: "in_longlong v" by simp_all
  show "string2ll s = Some v"
  proof (cases "v = 0")
    case True
    then show ?thesis using s by (simp add: decimal_def dec_less string2ll_def)
  next
    case False
    define n where "n = nat \<bar>v\<bar>"
    have n: "0 < n" "n \<le> ULLONG_MAX" using False r
      by (auto simp: n_def in_longlong_def LLONG_MIN_def LLONG_MAX_def ULLONG_MAX_def)
    obtain c p where c: "dec n = c # p" "49 \<le> c" "c \<le> 57" "\<forall>c\<in>set p. is_digit c"
      "digits_val (digit_val c) p = n" using dec_split [OF n(1)] by blast
    have l: "string2ll_loop (digit_val c) p = Some (n, [])"
      using string2ll_positive [OF n(1) c(1,4,5,3,2)] n(2) by simp
    have "c \<noteq> 45" "c \<noteq> 48" using c(2) by (auto simp: word_le_nat_alt)
    note cf = this
    show ?thesis
    proof (cases "v < 0")
      case True
      then have "s = 45 # c # p" "int n = - v" "n \<le> nat (- (LLONG_MIN + 1)) + 1"
        using s c(1) r by (simp_all add: decimal_def n_def in_longlong_def LLONG_MIN_def nat_le_iff)
      then show ?thesis using c(2,3) l by (simp add: string2ll_def)
    next
      case False
      then have "s = c # p" "int n = v" "\<not> n > nat LLONG_MAX"
        using s c(1) r by (simp_all add: decimal_def n_def in_longlong_def LLONG_MAX_def not_less nat_le_iff)
      then show ?thesis using c(2,3) l cf by (simp add: string2ll_def)
    qed
  qed
qed

text \<open>Property C18: ll2string with a buffer of any size. If the decimal notation of the 64-bit value and its terminator
  fit the given length, ll2string writes them at the start of the buffer and nothing else, returns
  the length of the notation, and string2ll reads the value back; otherwise it returns 0 and leaves
  the buffer alone. It never writes outside the buffer, and 21 bytes are enough for every value.\<close>
theorem ll2string_string2ll:
  assumes "in_longlong v" "dstlen \<le> length dst"
  shows "\<exists>out len. ll2string dst dstlen v = Some (out, len) \<and> length out = length dst \<and>
    (if length (decimal v) < dstlen
     then len = length (decimal v) \<and> take len out = decimal v \<and> string2ll (take len out) = Some v \<and>
       out ! len = 0 \<and> drop (Suc len) out = drop (Suc len) dst
     else len = 0 \<and> out = dst) \<and> (21 \<le> dstlen \<longrightarrow> 0 < len)"
proof -
  have "nat \<bar>v\<bar> \<le> 2 ^ 63" using assms(1) by (auto simp: in_longlong_def LLONG_MIN_def LLONG_MAX_def)
  then have l: "length (decimal v) \<le> 20" "0 < length (decimal v)"
    using length_dec_64 [of "nat \<bar>v\<bar>"] length_dec_pos [of "nat \<bar>v\<bar>"] by (auto simp: decimal_def)
  show ?thesis
  proof (cases "length (decimal v) < dstlen")
    case True
    then show ?thesis using ll2string_correct [OF assms] assms l string2ll_iff by (auto simp: nth_append)
  next
    case False
    then show ?thesis using ll2string_correct [OF assms] l(1) by simp
  qed
qed

theorem ll2string_string2ll_witness:
  "\<exists>out len. ll2string (replicate 5 7) 5 (-120) = Some (out, len) \<and> string2ll (take len out) = Some (-120)"
proof -
  have "length (decimal (- 120)) = 4" by code_simp
  then show ?thesis using ll2string_string2ll [of "-120" 5 "replicate 5 7"]
    by (auto simp: in_longlong_def LLONG_MIN_def LLONG_MAX_def)
qed

text \<open>Property C34: string2ll accepts exactly the canonical decimal notations (no leading zero, no plus
  sign, no minus zero, no spaces) of the values from LLONG_MIN to LLONG_MAX.\<close>
theorem string2ll_accepts_canonical:
  "string2ll s = Some v \<longleftrightarrow> s = decimal v \<and> LLONG_MIN \<le> v \<and> v \<le> LLONG_MAX"
  by (simp add: string2ll_iff in_longlong_def)

end
