(* ===== verification/Adlist.thy ===== *)
theory Adlist
  imports Redis_Prelude
begin

text \<open>
  The doubly linked lists of \<open>adlist.c\<close>, on an explicit heap of nodes. A pointer is an optional
  address and NULL is \<^const>\<open>None\<close>; following NULL or a freed node makes an operation \<^const>\<open>None\<close>.
  \<open>zmalloc\<close> is the argument \<open>new\<close>: the address it returns, or NULL. The \<open>free\<close> method acts on the values
  only, which the heap of nodes does not hold, and is left out.
\<close>

section \<open>Data\<close>

type_synonym ptr = "nat option"

record 'v listNode =
  node_prev :: ptr
  node_next :: ptr
  node_value :: 'v

record 'v list_hdr =
  l_head :: ptr
  l_tail :: ptr
  l_dup :: "('v \<Rightarrow> 'v option) option"
  l_match :: "('v \<Rightarrow> 'v \<Rightarrow> bool) option"
  l_len :: nat

record listIter =
  iter_next :: ptr
  iter_from_head :: bool

type_synonym 'v heap = "nat \<Rightarrow> 'v listNode option"

definition node_at :: "'v heap \<Rightarrow> ptr \<Rightarrow> 'v listNode option" where
  "node_at h p = Option.bind p h"

definition node_upd :: "ptr \<Rightarrow> ('v listNode \<Rightarrow> 'v listNode) \<Rightarrow> 'v heap \<Rightarrow> 'v heap option" where
  "node_upd p f h = do { a \<leftarrow> p; n \<leftarrow> h a; Some (h(a \<mapsto> f n)) }"

definition ulong_inc :: "nat \<Rightarrow> nat" where "ulong_inc n = (n + 1) mod 2 ^ 64"
definition ulong_dec :: "nat \<Rightarrow> nat" where "ulong_dec n = (n + (2 ^ 64 - 1)) mod 2 ^ 64"

section \<open>The code\<close>

definition listCreate :: "'v list_hdr" where
  "listCreate = \<lparr>l_head = None, l_tail = None, l_dup = None, l_match = None, l_len = 0\<rparr>"

text \<open>The loop of \<open>listRelease\<close>, over the counter and the current node.\<close>

fun listRelease_loop :: "nat \<Rightarrow> ptr \<Rightarrow> 'v heap \<Rightarrow> 'v heap option" where
  "listRelease_loop 0 current h = Some h"
| "listRelease_loop (Suc len) current h = do {
     a \<leftarrow> current;
     n \<leftarrow> h a;
     listRelease_loop len (node_next n) (h(a := None))
   }"

definition listRelease :: "'v heap \<Rightarrow> 'v list_hdr \<Rightarrow> 'v heap option" where
  "listRelease h l = listRelease_loop (l_len l) (l_head l) h"

text \<open>The flag of the result is false when the allocation failed and NULL was returned.\<close>

definition listAddNodeHead ::
    "ptr \<Rightarrow> 'v heap \<Rightarrow> 'v list_hdr \<Rightarrow> 'v \<Rightarrow> ('v heap \<times> 'v list_hdr \<times> bool) option" where
  "listAddNodeHead new h l v = (case new of None \<Rightarrow> Some (h, l, False) | Some a \<Rightarrow>
     if l_len l = 0 then
       Some (h(a \<mapsto> \<lparr>node_prev = None, node_next = None, node_value = v\<rparr>),
             l\<lparr>l_head := new, l_tail := new, l_len := ulong_inc (l_len l)\<rparr>, True)
     else do {
       h \<leftarrow> Some (h(a \<mapsto> \<lparr>node_prev = None, node_next = l_head l, node_value = v\<rparr>));
       h \<leftarrow> node_upd (l_head l) (\<lambda>n. n\<lparr>node_prev := new\<rparr>) h;
       Some (h, l\<lparr>l_head := new, l_len := ulong_inc (l_len l)\<rparr>, True)
     })"

definition listAddNodeTail ::
    "ptr \<Rightarrow> 'v heap \<Rightarrow> 'v list_hdr \<Rightarrow> 'v \<Rightarrow> ('v heap \<times> 'v list_hdr \<times> bool) option" where
  "listAddNodeTail new h l v = (case new of None \<Rightarrow> Some (h, l, False) | Some a \<Rightarrow>
     if l_len l = 0 then
       Some (h(a \<mapsto> \<lparr>node_prev = None, node_next = None, node_value = v\<rparr>),
             l\<lparr>l_head := new, l_tail := new, l_len := ulong_inc (l_len l)\<rparr>, True)
     else do {
       h \<leftarrow> Some (h(a \<mapsto> \<lparr>node_prev = l_tail l, node_next = None, node_value = v\<rparr>));
       h \<leftarrow> node_upd (l_tail l) (\<lambda>n. n\<lparr>node_next := new\<rparr>) h;
       Some (h, l\<lparr>l_tail := new, l_len := ulong_inc (l_len l)\<rparr>, True)
     })"

definition listInsertNode ::
    "ptr \<Rightarrow> 'v heap \<Rightarrow> 'v list_hdr \<Rightarrow> ptr \<Rightarrow> 'v \<Rightarrow> bool \<Rightarrow> ('v heap \<times> 'v list_hdr \<times> bool) option" where
  "listInsertNode new h l old_node v after = (case new of None \<Rightarrow> Some (h, l, False) | Some a \<Rightarrow> do {
     old \<leftarrow> node_at h old_node;
     (node, l) \<leftarrow> Some (
        if after then
          (\<lparr>node_prev = old_node, node_next = node_next old, node_value = v\<rparr>,
           if l_tail l = old_node then l\<lparr>l_tail := new\<rparr> else l)
        else
          (\<lparr>node_prev = node_prev old, node_next = old_node, node_value = v\<rparr>,
           if l_head l = old_node then l\<lparr>l_head := new\<rparr> else l));
     h \<leftarrow> Some (h(a \<mapsto> node));
     h \<leftarrow> (if node_prev node \<noteq> None then node_upd (node_prev node) (\<lambda>n. n\<lparr>node_next := new\<rparr>) h else Some h);
     h \<leftarrow> (if node_next node \<noteq> None then node_upd (node_next node) (\<lambda>n. n\<lparr>node_prev := new\<rparr>) h else Some h);
     Some (h, l\<lparr>l_len := ulong_inc (l_len l)\<rparr>, True)
   })"

definition listDelNode :: "'v heap \<Rightarrow> 'v list_hdr \<Rightarrow> ptr \<Rightarrow> ('v heap \<times> 'v list_hdr) option" where
  "listDelNode h l node = do {
     a \<leftarrow> node;
     n \<leftarrow> h a;
     (h, l) \<leftarrow> (if node_prev n \<noteq> None
        then map_option (\<lambda>h. (h, l)) (node_upd (node_prev n) (\<lambda>m. m\<lparr>node_next := node_next n\<rparr>) h)
        else Some (h, l\<lparr>l_head := node_next n\<rparr>));
     (h, l) \<leftarrow> (if node_next n \<noteq> None
        then map_option (\<lambda>h. (h, l)) (node_upd (node_next n) (\<lambda>m. m\<lparr>node_prev := node_prev n\<rparr>) h)
        else Some (h, l\<lparr>l_tail := node_prev n\<rparr>));
     Some (h(a := None), l\<lparr>l_len := ulong_dec (l_len l)\<rparr>)
   }"

definition listGetIterator :: "'v list_hdr \<Rightarrow> bool \<Rightarrow> listIter" where
  "listGetIterator l from_head =
     \<lparr>iter_next = (if from_head then l_head l else l_tail l), iter_from_head = from_head\<rparr>"

definition listRewind :: "'v list_hdr \<Rightarrow> listIter" where
  "listRewind l = \<lparr>iter_next = l_head l, iter_from_head = True\<rparr>"

definition listRewindTail :: "'v list_hdr \<Rightarrow> listIter" where
  "listRewindTail l = \<lparr>iter_next = l_tail l, iter_from_head = False\<rparr>"

definition listNext :: "'v heap \<Rightarrow> listIter \<Rightarrow> (listIter \<times> ptr) option" where
  "listNext h it = (case iter_next it of None \<Rightarrow> Some (it, None) | Some a \<Rightarrow> do {
     n \<leftarrow> h a;
     Some (it\<lparr>iter_next := (if iter_from_head it then node_next n else node_prev n)\<rparr>, Some a)
   })"

text \<open>
  \<open>listDup\<close>: the addresses \<open>zmalloc\<close> returns for the copied nodes are given as a list (an empty list is
  an allocation failure). The result is the heap and the copy, or no copy after an error. The fuel
  bounds the iteration by the length of the original.
\<close>

fun listDup_loop ::
    "nat \<Rightarrow> nat list \<Rightarrow> 'v heap \<Rightarrow> listIter \<Rightarrow> 'v list_hdr \<Rightarrow> ('v heap \<times> 'v list_hdr option) option" where
  "listDup_loop 0 addrs h it copy = None"
| "listDup_loop (Suc fuel) addrs h it copy = do {
     (it, node) \<leftarrow> listNext h it;
     case node of None \<Rightarrow> Some (h, Some copy) | Some a \<Rightarrow> do {
       n \<leftarrow> h a;
       case (case l_dup copy of None \<Rightarrow> Some (node_value n) | Some dup \<Rightarrow> dup (node_value n)) of
         None \<Rightarrow> map_option (\<lambda>h. (h, None)) (listRelease h copy)
       | Some v \<Rightarrow> do {
           (h, copy, ok) \<leftarrow> listAddNodeTail (case addrs of [] \<Rightarrow> None | b # _ \<Rightarrow> Some b) h copy v;
           if ok then listDup_loop fuel (tl addrs) h it copy
           else map_option (\<lambda>h. (h, None)) (listRelease h copy)
         }
     }
   }"

definition listDup :: "nat list \<Rightarrow> 'v heap \<Rightarrow> 'v list_hdr \<Rightarrow> ('v heap \<times> 'v list_hdr option) option" where
  "listDup addrs h orig = listDup_loop (l_len orig + 1) addrs h (listGetIterator orig True)
     (listCreate\<lparr>l_dup := l_dup orig, l_match := l_match orig\<rparr>)"

fun listSearchKey_loop :: "nat \<Rightarrow> 'v heap \<Rightarrow> 'v list_hdr \<Rightarrow> listIter \<Rightarrow> 'v \<Rightarrow> ptr option" where
  "listSearchKey_loop 0 h l it key = None"
| "listSearchKey_loop (Suc fuel) h l it key = do {
     (it, node) \<leftarrow> listNext h it;
     case node of None \<Rightarrow> Some None | Some a \<Rightarrow> do {
       n \<leftarrow> h a;
       if (case l_match l of Some m \<Rightarrow> m (node_value n) key | None \<Rightarrow> key = node_value n)
       then Some node
       else listSearchKey_loop fuel h l it key
     }
   }"

definition listSearchKey :: "'v heap \<Rightarrow> 'v list_hdr \<Rightarrow> 'v \<Rightarrow> ptr option" where
  "listSearchKey h l key = listSearchKey_loop (l_len l + 1) h l (listGetIterator l True) key"

fun listIndex_loop :: "bool \<Rightarrow> 'v heap \<Rightarrow> nat \<Rightarrow> ptr \<Rightarrow> ptr option" where
  "listIndex_loop fwd h 0 n = Some n"
| "listIndex_loop fwd h (Suc i) None = Some None"
| "listIndex_loop fwd h (Suc i) (Some a) = do {
     n \<leftarrow> h a;
     listIndex_loop fwd h i (if fwd then node_next n else node_prev n)
   }"

definition listIndex :: "'v heap \<Rightarrow> 'v list_hdr \<Rightarrow> int \<Rightarrow> ptr option" where
  "listIndex h l index =
     (if index < 0 then listIndex_loop False h (nat (- index - 1)) (l_tail l)
      else listIndex_loop True h (nat index) (l_head l))"

definition listRotate :: "'v heap \<Rightarrow> 'v list_hdr \<Rightarrow> ('v heap \<times> 'v list_hdr) option" where
  "listRotate h l =
     (if l_len l \<le> 1 then Some (h, l)
      else do {
        t \<leftarrow> node_at h (l_tail l);
        l' \<leftarrow> Some (l\<lparr>l_tail := node_prev t\<rparr>);
        h \<leftarrow> node_upd (l_tail l') (\<lambda>n. n\<lparr>node_next := None\<rparr>) h;
        h \<leftarrow> node_upd (l_head l') (\<lambda>n. n\<lparr>node_prev := l_tail l\<rparr>) h;
        h \<leftarrow> node_upd (l_tail l) (\<lambda>n. n\<lparr>node_prev := None, node_next := l_head l'\<rparr>) h;
        Some (h, l'\<lparr>l_head := l_tail l\<rparr>)
      })"

section \<open>Linked segments\<close>

definition first_ptr :: "(nat \<times> 'v) list \<Rightarrow> ptr \<Rightarrow> ptr" where
  "first_ptr ns q = (case ns of [] \<Rightarrow> q | n # _ \<Rightarrow> Some (fst n))"

definition last_ptr :: "(nat \<times> 'v) list \<Rightarrow> ptr \<Rightarrow> ptr" where
  "last_ptr ns p = (if ns = [] then p else Some (fst (last ns)))"

fun lseg :: "'v heap \<Rightarrow> ptr \<Rightarrow> (nat \<times> 'v) list \<Rightarrow> ptr \<Rightarrow> bool" where
  "lseg h p [] q = True"
| "lseg h p (n # ns) q = (h (fst n) = Some \<lparr>node_prev = p, node_next = first_ptr ns q, node_value = snd n\<rparr> \<and>
     lseg h (Some (fst n)) ns q)"

definition dlist :: "'v heap \<Rightarrow> 'v list_hdr \<Rightarrow> (nat \<times> 'v) list \<Rightarrow> bool" where
  "dlist h l ns \<longleftrightarrow> lseg h None ns None \<and> distinct (map fst ns) \<and> l_head l = first_ptr ns None \<and>
     l_tail l = last_ptr ns None \<and> l_len l = length ns \<and> length ns < 2 ^ 64"

lemma ptr_simps [simp]:
  "first_ptr [] q = q" "first_ptr (n # ns) q = Some (fst n)" "first_ptr (xs @ ys) q = first_ptr xs (first_ptr ys q)"
  "last_ptr [] p = p" "last_ptr (ns @ [n]) p = Some (fst n)" "last_ptr (xs @ ys) p = last_ptr ys (last_ptr xs p)"
  "last_ptr (n # ns) p = last_ptr ns (Some (fst n))"
  by (auto simp: first_ptr_def last_ptr_def split: list.splits)

lemma lseg_append [simp]: "lseg h p (xs @ ys) q \<longleftrightarrow> lseg h p xs (first_ptr ys q) \<and> lseg h (last_ptr xs p) ys q"
  by (induction xs arbitrary: p) auto

lemma lseg_frame: "(\<And>a. a \<in> fst ` set ns \<Longrightarrow> h' a = h a) \<Longrightarrow> lseg h' p ns q = lseg h p ns q"
  by (induction ns arbitrary: p) auto

lemma lseg_upd [simp]: "a \<notin> fst ` set ns \<Longrightarrow> lseg (h(a := n)) p ns q = lseg h p ns q"
  by (rule lseg_frame) auto

lemma lseg_alloc: "lseg h p ns q \<Longrightarrow> a \<in> fst ` set ns \<Longrightarrow> h a \<noteq> None"
  by (induction ns arbitrary: p) auto

lemma fresh_notin: "dlist h l ns \<Longrightarrow> h a = None \<Longrightarrow> a \<notin> fst ` set ns"
  using lseg_alloc unfolding dlist_def by blast

lemma dlist_len: "dlist h l ns \<Longrightarrow> l_len l = length ns"
  by (simp add: dlist_def)

lemma ulong_inc_id [simp]: "n < 2 ^ 64 - 1 \<Longrightarrow> ulong_inc n = Suc n"
  by (simp add: ulong_inc_def)

lemma ulong_dec_id [simp]: "0 < n \<Longrightarrow> n < 2 ^ 64 \<Longrightarrow> ulong_dec n = n - 1"
  using mod_add_self2 [of "n - 1" "2 ^ 64"] by (simp add: ulong_dec_def add.commute)

section \<open>Each operation implements its effect on the sequence of nodes\<close>

lemmas dl_simps = node_upd_def node_at_def dlist_def

lemma listAddNodeHead_correct:
  assumes "dlist h l ns" "h a = None" "length ns < 2 ^ 64 - 1"
  shows "\<exists>h' l'. listAddNodeHead (Some a) h l v = Some (h', l', True) \<and> dlist h' l' ((a, v) # ns) \<and>
    (\<forall>b. b \<notin> fst ` set ns \<longrightarrow> b \<noteq> a \<longrightarrow> h' b = h b)"
proof (cases ns)
  case Nil
  then show ?thesis using assms by (simp add: listAddNodeHead_def dl_simps)
next
  case (Cons n ms)
  then show ?thesis using assms fresh_notin [OF assms(1,2)]
    by (auto simp: listAddNodeHead_def dl_simps)
qed

lemma listAddNodeTail_correct:
  assumes "dlist h l ns" "h a = None" "length ns < 2 ^ 64 - 1"
  shows "\<exists>h' l'. listAddNodeTail (Some a) h l v = Some (h', l', True) \<and> dlist h' l' (ns @ [(a, v)]) \<and>
    (\<forall>b. b \<notin> fst ` set ns \<longrightarrow> b \<noteq> a \<longrightarrow> h' b = h b) \<and> l_dup l' = l_dup l \<and> l_match l' = l_match l"
proof (cases ns rule: rev_cases)
  case Nil
  then show ?thesis using assms by (simp add: listAddNodeTail_def dl_simps)
next
  case (snoc ms n)
  then show ?thesis using assms fresh_notin [OF assms(1,2)]
    by (auto simp: listAddNodeTail_def dl_simps)
qed

lemma listDelNode_correct:
  assumes "dlist h l (xs @ (a, v) # ys)"
  shows "\<exists>h' l'. listDelNode h l (Some a) = Some (h', l') \<and> dlist h' l' (xs @ ys) \<and> h' a = None \<and>
    (\<forall>b. b \<notin> fst ` set (xs @ (a, v) # ys) \<longrightarrow> h' b = h b)"
  using assms
  by (cases xs rule: rev_cases; cases ys) (auto simp: listDelNode_def dl_simps)

lemma listInsertNode_after:
  assumes "dlist h l (xs @ (b, w) # ys)" "h a = None" "length (xs @ (b, w) # ys) < 2 ^ 64 - 1"
  shows "\<exists>h' l'. listInsertNode (Some a) h l (Some b) v True = Some (h', l', True) \<and>
    dlist h' l' (xs @ [(b, w), (a, v)] @ ys) \<and> (\<forall>c. c \<notin> insert a (fst ` set (xs @ (b, w) # ys)) \<longrightarrow> h' c = h c)"
proof (cases ys)
  case Nil
  then show ?thesis using assms fresh_notin [OF assms(1,2)]
    by (simp add: listInsertNode_def dl_simps image_Un)
next
  case (Cons y zs)
  have "l_tail l \<noteq> Some b" using assms(1) Cons by (auto simp: dlist_def last_ptr_def dest: last_in_set)
  then show ?thesis using assms fresh_notin [OF assms(1,2)] Cons
    by (simp add: listInsertNode_def dl_simps image_Un)
qed

lemma listInsertNode_before:
  assumes "dlist h l (xs @ (b, w) # ys)" "h a = None" "length (xs @ (b, w) # ys) < 2 ^ 64 - 1"
  shows "\<exists>h' l'. listInsertNode (Some a) h l (Some b) v False = Some (h', l', True) \<and>
    dlist h' l' (xs @ [(a, v), (b, w)] @ ys) \<and> (\<forall>c. c \<notin> insert a (fst ` set (xs @ (b, w) # ys)) \<longrightarrow> h' c = h c)"
proof (cases xs rule: rev_cases)
  case Nil
  then show ?thesis using assms fresh_notin [OF assms(1,2)]
    by (simp add: listInsertNode_def dl_simps image_Un)
next
  case (snoc zs z)
  have "l_head l \<noteq> Some b" using assms(1) snoc by (cases zs) (auto simp: dlist_def)
  then show ?thesis using assms fresh_notin [OF assms(1,2)] snoc
    by (simp add: listInsertNode_def dl_simps image_Un)
qed

lemma listRotate_correct:
  assumes "dlist h l ns"
  shows "\<exists>h' l'. listRotate h l = Some (h', l') \<and>
    dlist h' l' (if length ns \<le> 1 then ns else last ns # butlast ns) \<and>
    (\<forall>c. c \<notin> fst ` set ns \<longrightarrow> h' c = h c)"
proof (cases "length ns \<le> 1")
  case True
  then show ?thesis using assms by (simp add: listRotate_def dlist_len)
next
  case False
  then obtain ks m n where ns: "ns = (ks @ [m]) @ [n]"
    by (metis append_butlast_last_id length_append_singleton list.size(3) One_nat_def le_SucI le_refl butlast.simps(1))
  have "\<exists>h' l'. listRotate h l = Some (h', l') \<and> dlist h' l' (n # ks @ [m]) \<and>
      (\<forall>c. c \<notin> fst ` set ns \<longrightarrow> h' c = h c)"
    using assms unfolding ns by (cases ks) (auto simp: listRotate_def dl_simps)
  moreover have "last ns # butlast ns = n # ks @ [m]" unfolding ns last_snoc butlast_snoc ..
  ultimately show ?thesis using False by simp
qed

section \<open>Traversals\<close>

lemma listRelease_correct:
  assumes "dlist h l ns"
  shows "\<exists>h'. listRelease h l = Some h' \<and> (\<forall>a. h' a = (if a \<in> fst ` set ns then None else h a))"
proof -
  have "lseg h p ns q \<Longrightarrow> distinct (map fst ns) \<Longrightarrow>
    \<exists>h'. listRelease_loop (length ns) (first_ptr ns q) h = Some h' \<and>
      (\<forall>a. h' a = (if a \<in> fst ` set ns then None else h a))" for p q
  proof (induction ns arbitrary: h p)
    case (Cons n ns)
    have sg: "lseg (h(fst n := None)) (Some (fst n)) ns q" using Cons.prems by simp
    have "distinct (map fst ns)" using Cons.prems(2) by simp
    then obtain h' where "listRelease_loop (length ns) (first_ptr ns q) (h(fst n := None)) = Some h'"
      "\<forall>a. h' a = (if a \<in> fst ` set ns then None else (h(fst n := None)) a)"
      using Cons.IH [OF sg] by blast
    then show ?case using Cons.prems by auto
  qed simp
  from this [of None None] show ?thesis using assms by (simp add: listRelease_def dlist_def)
qed

lemma listIndex_loop_fwd:
  "lseg h p ns None \<Longrightarrow> listIndex_loop True h i (first_ptr ns None) = Some (first_ptr (drop i ns) None)"
proof (induction ns arbitrary: i p)
  case Nil
  then show ?case by (cases i) simp_all
next
  case (Cons n ns)
  then show ?case by (cases i) auto
qed

lemma listIndex_loop_bwd:
  "lseg h None ns q \<Longrightarrow> listIndex_loop False h i (last_ptr ns None) = Some (last_ptr (take (length ns - i) ns) None)"
proof (induction ns arbitrary: i q rule: rev_induct)
  case Nil
  then show ?case by (cases i) simp_all
next
  case (snoc n ns)
  then show ?case by (cases i) auto
qed

lemma listIndex_correct:
  assumes "dlist h l ns"
  shows "listIndex h l i = Some (
    if 0 \<le> i \<and> i < int (length ns) then Some (fst (ns ! nat i))
    else if i < 0 \<and> - i \<le> int (length ns) then Some (fst (ns ! nat (int (length ns) + i)))
    else None)"
proof (cases "i < 0")
  case False
  then have "first_ptr (drop (nat i) ns) None = (if nat i < length ns then Some (fst (ns ! nat i)) else None)"
    by (simp add: Cons_nth_drop_Suc [symmetric])
  then show ?thesis using False assms listIndex_loop_fwd [of h None ns "nat i"]
    by (auto simp: listIndex_def dlist_def)
next
  case True
  define k where "k = nat (- i - 1)"
  have "last_ptr (take (length ns - k) ns) None = (if k < length ns then Some (fst (ns ! (length ns - k - 1))) else None)"
    by (auto simp: last_ptr_def last_conv_nth)
  moreover have "k < length ns \<longleftrightarrow> - i \<le> int (length ns)" "k < length ns \<Longrightarrow> length ns - k - 1 = nat (int (length ns) + i)"
    using True unfolding k_def by linarith+
  ultimately show ?thesis using True assms listIndex_loop_bwd [of h ns None k]
    by (simp add: listIndex_def dlist_def k_def)
qed

lemma listSearchKey_correct:
  assumes "dlist h l ns"
  shows "listSearchKey h l key = Some (map_option fst
    (find (\<lambda>n. case l_match l of Some m \<Rightarrow> m (snd n) key | None \<Rightarrow> key = snd n) ns))"
proof -
  have "lseg h p ns None \<Longrightarrow> length ns < fuel \<Longrightarrow>
    listSearchKey_loop fuel h l \<lparr>iter_next = first_ptr ns None, iter_from_head = True\<rparr> key =
    Some (map_option fst (find (\<lambda>n. case l_match l of Some m \<Rightarrow> m (snd n) key | None \<Rightarrow> key = snd n) ns))" for p fuel
  proof (induction ns arbitrary: p fuel)
    case Nil
    then show ?case by (cases fuel) (simp_all add: listNext_def)
  next
    case (Cons n ns)
    then show ?case by (cases fuel; cases "l_match l") (auto simp: listNext_def)
  qed
  from this [of None "Suc (length ns)"] show ?thesis
    using assms by (simp add: listSearchKey_def listGetIterator_def dlist_def del: listSearchKey_loop.simps)
qed

text \<open>A whole iteration with \<open>listNext\<close> in either direction.\<close>

fun iterate :: "nat \<Rightarrow> 'v heap \<Rightarrow> listIter \<Rightarrow> 'v list option" where
  "iterate 0 h it = None"
| "iterate (Suc fuel) h it = do {
     (it, node) \<leftarrow> listNext h it;
     case node of None \<Rightarrow> Some [] | Some a \<Rightarrow> do {
       n \<leftarrow> h a;
       vs \<leftarrow> iterate fuel h it;
       Some (node_value n # vs)
     }
   }"

lemma iterate_fwd:
  "lseg h p ns None \<Longrightarrow> length ns < fuel \<Longrightarrow>
   iterate fuel h \<lparr>iter_next = first_ptr ns None, iter_from_head = True\<rparr> = Some (map snd ns)"
proof (induction ns arbitrary: p fuel)
  case Nil
  then show ?case by (cases fuel) (simp_all add: listNext_def)
next
  case (Cons n ns)
  then show ?case by (cases fuel) (auto simp: listNext_def)
qed

lemma iterate_bwd:
  "lseg h None ns q \<Longrightarrow> length ns < fuel \<Longrightarrow>
   iterate fuel h \<lparr>iter_next = last_ptr ns None, iter_from_head = False\<rparr> = Some (rev (map snd ns))"
proof (induction ns arbitrary: q fuel rule: rev_induct)
  case Nil
  then show ?case by (cases fuel) (simp_all add: listNext_def)
next
  case (snoc n ns)
  then show ?case by (cases fuel) (auto simp: listNext_def)
qed

lemma iterate_correct:
  assumes "dlist h l ns"
  shows "iterate (l_len l + 1) h (listRewind l) = Some (map snd ns)"
    "iterate (l_len l + 1) h (listRewindTail l) = Some (rev (map snd ns))"
  using assms iterate_fwd [of h None ns "l_len l + 1"] iterate_bwd [of h ns None "l_len l + 1"]
  by (simp_all add: dlist_def listRewind_def listRewindTail_def del: iterate.simps)

section \<open>Sequences of operations\<close>

datatype 'v list_op =
  AddHead 'v
| AddTail 'v
| InsertAt int 'v bool
| DelAt int
| Rotate

text \<open>Operations on a node take the one that \<open>listIndex\<close> finds; they are skipped when it finds none. The
  parameter \<open>alloc\<close> gives the address \<open>zmalloc\<close> returns for a heap.\<close>

fun list_step :: "('v heap \<Rightarrow> nat) \<Rightarrow> 'v list_op \<Rightarrow> 'v heap \<times> 'v list_hdr \<Rightarrow> ('v heap \<times> 'v list_hdr) option" where
  "list_step alloc (AddHead v) (h, l) =
     map_option (\<lambda>(h, l, _). (h, l)) (listAddNodeHead (Some (alloc h)) h l v)"
| "list_step alloc (AddTail v) (h, l) =
     map_option (\<lambda>(h, l, _). (h, l)) (listAddNodeTail (Some (alloc h)) h l v)"
| "list_step alloc (InsertAt i v after) (h, l) = do {
     p \<leftarrow> listIndex h l i;
     if p = None then Some (h, l)
     else map_option (\<lambda>(h, l, _). (h, l)) (listInsertNode (Some (alloc h)) h l p v after)
   }"
| "list_step alloc (DelAt i) (h, l) = do {
     p \<leftarrow> listIndex h l i;
     if p = None then Some (h, l) else listDelNode h l p
   }"
| "list_step alloc Rotate (h, l) = listRotate h l"

fun list_run :: "('v heap \<Rightarrow> nat) \<Rightarrow> 'v list_op list \<Rightarrow> 'v heap \<times> 'v list_hdr \<Rightarrow> ('v heap \<times> 'v list_hdr) option" where
  "list_run alloc [] s = Some s"
| "list_run alloc (c # cs) s = list_step alloc c s \<bind> list_run alloc cs"

text \<open>The same operations on a sequence of values.\<close>

definition seq_index :: "int \<Rightarrow> 'a list \<Rightarrow> nat option" where
  "seq_index i xs =
     (if 0 \<le> i \<and> i < int (length xs) then Some (nat i)
      else if i < 0 \<and> - i \<le> int (length xs) then Some (nat (int (length xs) + i))
      else None)"

fun seq_step :: "'v list_op \<Rightarrow> 'v list \<Rightarrow> 'v list" where
  "seq_step (AddHead v) xs = v # xs"
| "seq_step (AddTail v) xs = xs @ [v]"
| "seq_step (InsertAt i v after) xs = (case seq_index i xs of None \<Rightarrow> xs
     | Some k \<Rightarrow> let k = (if after then Suc k else k) in take k xs @ [v] @ drop k xs)"
| "seq_step (DelAt i) xs = (case seq_index i xs of None \<Rightarrow> xs | Some k \<Rightarrow> take k xs @ drop (Suc k) xs)"
| "seq_step Rotate xs = (if length xs \<le> 1 then xs else last xs # butlast xs)"

definition fresh_alloc :: "('v heap \<Rightarrow> nat) \<Rightarrow> bool" where
  "fresh_alloc alloc \<longleftrightarrow> (\<forall>h. finite (dom h) \<longrightarrow> h (alloc h) = None)"

lemma seq_index_map [simp]: "seq_index i (map f xs) = seq_index i xs"
  by (simp add: seq_index_def)

lemma seq_index_less: "seq_index i xs = Some k \<Longrightarrow> k < length xs"
  unfolding seq_index_def by (auto split: if_splits)

lemma listIndex_seq: "dlist h l ns \<Longrightarrow> listIndex h l i = Some (map_option (\<lambda>k. fst (ns ! k)) (seq_index i ns))"
  by (simp add: listIndex_correct seq_index_def)

lemma frame_finite:
  assumes "finite (dom h)" "\<forall>b. b \<notin> S \<longrightarrow> h' b = h b" "finite S"
  shows "finite (dom h')"
proof -
  have "dom h' \<subseteq> dom h \<union> S" using assms(2) by (metis UnCI domIff subsetI)
  then show ?thesis using assms(1,3) finite_subset by blast
qed

definition step_ok :: "'v heap \<times> 'v list_hdr \<Rightarrow> 'v list \<Rightarrow> bool" where
  "step_ok = (\<lambda>(h, l) vs. \<exists>ns. dlist h l ns \<and> map snd ns = vs \<and> finite (dom h))"

lemma step_okI:
  assumes "dlist h' l' ns" "map snd ns = vs" "finite (dom h)" "\<forall>b. b \<notin> S \<longrightarrow> h' b = h b" "finite S"
  shows "step_ok (h', l') vs"
  unfolding step_ok_def using assms frame_finite [OF assms(3-5)] by auto

lemma length_seq_step: "length (seq_step c vs) \<le> Suc (length vs)"
  by (cases c) (auto simp: Let_def split: option.splits)

lemma list_step_index:
  assumes d: "dlist h l ns" and k: "seq_index i ns = Some k" and f: "finite (dom h)" and a: "h a = None"
    and n: "length ns < 2 ^ 64 - 1"
  shows "\<exists>h' l'. listDelNode h l (Some (fst (ns ! k))) = Some (h', l') \<and>
      step_ok (h', l') (take k (map snd ns) @ drop (Suc k) (map snd ns))"
    "\<exists>h' l'. listInsertNode (Some a) h l (Some (fst (ns ! k))) v True = Some (h', l', True) \<and>
      step_ok (h', l') (take (Suc k) (map snd ns) @ [v] @ drop (Suc k) (map snd ns))"
    "\<exists>h' l'. listInsertNode (Some a) h l (Some (fst (ns ! k))) v False = Some (h', l', True) \<and>
      step_ok (h', l') (take k (map snd ns) @ [v] @ drop k (map snd ns))"
proof -
  define xs where "xs = take k ns"
  define ys where "ys = drop (Suc k) ns"
  obtain b w where bw: "ns ! k = (b, w)" by fastforce
  have kl: "k < length ns" using k by (rule seq_index_less)
  have ns: "ns = xs @ (b, w) # ys" using id_take_nth_drop [OF kl] bw by (simp add: xs_def ys_def)
  have vs: "take k (map snd ns) = map snd xs" "drop (Suc k) (map snd ns) = map snd ys"
    "take (Suc k) (map snd ns) = map snd (xs @ [(b, w)])" "drop k (map snd ns) = map snd ((b, w) # ys)"
    using kl bw by (simp_all add: xs_def ys_def take_map drop_map take_Suc_conv_app_nth Cons_nth_drop_Suc [symmetric])
  note d' = d [unfolded ns]
  show "\<exists>h' l'. listDelNode h l (Some (fst (ns ! k))) = Some (h', l') \<and>
      step_ok (h', l') (take k (map snd ns) @ drop (Suc k) (map snd ns))"
  proof -
    obtain h' l' where r: "listDelNode h l (Some b) = Some (h', l')" "dlist h' l' (xs @ ys)"
      "\<forall>c. c \<notin> fst ` set (xs @ (b, w) # ys) \<longrightarrow> h' c = h c"
      using listDelNode_correct [OF d'] by blast
    then show ?thesis using step_okI [OF r(2) refl f r(3)] bw vs(1,2) by simp
  qed
  have n': "length (xs @ (b, w) # ys) < 2 ^ 64 - 1" using n ns by simp
  show "\<exists>h' l'. listInsertNode (Some a) h l (Some (fst (ns ! k))) v True = Some (h', l', True) \<and>
      step_ok (h', l') (take (Suc k) (map snd ns) @ [v] @ drop (Suc k) (map snd ns))"
  proof -
    obtain h' l' where r: "listInsertNode (Some a) h l (Some b) v True = Some (h', l', True)"
      "dlist h' l' (xs @ [(b, w), (a, v)] @ ys)" "\<forall>c. c \<notin> insert a (fst ` set (xs @ (b, w) # ys)) \<longrightarrow> h' c = h c"
      using listInsertNode_after [OF d' a n'] by blast
    then show ?thesis using step_okI [OF r(2) refl f r(3)] bw vs(2,3) by simp
  qed
  show "\<exists>h' l'. listInsertNode (Some a) h l (Some (fst (ns ! k))) v False = Some (h', l', True) \<and>
      step_ok (h', l') (take k (map snd ns) @ [v] @ drop k (map snd ns))"
  proof -
    obtain h' l' where r: "listInsertNode (Some a) h l (Some b) v False = Some (h', l', True)"
      "dlist h' l' (xs @ [(a, v), (b, w)] @ ys)" "\<forall>c. c \<notin> insert a (fst ` set (xs @ (b, w) # ys)) \<longrightarrow> h' c = h c"
      using listInsertNode_before [OF d' a n'] by blast
    then show ?thesis using step_okI [OF r(2) refl f r(3)] bw vs(1,4) by simp
  qed
qed

lemma list_step_refines:
  assumes "fresh_alloc alloc" "step_ok (h, l) vs" "length vs < 2 ^ 64 - 1"
  shows "\<exists>h' l'. list_step alloc c (h, l) = Some (h', l') \<and> step_ok (h', l') (seq_step c vs)"
proof -
  obtain ns where d: "dlist h l ns" and vs: "vs = map snd ns" and f: "finite (dom h)"
    using assms(2) by (auto simp: step_ok_def)
  have a: "h (alloc h) = None" using assms(1) f by (simp add: fresh_alloc_def)
  have n: "length ns < 2 ^ 64 - 1" using assms(3) vs by simp
  show ?thesis
  proof (cases c)
    case (AddHead v)
    obtain h' l' where r: "listAddNodeHead (Some (alloc h)) h l v = Some (h', l', True)" "dlist h' l' ((alloc h, v) # ns)"
      "\<forall>b. b \<notin> insert (alloc h) (fst ` set ns) \<longrightarrow> h' b = h b"
      using listAddNodeHead_correct [OF d a n, of v] by auto
    then show ?thesis using step_okI [OF r(2) refl f r(3)] AddHead vs by simp
  next
    case (AddTail v)
    obtain h' l' where r: "listAddNodeTail (Some (alloc h)) h l v = Some (h', l', True)" "dlist h' l' (ns @ [(alloc h, v)])"
      "\<forall>b. b \<notin> insert (alloc h) (fst ` set ns) \<longrightarrow> h' b = h b"
      using listAddNodeTail_correct [OF d a n, of v] by auto
    then show ?thesis using step_okI [OF r(2) refl f r(3)] AddTail vs by simp
  next
    case (InsertAt i v after)
    show ?thesis
    proof (cases "seq_index i ns")
      case None
      then show ?thesis using assms(2) InsertAt listIndex_seq [OF d] vs by simp
    next
      case (Some k)
      then show ?thesis using list_step_index(2,3) [OF d Some f a n, of v] InsertAt listIndex_seq [OF d] vs
        by (cases after) auto
    qed
  next
    case (DelAt i)
    show ?thesis
    proof (cases "seq_index i ns")
      case None
      then show ?thesis using assms(2) DelAt listIndex_seq [OF d] vs by simp
    next
      case (Some k)
      then show ?thesis using list_step_index(1) [OF d Some f a n] DelAt listIndex_seq [OF d] vs by auto
    qed
  next
    case Rotate
    obtain h' l' where r: "listRotate h l = Some (h', l')"
      "dlist h' l' (if length ns \<le> 1 then ns else last ns # butlast ns)"
      "\<forall>c. c \<notin> fst ` set ns \<longrightarrow> h' c = h c" using listRotate_correct [OF d] by blast
    have "map snd (if length ns \<le> 1 then ns else last ns # butlast ns) = seq_step Rotate vs"
      unfolding vs by (cases "ns = []") (auto simp: last_map map_butlast)
    then show ?thesis using step_okI [OF r(2) _ f r(3)] r(1) Rotate by simp
  qed
qed

lemma list_run_step_ok:
  assumes "fresh_alloc alloc"
  shows "step_ok s vs \<Longrightarrow> length vs + length cs < 2 ^ 64 - 1 \<Longrightarrow>
    \<exists>s'. list_run alloc cs s = Some s' \<and> step_ok s' (fold seq_step cs vs)"
proof (induction cs arbitrary: s vs)
  case (Cons c cs)
  obtain h l where s: "s = (h, l)" by fastforce
  obtain s' where s': "list_step alloc c s = Some s'" "step_ok s' (seq_step c vs)"
    using list_step_refines [OF assms, of h l vs c] Cons.prems s by auto
  then show ?case using Cons.IH [OF s'(2)] Cons.prems(2) length_seq_step [of c vs] by simp
qed simp

text \<open>Property C13: after any sequence of insertions at the ends, insertions next to a node, deletions and
  rotations on a list created empty, no operation has followed a NULL or freed pointer, and
  iterating from the head gives the sequence those operations build while iterating from the
  tail gives its reverse.\<close>
theorem list_run_refines:
  assumes "fresh_alloc alloc" "length cs < 2 ^ 64 - 1"
  shows "\<exists>h l. list_run alloc cs (Map.empty, listCreate) = Some (h, l) \<and>
    iterate (l_len l + 1) h (listRewind l) = Some (fold seq_step cs []) \<and>
    iterate (l_len l + 1) h (listRewindTail l) = Some (rev (fold seq_step cs []))"
proof -
  have i: "step_ok (Map.empty, listCreate) []"
    by (simp add: step_ok_def dlist_def listCreate_def)
  then obtain h l where "list_run alloc cs (Map.empty, listCreate) = Some (h, l)" "step_ok (h, l) (fold seq_step cs [])"
    using list_run_step_ok [OF assms(1) i, of cs] assms(2) by auto
  moreover then obtain ns where "dlist h l ns" "map snd ns = fold seq_step cs []" by (auto simp: step_ok_def)
  ultimately show ?thesis using iterate_correct [of h l ns] by auto
qed

definition bump_alloc :: "'v heap \<Rightarrow> nat" where
  "bump_alloc h = Suc (Max (insert 0 (dom h)))"

lemma bump_alloc_fresh: "fresh_alloc bump_alloc"
proof -
  have "h (Suc (Max (insert 0 (dom h)))) = None" if "finite (dom h)" for h :: "'a heap"
    using Max_ge [of "insert 0 (dom h)" "Suc (Max (insert 0 (dom h)))"] that by (metis Suc_n_not_le_n domIff finite_insert insertCI)
  then show ?thesis by (simp add: fresh_alloc_def bump_alloc_def)
qed

theorem list_run_refines_witness:
  "\<exists>h l. list_run bump_alloc [AddTail 1, AddTail 2, AddHead 0, InsertAt (-1) 9 False, DelAt 1, Rotate] (Map.empty, listCreate) = Some (h, l) \<and>
    iterate (l_len l + 1) h (listRewind l) = Some [2, 0, 9 :: nat] \<and>
    iterate (l_len l + 1) h (listRewindTail l) = Some [9, 0, 2]"
  using list_run_refines [OF bump_alloc_fresh, of "[AddTail 1, AddTail 2, AddHead 0, InsertAt (-1) 9 False, DelAt 1, Rotate] :: nat list_op list"]
  by (simp add: seq_index_def Let_def del: list_run.simps iterate.simps)

section \<open>Duplication\<close>

lemma listDup_loop_correct:
  assumes "lseg h p ns None" "\<forall>v. (case l_dup copy of None \<Rightarrow> Some v | Some dup \<Rightarrow> dup v) = Some (g v)" "dlist h copy ms" "length ns < fuel" "length addrs = length ns" "distinct addrs"
    "\<forall>a\<in>set addrs. h a = None" "fst ` set ns \<inter> fst ` set ms = {}" "length ms + length ns < 2 ^ 64"
  shows "\<exists>h' c. listDup_loop fuel addrs h \<lparr>iter_next = first_ptr ns None, iter_from_head = True\<rparr> copy = Some (h', Some c) \<and>
    dlist h' c (ms @ zip addrs (map (\<lambda>n. g (snd n)) ns)) \<and>
    (\<forall>b. b \<notin> fst ` set ms \<longrightarrow> b \<notin> set addrs \<longrightarrow> h' b = h b)"
  using assms
proof (induction ns arbitrary: fuel addrs h copy ms p)
  case Nil
  then show ?case by (cases fuel) (auto simp: listNext_def)
next
  case (Cons n ns)
  obtain fuel' where fuel: "fuel = Suc fuel'" using Cons.prems(4) by (cases fuel) auto
  obtain a as where addrs: "addrs = a # as" using Cons.prems(5) by (cases addrs) auto
  define v where "v = g (snd n)"
  have dv: "(case l_dup copy of None \<Rightarrow> Some (snd n) | Some dup \<Rightarrow> dup (snd n)) = Some v"
    using Cons.prems(2) by (simp add: v_def)
  have fa: "h a = None" and lm: "length ms < 2 ^ 64 - 1" using Cons.prems(7,9) addrs by auto
  obtain h1 c1 where r: "listAddNodeTail (Some a) h copy v = Some (h1, c1, True)" "dlist h1 c1 (ms @ [(a, v)])"
    "\<forall>b. b \<notin> fst ` set ms \<longrightarrow> b \<noteq> a \<longrightarrow> h1 b = h b" "l_dup c1 = l_dup copy"
    using listAddNodeTail_correct [OF Cons.prems(3) fa lm, of v] by blast
  have an: "a \<notin> fst ` set (n # ns)" using lseg_alloc [OF Cons.prems(1)] fa by blast
  have "lseg h1 (Some (fst n)) ns None = lseg h (Some (fst n)) ns None"
    by (rule lseg_frame) (use r(3) Cons.prems(8) an in auto)
  then have sg: "lseg h1 (Some (fst n)) ns None" using Cons.prems(1) by simp
  have fr: "\<forall>b\<in>set as. h1 b = None"
  proof
    fix b assume b: "b \<in> set as"
    then have "h b = None" "b \<noteq> a" using Cons.prems(6,7) addrs by auto
    then show "h1 b = None" using r(3) fresh_notin [OF Cons.prems(3)] by metis
  qed
  obtain h' c where "listDup_loop fuel' as h1 \<lparr>iter_next = first_ptr ns None, iter_from_head = True\<rparr> c1 = Some (h', Some c)"
    "dlist h' c ((ms @ [(a, v)]) @ zip as (map (\<lambda>n. g (snd n)) ns))"
    "\<forall>b. b \<notin> fst ` set (ms @ [(a, v)]) \<longrightarrow> b \<notin> set as \<longrightarrow> h' b = h1 b"
    using Cons.IH [OF sg _ r(2), of fuel' as] r(4) Cons.prems fr an fuel addrs by auto
  then show ?case using r dv Cons.prems(1) fuel addrs by (auto simp: listNext_def v_def cong: option.case_cong)
qed

text \<open>Property C35: listDup returns a list with the same values (through the dup method when there is one)
  in freshly allocated nodes, and leaves every existing node unchanged.\<close>
theorem listDup_copies:
  assumes "dlist h l ns" "l_dup l = None \<or> l_dup l = Some (\<lambda>v. Some (f v))"
    "length addrs = length ns" "distinct addrs" "\<forall>a\<in>set addrs. h a = None"
  shows "\<exists>h' c. listDup addrs h l = Some (h', Some c) \<and>
    dlist h' c (zip addrs (map (\<lambda>n. (if l_dup l = None then id else f) (snd n)) ns)) \<and>
    dlist h' l ns \<and> (\<forall>b. b \<notin> set addrs \<longrightarrow> h' b = h b)"
proof -
  define c0 where "c0 = (listCreate :: 'a list_hdr)\<lparr>l_dup := l_dup l, l_match := l_match l\<rparr>"
  have "dlist h c0 []" "l_dup c0 = l_dup l" by (simp_all add: c0_def dlist_def listCreate_def)
  moreover have "lseg h None ns None" "length ns < 2 ^ 64" "l_head l = first_ptr ns None" "l_len l = length ns"
    using assms(1) by (simp_all add: dlist_def)
  ultimately obtain h' c where r: "listDup addrs h l = Some (h', Some c)"
    "dlist h' c (zip addrs (map (\<lambda>n. (if l_dup l = None then id else f) (snd n)) ns))"
    "\<forall>b. b \<notin> set addrs \<longrightarrow> h' b = h b"
    using listDup_loop_correct [of h None ns c0 "if l_dup l = None then id else f" "[]" "Suc (length ns)" addrs]
      assms(2-5) by (auto simp: listDup_def listGetIterator_def c0_def simp del: listDup_loop.simps)
  have "lseg h' None ns None = lseg h None ns None"
  proof (rule lseg_frame)
    fix a assume "a \<in> fst ` set ns"
    then have "a \<notin> set addrs" using fresh_notin [OF assms(1)] assms(5) by blast
    then show "h' a = h a" using r(3) by simp
  qed
  then have "dlist h' l ns" using assms(1) by (simp add: dlist_def)
  then show ?thesis using r by blast
qed

theorem listDup_copies_witness:
  "\<exists>h' c. listDup [5] [1 \<mapsto> \<lparr>node_prev = None, node_next = None, node_value = (7 :: nat)\<rparr>]
      \<lparr>l_head = Some 1, l_tail = Some 1, l_dup = None, l_match = None, l_len = 1\<rparr> = Some (h', Some c) \<and>
    dlist h' c [(5, 7)]"
  using listDup_copies [of "[1 \<mapsto> \<lparr>node_prev = None, node_next = None, node_value = (7 :: nat)\<rparr>]"
      "\<lparr>l_head = Some 1, l_tail = Some 1, l_dup = None, l_match = None, l_len = 1\<rparr>" "[(1, 7)]" id "[5]"]
  by (auto simp: dlist_def simp del: listDup_loop.simps)

end
