(* ===== verification/Multi.thy ===== *)
theory Multi
  imports Redis_Prelude
begin

text \<open>
  Transactions: the command dispatch of \<open>redis.c\<close> (\<open>processCommand\<close>, \<open>call\<close>) with the MULTI/EXEC/WATCH
  machinery of \<open>multi.c\<close> over the state of the server: its clients, its databases, each with the map
  from watched keys to the clients that watch them, the dirty counter and the stream of commands
  propagated to the append-only file and the replicas.

  Clients and databases are identified by numbers. \<^const>\<open>None\<close> is a failed assertion or an access
  through a NULL pointer. What an ordinary command does is a list of the primitive changes that the
  commands of the server are made of (setting or deleting a key of any database, signalling a key,
  selecting a database, rewriting the argument vector, propagating a command, replying, ...), computed
  from the whole state by a function of the environment: the theorems hold for all such functions,
  whether or not a command signals the keys it changes. Eviction (\<open>freeMemoryIfNeeded\<close>), the serving of
  blocked clients and the expiry of keys are lists of such changes too. The command table, the
  configuration and the cluster routing are fields of the environment. Monitors, the slow log,
  statistics and scripts are left out of \<open>call\<close>. The field \<open>sigs\<close> of the server is not in the program:
  it counts, for each key, how often it was signalled as modified.
\<close>

section \<open>Data\<close>

definition REDIS_MASTER :: uint32 where "REDIS_MASTER = 2"
definition REDIS_MULTI :: uint32 where "REDIS_MULTI = 8"
definition REDIS_DIRTY_CAS :: uint32 where "REDIS_DIRTY_CAS = 32"
definition REDIS_CLOSE_AFTER_REPLY :: uint32 where "REDIS_CLOSE_AFTER_REPLY = 64"
definition REDIS_LUA_CLIENT :: uint32 where "REDIS_LUA_CLIENT = 256"
definition REDIS_DIRTY_EXEC :: uint32 where "REDIS_DIRTY_EXEC = 4096"
definition REDIS_FORCE_AOF :: uint32 where "REDIS_FORCE_AOF = 16384"
definition REDIS_FORCE_REPL :: uint32 where "REDIS_FORCE_REPL = 32768"
definition REDIS_PUBSUB :: uint32 where "REDIS_PUBSUB = 262144"

definition REDIS_CMD_WRITE :: uint32 where "REDIS_CMD_WRITE = 1"
definition REDIS_CMD_READONLY :: uint32 where "REDIS_CMD_READONLY = 2"
definition REDIS_CMD_DENYOOM :: uint32 where "REDIS_CMD_DENYOOM = 4"
definition REDIS_CMD_LOADING :: uint32 where "REDIS_CMD_LOADING = 512"
definition REDIS_CMD_STALE :: uint32 where "REDIS_CMD_STALE = 1024"

definition REDIS_PROPAGATE_AOF :: uint32 where "REDIS_PROPAGATE_AOF = 1"
definition REDIS_PROPAGATE_REPL :: uint32 where "REDIS_PROPAGATE_REPL = 2"

lemmas flag_defs = REDIS_MASTER_def REDIS_MULTI_def REDIS_DIRTY_CAS_def REDIS_CLOSE_AFTER_REPLY_def
  REDIS_LUA_CLIENT_def REDIS_DIRTY_EXEC_def REDIS_FORCE_AOF_def REDIS_FORCE_REPL_def REDIS_PUBSUB_def
  REDIS_PROPAGATE_AOF_def REDIS_PROPAGATE_REPL_def
  REDIS_CMD_WRITE_def REDIS_CMD_READONLY_def REDIS_CMD_DENYOOM_def REDIS_CMD_LOADING_def REDIS_CMD_STALE_def

text \<open>The command procedures that \<open>processCommand\<close> tells apart, and all the others.\<close>

datatype 'p cmd_proc =
  authCommand | pingCommand | subscribeCommand | unsubscribeCommand | psubscribeCommand
| punsubscribeCommand | replconfCommand | shutdownCommand | scriptCommand
| multiCommandP | execCommandP | discardCommandP | watchCommandP | unwatchCommandP
| flushdbCommandP | flushallCommandP | OtherCommand 'p

record 'p redisCommand =
  cmd_proc :: "'p cmd_proc"
  cmd_arity :: int
  cmd_flags :: uint32
  cmd_has_keys :: bool

datatype 'r reply =
  ReplyOk | ReplyQueued | ReplyError string | ReplyNullMulti | ReplyExecAbort
| ReplyMultiLen nat | Reply 'r

type_synonym cmd_argv = "string list"

record ('p, 'r) client =
  c_flags :: uint32
  c_db :: nat
  c_cmd :: "'p redisCommand option"
  c_argv :: cmd_argv
  c_mstate :: "('p redisCommand \<times> cmd_argv) list"
  c_watched :: "(nat \<times> string) list"
  c_out :: "'r reply list"
  c_authenticated :: bool

record 'v redisDb =
  db_dict :: "string \<Rightarrow> 'v option"
  db_watched :: "string \<Rightarrow> nat list option"

text \<open>A propagated command: the command, the database, the argument vector, and where it goes.\<close>

datatype 'p propagated = PropMulti nat | PropCmd "'p redisCommand" nat cmd_argv uint32

record ('p, 'r, 'v) server =
  clients :: "nat \<Rightarrow> ('p, 'r) client option"
  client_list :: "nat list"
  dbs :: "nat \<Rightarrow> 'v redisDb"
  dirty :: int
  prop_log :: "'p propagated list"
  also_propagate :: "'p propagated list"
  sigs :: "nat \<Rightarrow> string \<Rightarrow> nat"

text \<open>The primitive changes. Those of the key space need no client.\<close>

datatype ('p, 'v) key_action =
  SetKey nat string "'v option" | SignalKey nat string | PropagateNow "'p propagated"

text \<open>The client flags that the procedures of commands set and clear.\<close>

datatype client_flag = FSlave | FMonitor | FBlocked | FCloseAfterReply | FUnblocked | FAsking | FCloseAsap
| FMasterForceReply | FForceAof | FForceRepl | FPrePsync | FReadonly | FPubsub

fun flag_mask :: "client_flag \<Rightarrow> uint32" where
  "flag_mask FSlave = 1" | "flag_mask FMonitor = 4" | "flag_mask FBlocked = 16" | "flag_mask FCloseAfterReply = 64"
| "flag_mask FUnblocked = 128" | "flag_mask FAsking = 512" | "flag_mask FCloseAsap = 1024"
| "flag_mask FMasterForceReply = 8192" | "flag_mask FForceAof = 16384" | "flag_mask FForceRepl = 32768"
| "flag_mask FPrePsync = 65536" | "flag_mask FReadonly = 131072" | "flag_mask FPubsub = 262144"

datatype ('p, 'r, 'v) action =
  OnKeys "('p, 'v) key_action" | AddDirty int | AlsoPropagate "'p propagated" | SelectDb nat
| RewriteCommand "'p redisCommand" cmd_argv | SetFlag client_flag | ClearFlag client_flag
| Authenticate bool | ReplyTo nat 'r

record ('p, 'r, 'v) env =
  lookupCommand :: "string \<Rightarrow> 'p redisCommand option"
  other_proc :: "'p cmd_proc \<Rightarrow> nat \<Rightarrow> ('p, 'r, 'v) server \<Rightarrow> ('p, 'r, 'v) action list"
  dbnum :: nat
  requirepass :: bool
  cluster_enabled :: bool
  cluster_state_ok :: bool
  query_is_myself :: "('p, 'r) client \<Rightarrow> 'p redisCommand \<Rightarrow> cmd_argv \<Rightarrow> bool"
  lua_caller_is_master :: bool
  maxmemory :: nat
  freeMemoryIfNeeded :: "('p, 'r, 'v) server \<Rightarrow> ('p, 'v) key_action list \<times> bool"
  handleClientsBlockedOnLists :: "('p, 'r, 'v) server \<Rightarrow> ('p, 'r, 'v) action list"
  stop_writes_on_bgsave_err :: bool
  saveparamslen :: nat
  lastbgsave_status_ok :: bool
  aof_last_write_status_ok :: bool
  has_masterhost :: bool
  repl_min_slaves_to_write :: nat
  repl_min_slaves_max_lag :: nat
  repl_good_slaves_count :: nat
  repl_slave_ro :: bool
  repl_state_connected :: bool
  repl_serve_stale_data :: bool
  loading :: bool
  lua_timedout :: bool

definition upd_client ::
    "nat \<Rightarrow> (('p, 'r) client \<Rightarrow> ('p, 'r) client) \<Rightarrow> ('p, 'r, 'v) server \<Rightarrow> ('p, 'r, 'v) server" where
  "upd_client cid f s = s\<lparr>clients := (clients s)(cid := map_option f (clients s cid))\<rparr>"

definition upd_db :: "nat \<Rightarrow> ('v redisDb \<Rightarrow> 'v redisDb) \<Rightarrow> ('p, 'r, 'v) server \<Rightarrow> ('p, 'r, 'v) server" where
  "upd_db d f s = s\<lparr>dbs := (dbs s)(d := f (dbs s d))\<rparr>"

definition addReply :: "nat \<Rightarrow> 'r reply \<Rightarrow> ('p, 'r, 'v) server \<Rightarrow> ('p, 'r, 'v) server" where
  "addReply cid r = upd_client cid (\<lambda>c. c\<lparr>c_out := c_out c @ [r]\<rparr>)"

definition set_flag :: "uint32 \<Rightarrow> ('p, 'r) client \<Rightarrow> ('p, 'r) client" where
  "set_flag f c = c\<lparr>c_flags := c_flags c OR f\<rparr>"

definition clear_flag :: "uint32 \<Rightarrow> ('p, 'r) client \<Rightarrow> ('p, 'r) client" where
  "clear_flag f c = c\<lparr>c_flags := c_flags c AND NOT f\<rparr>"

definition has_flag :: "uint32 \<Rightarrow> ('p, 'r) client \<Rightarrow> bool" where
  "has_flag f c \<longleftrightarrow> c_flags c AND f \<noteq> 0"

section \<open>WATCH\<close>

definition watchForKey :: "nat \<Rightarrow> string \<Rightarrow> ('p, 'r, 'v) server \<Rightarrow> ('p, 'r, 'v) server option" where
  "watchForKey cid key s = do {
     c \<leftarrow> clients s cid;
     if (c_db c, key) \<in> set (c_watched c) then Some s
     else
       (let cl = (case db_watched (dbs s (c_db c)) key of None \<Rightarrow> [] | Some cl \<Rightarrow> cl);
            s = upd_db (c_db c) (\<lambda>db. db\<lparr>db_watched := (db_watched db)(key \<mapsto> cl @ [cid])\<rparr>) s
        in Some (upd_client cid (\<lambda>c. c\<lparr>c_watched := c_watched c @ [(c_db c, key)]\<rparr>) s))
   }"

text \<open>The loop of \<open>unwatchAllKeys\<close>: the assertion and the search of the client in the list of the key may fail.\<close>

fun unwatch_loop :: "nat \<Rightarrow> (nat \<times> string) list \<Rightarrow> ('p, 'r, 'v) server \<Rightarrow> ('p, 'r, 'v) server option" where
  "unwatch_loop cid [] s = Some s"
| "unwatch_loop cid ((d, key) # wks) s = do {
     cl \<leftarrow> db_watched (dbs s d) key;
     if cid \<notin> set cl then None
     else
       (let cl = remove1 cid cl;
            s = upd_db d (\<lambda>db. db\<lparr>db_watched := (db_watched db)(key := (if cl = [] then None else Some cl))\<rparr>) s;
            s = upd_client cid (\<lambda>c. c\<lparr>c_watched := wks\<rparr>) s
        in unwatch_loop cid wks s)
   }"

definition unwatchAllKeys :: "nat \<Rightarrow> ('p, 'r, 'v) server \<Rightarrow> ('p, 'r, 'v) server option" where
  "unwatchAllKeys cid s = do { c \<leftarrow> clients s cid; unwatch_loop cid (c_watched c) s }"

definition touchWatchedKey :: "nat \<Rightarrow> string \<Rightarrow> ('p, 'r, 'v) server \<Rightarrow> ('p, 'r, 'v) server" where
  "touchWatchedKey d key s =
     (if db_watched (dbs s d) = Map.empty then s
      else case db_watched (dbs s d) key of None \<Rightarrow> s
           | Some cl \<Rightarrow> fold (\<lambda>cid. upd_client cid (set_flag REDIS_DIRTY_CAS)) cl s)"

definition signalModifiedKey :: "nat \<Rightarrow> string \<Rightarrow> ('p, 'r, 'v) server \<Rightarrow> ('p, 'r, 'v) server" where
  "signalModifiedKey d key s =
     touchWatchedKey d key (s\<lparr>sigs := (sigs s)(d := (sigs s d)(key := Suc (sigs s d key)))\<rparr>)"

text \<open>\<open>dbid\<close> is \<^const>\<open>None\<close> for the -1 of FLUSHALL. The loops run over the clients and the watched keys of each.\<close>

definition flush_touches :: "nat option \<Rightarrow> ('p, 'r, 'v) server \<Rightarrow> ('p, 'r) client \<Rightarrow> bool" where
  "flush_touches dbid s c \<longleftrightarrow>
     list_ex (\<lambda>(d, key). (dbid = None \<or> dbid = Some d) \<and> db_dict (dbs s d) key \<noteq> None) (c_watched c)"

definition touchWatchedKeysOnFlush :: "nat option \<Rightarrow> ('p, 'r, 'v) server \<Rightarrow> ('p, 'r, 'v) server" where
  "touchWatchedKeysOnFlush dbid s =
     fold (\<lambda>cid. upd_client cid (\<lambda>c. if flush_touches dbid s c then set_flag REDIS_DIRTY_CAS c else c))
       (client_list s) s"

definition signalFlushedDb :: "nat option \<Rightarrow> ('p, 'r, 'v) server \<Rightarrow> ('p, 'r, 'v) server" where
  "signalFlushedDb dbid s = touchWatchedKeysOnFlush dbid
     (s\<lparr>sigs := (\<lambda>d key. if (dbid = None \<or> dbid = Some d) \<and> db_dict (dbs s d) key \<noteq> None
        then Suc (sigs s d key) else sigs s d key)\<rparr>)"

section \<open>MULTI, DISCARD and the queue\<close>

definition initClientMultiState :: "nat \<Rightarrow> ('p, 'r, 'v) server \<Rightarrow> ('p, 'r, 'v) server" where
  "initClientMultiState cid = upd_client cid (\<lambda>c. c\<lparr>c_mstate := []\<rparr>)"

definition queueMultiCommand :: "nat \<Rightarrow> 'p redisCommand \<Rightarrow> ('p, 'r, 'v) server \<Rightarrow> ('p, 'r, 'v) server" where
  "queueMultiCommand cid cmd = upd_client cid (\<lambda>c. c\<lparr>c_mstate := c_mstate c @ [(cmd, c_argv c)]\<rparr>)"

definition discardTransaction :: "nat \<Rightarrow> ('p, 'r, 'v) server \<Rightarrow> ('p, 'r, 'v) server option" where
  "discardTransaction cid s =
     unwatchAllKeys cid (upd_client cid (clear_flag (REDIS_MULTI OR REDIS_DIRTY_CAS OR REDIS_DIRTY_EXEC))
       (initClientMultiState cid s))"

definition flagTransaction :: "nat \<Rightarrow> ('p, 'r, 'v) server \<Rightarrow> ('p, 'r, 'v) server" where
  "flagTransaction cid = upd_client cid (\<lambda>c. if has_flag REDIS_MULTI c then set_flag REDIS_DIRTY_EXEC c else c)"

definition multiCommand :: "nat \<Rightarrow> ('p, 'r, 'v) server \<Rightarrow> ('p, 'r, 'v) server option" where
  "multiCommand cid s = do {
     c \<leftarrow> clients s cid;
     if has_flag REDIS_MULTI c then Some (addReply cid (ReplyError ''MULTI calls can not be nested'') s)
     else Some (addReply cid ReplyOk (upd_client cid (set_flag REDIS_MULTI) s))
   }"

definition discardCommand :: "nat \<Rightarrow> ('p, 'r, 'v) server \<Rightarrow> ('p, 'r, 'v) server option" where
  "discardCommand cid s = do {
     c \<leftarrow> clients s cid;
     if \<not> has_flag REDIS_MULTI c then Some (addReply cid (ReplyError ''DISCARD without MULTI'') s)
     else map_option (addReply cid ReplyOk) (discardTransaction cid s)
   }"

fun watch_args :: "nat \<Rightarrow> string list \<Rightarrow> ('p, 'r, 'v) server \<Rightarrow> ('p, 'r, 'v) server option" where
  "watch_args cid [] s = Some s"
| "watch_args cid (key # keys) s = watchForKey cid key s \<bind> watch_args cid keys"

definition watchCommand :: "nat \<Rightarrow> ('p, 'r, 'v) server \<Rightarrow> ('p, 'r, 'v) server option" where
  "watchCommand cid s = do {
     c \<leftarrow> clients s cid;
     if has_flag REDIS_MULTI c then Some (addReply cid (ReplyError ''WATCH inside MULTI is not allowed'') s)
     else map_option (addReply cid ReplyOk) (watch_args cid (tl (c_argv c)) s)
   }"

definition unwatchCommand :: "nat \<Rightarrow> ('p, 'r, 'v) server \<Rightarrow> ('p, 'r, 'v) server option" where
  "unwatchCommand cid s =
     map_option (\<lambda>s. addReply cid ReplyOk (upd_client cid (clear_flag REDIS_DIRTY_CAS) s)) (unwatchAllKeys cid s)"

section \<open>Executing a command\<close>

definition flushdbCommand :: "nat \<Rightarrow> ('p, 'r, 'v) server \<Rightarrow> ('p, 'r, 'v) server option" where
  "flushdbCommand cid s = do {
     c \<leftarrow> clients s cid;
     s \<leftarrow> Some (s\<lparr>dirty := dirty s + int (card (dom (db_dict (dbs s (c_db c)))))\<rparr>);
     s \<leftarrow> Some (signalFlushedDb (Some (c_db c)) s);
     Some (addReply cid ReplyOk (upd_db (c_db c) (\<lambda>db. db\<lparr>db_dict := Map.empty\<rparr>) s))
   }"

definition emptyDb :: "nat \<Rightarrow> ('p, 'r, 'v) server \<Rightarrow> ('p, 'r, 'v) server \<times> nat" where
  "emptyDb n s = (fold (\<lambda>d. upd_db d (\<lambda>db. db\<lparr>db_dict := Map.empty\<rparr>)) [0..<n] s,
     sum_list (map (\<lambda>d. card (dom (db_dict (dbs s d)))) [0..<n]))"

definition flushallCommand :: "nat \<Rightarrow> nat \<Rightarrow> ('p, 'r, 'v) server \<Rightarrow> ('p, 'r, 'v) server option" where
  "flushallCommand n cid s =
     (let s = signalFlushedDb None s; (s, removed) = emptyDb n s
      in Some (addReply cid ReplyOk (s\<lparr>dirty := dirty s + int removed + 1\<rparr>)))"

definition propagate :: "'p propagated \<Rightarrow> ('p, 'r, 'v) server \<Rightarrow> ('p, 'r, 'v) server" where
  "propagate e s = s\<lparr>prop_log := prop_log s @ [e]\<rparr>"

fun do_key_action :: "('p, 'v) key_action \<Rightarrow> ('p, 'r, 'v) server \<Rightarrow> ('p, 'r, 'v) server" where
  "do_key_action (SetKey d key v) s = upd_db d (\<lambda>db. db\<lparr>db_dict := (db_dict db)(key := v)\<rparr>) s"
| "do_key_action (SignalKey d key) s = signalModifiedKey d key s"
| "do_key_action (PropagateNow e) s = propagate e s"

text \<open>\<open>SelectDb\<close> is \<open>selectDb\<close>, which refuses a number out of range, and \<open>RewriteCommand\<close> is
  \<open>rewriteClientCommandVector\<close> or \<open>rewriteClientCommandArgument\<close>.\<close>

fun do_action :: "nat \<Rightarrow> nat \<Rightarrow> ('p, 'r, 'v) action \<Rightarrow> ('p, 'r, 'v) server \<Rightarrow> ('p, 'r, 'v) server" where
  "do_action n cid (OnKeys a) s = do_key_action a s"
| "do_action n cid (AddDirty i) s = s\<lparr>dirty := dirty s + i\<rparr>"
| "do_action n cid (AlsoPropagate e) s = s\<lparr>also_propagate := also_propagate s @ [e]\<rparr>"
| "do_action n cid (SelectDb d) s = (if d < n then upd_client cid (\<lambda>c. c\<lparr>c_db := d\<rparr>) s else s)"
| "do_action n cid (RewriteCommand cmd argv) s = upd_client cid (\<lambda>c. c\<lparr>c_cmd := Some cmd, c_argv := argv\<rparr>) s"
| "do_action n cid (SetFlag f) s = upd_client cid (set_flag (flag_mask f)) s"
| "do_action n cid (ClearFlag f) s = upd_client cid (clear_flag (flag_mask f)) s"
| "do_action n cid (Authenticate b) s = upd_client cid (\<lambda>c. c\<lparr>c_authenticated := b\<rparr>) s"
| "do_action n cid (ReplyTo i r) s = addReply i (Reply r) s"

definition otherCommand ::
    "('p, 'r, 'v) env \<Rightarrow> 'p cmd_proc \<Rightarrow> nat \<Rightarrow> ('p, 'r, 'v) server \<Rightarrow> ('p, 'r, 'v) server option" where
  "otherCommand en p cid s = Some (fold (do_action (dbnum en) cid) (other_proc en p cid s) s)"

text \<open>The procedures that can be queued. The procedures of the transaction itself are not among them.\<close>

definition queued_proc ::
    "('p, 'r, 'v) env \<Rightarrow> 'p cmd_proc \<Rightarrow> nat \<Rightarrow> ('p, 'r, 'v) server \<Rightarrow> ('p, 'r, 'v) server option" where
  "queued_proc en p cid s = (case p of
       unwatchCommandP \<Rightarrow> unwatchCommand cid s
     | flushdbCommandP \<Rightarrow> flushdbCommand cid s
     | flushallCommandP \<Rightarrow> flushallCommand (dbnum en) cid s
     | execCommandP \<Rightarrow> None | discardCommandP \<Rightarrow> None | multiCommandP \<Rightarrow> None | watchCommandP \<Rightarrow> None
     | _ \<Rightarrow> otherCommand en p cid s)"

definition force_flags :: uint32 where
  "force_flags = REDIS_FORCE_AOF OR REDIS_FORCE_REPL"

text \<open>Where \<open>call\<close> propagates the command that has run: forced by its flags, or everywhere if it
  raised the dirty counter.\<close>

definition propagate_flags :: "('p, 'r) client \<Rightarrow> bool \<Rightarrow> uint32" where
  "propagate_flags c changed =
     (if has_flag REDIS_FORCE_REPL c then REDIS_PROPAGATE_REPL else 0) OR
     (if has_flag REDIS_FORCE_AOF c then REDIS_PROPAGATE_AOF else 0) OR
     (if changed then REDIS_PROPAGATE_REPL OR REDIS_PROPAGATE_AOF else 0)"

definition restore_force :: "uint32 \<Rightarrow> ('p, 'r) client \<Rightarrow> ('p, 'r) client" where
  "restore_force old c = c\<lparr>c_flags := (c_flags c AND NOT force_flags) OR (old AND force_flags)\<rparr>"

text \<open>The command, its arguments and the database are read again after the procedure has run.\<close>

definition call_proc ::
    "('p cmd_proc \<Rightarrow> nat \<Rightarrow> ('p, 'r, 'v) server \<Rightarrow> ('p, 'r, 'v) server option) \<Rightarrow>
     nat \<Rightarrow> ('p, 'r, 'v) server \<Rightarrow> ('p, 'r, 'v) server option" where
  "call_proc run cid s = do {
     c \<leftarrow> clients s cid;
     cmd \<leftarrow> c_cmd c;
     t \<leftarrow> run (cmd_proc cmd) cid (upd_client cid (clear_flag force_flags) s\<lparr>also_propagate := []\<rparr>);
     c' \<leftarrow> clients t cid;
     cmd' \<leftarrow> c_cmd c';
     let flags = propagate_flags c' (dirty t > dirty s);
         t = (if flags \<noteq> 0 then propagate (PropCmd cmd' (c_db c') (c_argv c') flags) t else t);
         t = upd_client cid (restore_force (c_flags c)) t
     in Some ((fold propagate (also_propagate t) t)\<lparr>also_propagate := []\<rparr>)
   }"

definition execCommandPropagateMulti :: "nat \<Rightarrow> ('p, 'r, 'v) server \<Rightarrow> ('p, 'r, 'v) server option" where
  "execCommandPropagateMulti cid s = do { c \<leftarrow> clients s cid; Some (propagate (PropMulti (c_db c)) s) }"

text \<open>The loop of \<open>execCommand\<close> from the command with index \<open>j\<close> on. A command may rewrite its own vector,
  which is stored back in the queue.\<close>

fun exec_loop ::
    "('p, 'r, 'v) env \<Rightarrow> nat \<Rightarrow> nat \<Rightarrow> ('p redisCommand \<times> cmd_argv) list \<Rightarrow> bool \<Rightarrow> ('p, 'r, 'v) server \<Rightarrow>
     (('p, 'r, 'v) server \<times> bool) option" where
  "exec_loop en cid j [] must_propagate s = Some (s, must_propagate)"
| "exec_loop en cid j ((cmd, argv) # q) must_propagate s = do {
     s \<leftarrow> Some (upd_client cid (\<lambda>c. c\<lparr>c_cmd := Some cmd, c_argv := argv\<rparr>) s);
     (s, must_propagate) \<leftarrow> (if \<not> must_propagate \<and> cmd_flags cmd AND REDIS_CMD_READONLY = 0
        then map_option (\<lambda>s. (s, True)) (execCommandPropagateMulti cid s)
        else Some (s, must_propagate));
     s \<leftarrow> call_proc (queued_proc en) cid s;
     c \<leftarrow> clients s cid;
     cmd' \<leftarrow> c_cmd c;
     s \<leftarrow> Some (upd_client cid (\<lambda>c. c\<lparr>c_mstate := (c_mstate c)[j := (cmd', c_argv c)]\<rparr>) s);
     exec_loop en cid (Suc j) q must_propagate s
   }"

definition execCommand :: "('p, 'r, 'v) env \<Rightarrow> nat \<Rightarrow> ('p, 'r, 'v) server \<Rightarrow> ('p, 'r, 'v) server option" where
  "execCommand en cid s = do {
     c \<leftarrow> clients s cid;
     if \<not> has_flag REDIS_MULTI c then Some (addReply cid (ReplyError ''EXEC without MULTI'') s)
     else if has_flag (REDIS_DIRTY_CAS OR REDIS_DIRTY_EXEC) c then
       discardTransaction cid (addReply cid (if has_flag REDIS_DIRTY_EXEC c then ReplyExecAbort else ReplyNullMulti) s)
     else do {
       s \<leftarrow> unwatchAllKeys cid s;
       s \<leftarrow> Some (addReply cid (ReplyMultiLen (length (c_mstate c))) s);
       (s, must_propagate) \<leftarrow> exec_loop en cid 0 (c_mstate c) False s;
       s \<leftarrow> Some (upd_client cid (\<lambda>c'. c'\<lparr>c_cmd := c_cmd c, c_argv := c_argv c\<rparr>) s);
       s \<leftarrow> discardTransaction cid s;
       Some (if must_propagate then s\<lparr>dirty := dirty s + 1\<rparr> else s)
     }
   }"

definition full_proc ::
    "('p, 'r, 'v) env \<Rightarrow> 'p cmd_proc \<Rightarrow> nat \<Rightarrow> ('p, 'r, 'v) server \<Rightarrow> ('p, 'r, 'v) server option" where
  "full_proc en p cid s = (case p of
       execCommandP \<Rightarrow> execCommand en cid s
     | discardCommandP \<Rightarrow> discardCommand cid s
     | multiCommandP \<Rightarrow> multiCommand cid s
     | watchCommandP \<Rightarrow> watchCommand cid s
     | _ \<Rightarrow> queued_proc en p cid s)"

definition call :: "('p, 'r, 'v) env \<Rightarrow> nat \<Rightarrow> ('p, 'r, 'v) server \<Rightarrow> ('p, 'r, 'v) server option" where
  "call en = call_proc (full_proc en)"

section \<open>Dispatch\<close>

definition tolower :: "char \<Rightarrow> char" where
  "tolower ch = (let n = (of_char ch :: nat) in if 65 \<le> n \<and> n \<le> 90 then char_of (n + 32) else ch)"

text \<open>A request that is refused: the reply, and whether the transaction is flagged.\<close>

definition refuse :: "nat \<Rightarrow> bool \<Rightarrow> 'r reply \<Rightarrow> ('p, 'r, 'v) server \<Rightarrow> ('p, 'r, 'v) server option" where
  "refuse cid flag r s = Some (addReply cid r (if flag then flagTransaction cid s else s))"

definition arity_ok :: "'p redisCommand \<Rightarrow> cmd_argv \<Rightarrow> bool" where
  "arity_ok cmd argv \<longleftrightarrow> \<not> ((cmd_arity cmd > 0 \<and> cmd_arity cmd \<noteq> int (length argv)) \<or> int (length argv) < - cmd_arity cmd)"

definition cluster_checked :: "('p, 'r, 'v) env \<Rightarrow> ('p, 'r) client \<Rightarrow> 'p redisCommand \<Rightarrow> bool" where
  "cluster_checked en c cmd \<longleftrightarrow> cluster_enabled en \<and> \<not> has_flag REDIS_MASTER c \<and>
     \<not> (has_flag REDIS_LUA_CLIENT c \<and> lua_caller_is_master en) \<and> cmd_has_keys cmd"

definition is_write :: "'p redisCommand \<Rightarrow> bool" where
  "is_write cmd \<longleftrightarrow> cmd_flags cmd AND REDIS_CMD_WRITE \<noteq> 0"

definition disk_error :: "('p, 'r, 'v) env \<Rightarrow> bool" where
  "disk_error en \<longleftrightarrow> (stop_writes_on_bgsave_err en \<and> saveparamslen en > 0 \<and> \<not> lastbgsave_status_ok en)
     \<or> \<not> aof_last_write_status_ok en"

definition arg_initial :: "cmd_argv \<Rightarrow> char option" where
  "arg_initial argv = (if length argv = 2 then (case argv ! 1 of [] \<Rightarrow> None | ch # _ \<Rightarrow> Some (tolower ch)) else None)"

text \<open>The end of \<open>processCommand\<close>: the command is queued, or called, and then the clients blocked on lists
  are served.\<close>

definition dispatch :: "('p, 'r, 'v) env \<Rightarrow> nat \<Rightarrow> ('p, 'r) client \<Rightarrow> 'p redisCommand \<Rightarrow> ('p, 'r, 'v) server \<Rightarrow> ('p, 'r, 'v) server option" where
  "dispatch en cid c cmd s =
     (if has_flag REDIS_MULTI c \<and> cmd_proc cmd \<notin> {execCommandP, discardCommandP, multiCommandP, watchCommandP}
      then Some (addReply cid ReplyQueued (queueMultiCommand cid cmd s))
      else do {
        s \<leftarrow> call en cid s;
        Some (fold (do_action (dbnum en) cid) (handleClientsBlockedOnLists en s) s)
      })"

definition processCommand :: "('p, 'r, 'v) env \<Rightarrow> nat \<Rightarrow> cmd_argv \<Rightarrow> ('p, 'r, 'v) server \<Rightarrow> ('p, 'r, 'v) server option" where
  "processCommand en cid argv s0 = do {
     c \<leftarrow> clients s0 cid;
     s0 \<leftarrow> Some (upd_client cid (\<lambda>c. c\<lparr>c_argv := argv\<rparr>) s0);
     if argv = [] then None
     else if map tolower (hd argv) = ''quit'' then
       Some (upd_client cid (set_flag REDIS_CLOSE_AFTER_REPLY) (addReply cid ReplyOk s0))
     else do {
       s0 \<leftarrow> Some (upd_client cid (\<lambda>c. c\<lparr>c_cmd := lookupCommand en (hd argv)\<rparr>) s0);
       case lookupCommand en (hd argv) of
         None \<Rightarrow> refuse cid True (ReplyError ''unknown command'') s0
       | Some cmd \<Rightarrow>
         if \<not> arity_ok cmd argv then refuse cid True (ReplyError ''wrong number of arguments'') s0
         else if requirepass en \<and> \<not> c_authenticated c \<and> cmd_proc cmd \<noteq> authCommand
         then refuse cid True (ReplyError ''NOAUTH'') s0
         else if cluster_checked en c cmd \<and> \<not> cluster_state_ok en
         then refuse cid True (ReplyError ''CLUSTERDOWN'') s0
         else if cluster_checked en c cmd \<and> \<not> query_is_myself en c cmd argv
         then refuse cid True (ReplyError ''MOVED'') s0
         else
           (let (evicted, free_ok) = (if maxmemory en > 0 then freeMemoryIfNeeded en s0 else ([], True));
                s = fold do_key_action evicted s0 in
            if cmd_flags cmd AND REDIS_CMD_DENYOOM \<noteq> 0 \<and> \<not> free_ok
            then refuse cid True (ReplyError ''OOM'') s
            else if disk_error en \<and> \<not> has_masterhost en \<and> (is_write cmd \<or> cmd_proc cmd = pingCommand)
            then refuse cid True (ReplyError ''MISCONF'') s
            else if \<not> has_masterhost en \<and> repl_min_slaves_to_write en > 0 \<and> repl_min_slaves_max_lag en > 0 \<and>
              is_write cmd \<and> repl_good_slaves_count en < repl_min_slaves_to_write en
            then refuse cid True (ReplyError ''NOREPLICAS'') s
            else if has_masterhost en \<and> repl_slave_ro en \<and> \<not> has_flag REDIS_MASTER c \<and> is_write cmd
            then refuse cid False (ReplyError ''READONLY'') s
            else if has_flag REDIS_PUBSUB c \<and>
              cmd_proc cmd \<notin> {pingCommand, subscribeCommand, unsubscribeCommand, psubscribeCommand, punsubscribeCommand}
            then refuse cid False (ReplyError ''only (P)SUBSCRIBE / (P)UNSUBSCRIBE / QUIT allowed in this context'') s
            else if has_masterhost en \<and> \<not> repl_state_connected en \<and> \<not> repl_serve_stale_data en \<and>
              cmd_flags cmd AND REDIS_CMD_STALE = 0
            then refuse cid True (ReplyError ''MASTERDOWN'') s
            else if loading en \<and> cmd_flags cmd AND REDIS_CMD_LOADING = 0
            then refuse cid False (ReplyError ''LOADING'') s
            else if lua_timedout en \<and> cmd_proc cmd \<noteq> authCommand \<and> cmd_proc cmd \<noteq> replconfCommand \<and>
              \<not> (cmd_proc cmd = shutdownCommand \<and> arg_initial argv = Some (CHR ''n'')) \<and>
              \<not> (cmd_proc cmd = scriptCommand \<and> arg_initial argv = Some (CHR ''k''))
            then refuse cid True (ReplyError ''BUSY'') s
            else dispatch en cid c cmd s)
     }
   }"

section \<open>Connections\<close>

definition createClient :: "nat \<Rightarrow> ('p, 'r, 'v) server \<Rightarrow> ('p, 'r, 'v) server" where
  "createClient cid s = s\<lparr>clients := (clients s)(cid \<mapsto> \<lparr>c_flags = 0, c_db = 0, c_cmd = None, c_argv = [], c_mstate = [],
     c_watched = [], c_out = [], c_authenticated = False\<rparr>), client_list := client_list s @ [cid]\<rparr>"

text \<open>\<open>freeClient\<close> of a client that is not the link to the master, which is cached instead.\<close>

definition freeClient :: "nat \<Rightarrow> ('p, 'r, 'v) server \<Rightarrow> ('p, 'r, 'v) server option" where
  "freeClient cid s = do {
     s \<leftarrow> unwatchAllKeys cid s;
     if cid \<notin> set (client_list s) then None
     else Some (s\<lparr>clients := (clients s)(cid := None), client_list := remove1 cid (client_list s)\<rparr>)
   }"

text \<open>What happens to the server: a client connects, sends a request or disconnects, or the periodic
  cycle expires keys.\<close>

datatype ('p, 'v) event = Connect nat | Request nat cmd_argv | Disconnect nat | ExpireCycle "('p, 'v) key_action list"

fun do_event :: "('p, 'r, 'v) env \<Rightarrow> ('p, 'v) event \<Rightarrow> ('p, 'r, 'v) server \<Rightarrow> ('p, 'r, 'v) server option" where
  "do_event en (Connect cid) s = Some (createClient cid s)"
| "do_event en (Request cid argv) s = processCommand en cid argv s"
| "do_event en (Disconnect cid) s = freeClient cid s"
| "do_event en (ExpireCycle as) s = Some (fold do_key_action as s)"

end
