(* ===== verification/Multi_Watch.thy ===== *)
theory Multi_Watch
  imports Multi "HOL-Library.Sublist"
begin

text \<open>
  The invariant of the watched keys, and the relation between the signals of keys and the mark
  (\<open>REDIS_DIRTY_CAS\<close>) of the clients: a client is marked exactly when a key it watches has been
  signalled since.
\<close>

section \<open>Flags\<close>

lemma or_eq_0_word: "(a OR b :: uint32) = 0 \<longleftrightarrow> a = 0 \<and> b = 0"
  by (auto simp: bit_eq_iff bit_simps)

lemma has_set_flag [simp]: "has_flag f (set_flag g c) \<longleftrightarrow> has_flag f c \<or> g AND f \<noteq> 0"
  by (simp add: has_flag_def set_flag_def word_bw_lcs(1) or_eq_0_word bit.conj_disj_distrib2)

lemma has_clear_other: "f AND g = 0 \<Longrightarrow> has_flag f (clear_flag g c) = has_flag f c"
proof -
  assume "f AND g = 0"
  then have "(c_flags c AND NOT g) AND f = c_flags c AND f" by (auto simp: bit_eq_iff bit_simps)
  then show ?thesis by (simp add: has_flag_def clear_flag_def)
qed

lemma has_clear_same: "f AND NOT g = 0 \<Longrightarrow> \<not> has_flag f (clear_flag g c)"
proof -
  assume a: "f AND NOT g = 0"
  have "(c_flags c AND NOT g) AND f = c_flags c AND (f AND NOT g)" by (auto simp: bit_eq_iff bit_simps)
  then show ?thesis using a by (simp add: has_flag_def clear_flag_def)
qed

lemma flag_watched [simp]: "c_watched (set_flag f c) = c_watched c" "c_watched (clear_flag f c) = c_watched c"
  "c_mstate (set_flag f c) = c_mstate c" "c_mstate (clear_flag f c) = c_mstate c"
  "c_db (set_flag f c) = c_db c" "c_db (clear_flag f c) = c_db c"
  "c_out (set_flag f c) = c_out c" "c_out (clear_flag f c) = c_out c"
  "c_cmd (set_flag f c) = c_cmd c" "c_cmd (clear_flag f c) = c_cmd c"
  by (simp_all add: set_flag_def clear_flag_def)

lemma has_flag_upd [simp]: "has_flag f (c\<lparr>c_out := x\<rparr>) = has_flag f c" "has_flag f (c\<lparr>c_mstate := y\<rparr>) = has_flag f c"
  "has_flag f (c\<lparr>c_watched := z\<rparr>) = has_flag f c" "has_flag f (c\<lparr>c_db := d\<rparr>) = has_flag f c"
  "has_flag f (c\<lparr>c_cmd := m\<rparr>) = has_flag f c" "has_flag f (c\<lparr>c_argv := a\<rparr>) = has_flag f c"
  "has_flag f (c\<lparr>c_authenticated := b\<rparr>) = has_flag f c"
  by (simp_all add: has_flag_def)

text \<open>The flags of ordinary commands are not those of transactions.\<close>

lemma flag_mask_cas: "flag_mask f AND REDIS_DIRTY_CAS = 0" "REDIS_DIRTY_CAS AND flag_mask f = 0"
  by (cases f; simp add: REDIS_DIRTY_CAS_def)+

lemma restore_force_fields [simp]: "c_watched (restore_force old c) = c_watched c" "c_mstate (restore_force old c) = c_mstate c"
  "c_out (restore_force old c) = c_out c" "c_cmd (restore_force old c) = c_cmd c" "c_db (restore_force old c) = c_db c"
  by (simp_all add: restore_force_def)

lemma has_restore_other: "f AND force_flags = 0 \<Longrightarrow> has_flag f (restore_force old c) = has_flag f c"
proof -
  assume "f AND force_flags = 0"
  then have "((c_flags c AND NOT force_flags) OR (old AND force_flags)) AND f = c_flags c AND f"
    by (auto simp: bit_eq_iff bit_simps)
  then show ?thesis by (simp add: has_flag_def restore_force_def)
qed

lemma force_flags_cas: "REDIS_DIRTY_CAS AND force_flags = 0"
  by (simp add: force_flags_def flag_defs)

section \<open>The invariant\<close>

definition wkeys :: "('p, 'r, 'v) server \<Rightarrow> nat \<Rightarrow> (nat \<times> string) list" where
  "wkeys s cid = (case clients s cid of None \<Rightarrow> [] | Some c \<Rightarrow> c_watched c)"

definition watchers :: "('p, 'r, 'v) server \<Rightarrow> nat \<Rightarrow> string \<Rightarrow> nat list" where
  "watchers s d k = (case db_watched (dbs s d) k of None \<Rightarrow> [] | Some cl \<Rightarrow> cl)"

definition queue_of :: "('p, 'r, 'v) server \<Rightarrow> nat \<Rightarrow> ('p redisCommand \<times> cmd_argv) list" where
  "queue_of s cid = (case clients s cid of None \<Rightarrow> [] | Some c \<Rightarrow> c_mstate c)"

definition out_of :: "('p, 'r, 'v) server \<Rightarrow> nat \<Rightarrow> 'r reply list" where
  "out_of s cid = (case clients s cid of None \<Rightarrow> [] | Some c \<Rightarrow> c_out c)"

definition cmd_of :: "('p, 'r, 'v) server \<Rightarrow> nat \<Rightarrow> 'p redisCommand option" where
  "cmd_of s cid = (case clients s cid of None \<Rightarrow> None | Some c \<Rightarrow> c_cmd c)"

definition flagged :: "uint32 \<Rightarrow> ('p, 'r, 'v) server \<Rightarrow> nat \<Rightarrow> bool" where
  "flagged f s cid \<longleftrightarrow> (case clients s cid of None \<Rightarrow> False | Some c \<Rightarrow> has_flag f c)"

definition val_of :: "('p, 'r, 'v) server \<Rightarrow> nat \<Rightarrow> string \<Rightarrow> 'v option" where
  "val_of s d k = db_dict (dbs s d) k"

lemmas view_defs = wkeys_def queue_of_def out_of_def cmd_of_def flagged_def

text \<open>The two directions of the watch relation agree, and no key has an empty list of clients.\<close>

definition watch_inv :: "('p, 'r, 'v) server \<Rightarrow> bool" where
  "watch_inv s \<longleftrightarrow> dom (clients s) \<subseteq> set (client_list s) \<and>
     (\<forall>cid. distinct (wkeys s cid)) \<and> (\<forall>d k. distinct (watchers s d k)) \<and>
     (\<forall>cid d k. (d, k) \<in> set (wkeys s cid) \<longleftrightarrow> cid \<in> set (watchers s d k)) \<and>
     (\<forall>d k. db_watched (dbs s d) k \<noteq> Some [])"

text \<open>The mark of every client follows the signals of the keys it watches: it is set by a signal, kept while
  the keys are watched, and set by nothing else.\<close>

definition mark_set :: "('p, 'r, 'v) server \<Rightarrow> ('p, 'r, 'v) server \<Rightarrow> nat \<Rightarrow> bool" where
  "mark_set s s' i \<longleftrightarrow> (\<forall>d k. (d, k) \<in> set (wkeys s i) \<longrightarrow> (d, k) \<in> set (wkeys s' i) \<longrightarrow>
     flagged REDIS_DIRTY_CAS s i \<or> sigs s d k < sigs s' d k \<longrightarrow> flagged REDIS_DIRTY_CAS s' i)"

definition mark_cause :: "('p, 'r, 'v) server \<Rightarrow> ('p, 'r, 'v) server \<Rightarrow> nat \<Rightarrow> bool" where
  "mark_cause s s' i \<longleftrightarrow> (flagged REDIS_DIRTY_CAS s' i \<longrightarrow>
     flagged REDIS_DIRTY_CAS s i \<and> set (wkeys s i) \<subseteq> set (wkeys s' i) \<or>
     (\<exists>(d, k) \<in> set (wkeys s' i). sigs s d k < sigs s' d k))"

definition sigs_grow :: "('p, 'r, 'v) server \<Rightarrow> ('p, 'r, 'v) server \<Rightarrow> bool" where
  "sigs_grow s s' \<longleftrightarrow> (\<forall>d k. sigs s d k \<le> sigs s' d k)"

lemma mark_cause_trans: "mark_cause s t i \<Longrightarrow> mark_cause t u i \<Longrightarrow> sigs_grow s t \<Longrightarrow> sigs_grow t u \<Longrightarrow> mark_cause s u i"
proof -
  assume a: "mark_cause s t i" "mark_cause t u i" "sigs_grow s t" "sigs_grow t u"
  have g: "sigs s d k < sigs u d k" if "sigs s d k < sigs t d k \<or> sigs t d k < sigs u d k" for d k
    using that a(3,4) unfolding sigs_grow_def by (meson order.strict_trans1 order.strict_trans2)
  show ?thesis unfolding mark_cause_def
  proof
    assume f: "flagged REDIS_DIRTY_CAS u i"
    then consider "flagged REDIS_DIRTY_CAS t i" "set (wkeys t i) \<subseteq> set (wkeys u i)"
      | d k where "(d, k) \<in> set (wkeys u i)" "sigs t d k < sigs u d k"
      using a(2) unfolding mark_cause_def by blast
    then show "flagged REDIS_DIRTY_CAS s i \<and> set (wkeys s i) \<subseteq> set (wkeys u i) \<or>
        (\<exists>(d, k) \<in> set (wkeys u i). sigs s d k < sigs u d k)"
    proof cases
      case 1
      then show ?thesis using a(1) g unfolding mark_cause_def by blast
    qed (use g in blast)
  qed
qed

text \<open>The queues hold no procedure of the transaction machinery itself.\<close>

definition transaction_proc :: "'p cmd_proc \<Rightarrow> bool" where
  "transaction_proc p \<longleftrightarrow> p \<in> {execCommandP, discardCommandP, multiCommandP, watchCommandP}"

definition queue_ok :: "('p, 'r, 'v) server \<Rightarrow> bool" where
  "queue_ok s \<longleftrightarrow> (\<forall>cid. \<forall>x \<in> set (queue_of s cid). \<not> transaction_proc (cmd_proc (fst x)))"

definition queues_grow :: "nat set \<Rightarrow> ('p, 'r, 'v) server \<Rightarrow> ('p, 'r, 'v) server \<Rightarrow> bool" where
  "queues_grow X s s' \<longleftrightarrow> (\<forall>i. i \<notin> X \<longrightarrow>
     (\<forall>x \<in> set (queue_of s' i). x \<in> set (queue_of s i) \<or> \<not> transaction_proc (cmd_proc (fst x))))"

text \<open>What the changes inside a command keep: the invariant, the clients and their replies, the queues of the
  clients outside a set, and the law of the marks. No key is watched anew.\<close>

definition keeps :: "nat set \<Rightarrow> ('p, 'r, 'v) server \<Rightarrow> ('p, 'r, 'v) server \<Rightarrow> bool" where
  "keeps X s s' \<longleftrightarrow> (watch_inv s \<longrightarrow> watch_inv s') \<and> dom (clients s') = dom (clients s) \<and> queues_grow X s s' \<and>
     sigs_grow s s' \<and> (\<forall>i. cmd_of s i \<noteq> None \<longrightarrow> cmd_of s' i \<noteq> None) \<and> (\<forall>i. prefix (out_of s i) (out_of s' i)) \<and>
     (\<forall>i. set (wkeys s' i) \<subseteq> set (wkeys s i)) \<and> (watch_inv s \<longrightarrow> (\<forall>i. mark_set s s' i \<and> mark_cause s s' i))"

lemma keepsD:
  assumes "keeps X s s'"
  shows "watch_inv s \<Longrightarrow> watch_inv s'" "dom (clients s') = dom (clients s)" "queues_grow X s s'" "sigs_grow s s'"
    "cmd_of s i \<noteq> None \<Longrightarrow> cmd_of s' i \<noteq> None" "prefix (out_of s i) (out_of s' i)" "set (wkeys s' i) \<subseteq> set (wkeys s i)"
    "watch_inv s \<Longrightarrow> mark_set s s' i" "watch_inv s \<Longrightarrow> mark_cause s s' i"
  using assms by (simp_all add: keeps_def)

lemma keeps_refl [simp]: "keeps X s s"
  by (simp add: keeps_def queues_grow_def sigs_grow_def mark_set_def mark_cause_def)

lemma mark_set_trans:
  assumes "mark_set s t i" "mark_set t u i" "sigs_grow s t" "sigs_grow t u" "set (wkeys u i) \<subseteq> set (wkeys t i)"
  shows "mark_set s u i"
proof -
  have "sigs s d k < sigs t d k \<or> sigs t d k < sigs u d k" if "sigs s d k < sigs u d k" for d k
    using that by linarith
  then show ?thesis using assms unfolding mark_set_def by blast
qed

lemma queues_grow_trans: "queues_grow X s t \<Longrightarrow> queues_grow X t u \<Longrightarrow> queues_grow X s u"
  unfolding queues_grow_def by blast

lemma sigs_grow_trans: "sigs_grow s t \<Longrightarrow> sigs_grow t u \<Longrightarrow> sigs_grow s u"
  unfolding sigs_grow_def using order.trans by blast

lemma keeps_trans:
  assumes "keeps X s t" "keeps X t u" shows "keeps X s u"
proof -
  note a = keepsD [OF assms(1)] and b = keepsD [OF assms(2)]
  have "mark_set s u i" "mark_cause s u i" if "watch_inv s" for i
    using mark_set_trans [OF a(8) b(8) a(4) b(4) b(7)] mark_cause_trans [OF a(9) b(9) a(4) b(4)] a(1) that by blast+
  then show ?thesis unfolding keeps_def
    using a(1-3) b(1-3) a(5) b(5) queues_grow_trans [OF a(3) b(3)] sigs_grow_trans [OF a(4) b(4)]
      prefix_order.trans [OF a(6) b(6)] subset_trans [OF b(7) a(7)] by simp
qed

lemma keeps_mono: "keeps X s s' \<Longrightarrow> X \<subseteq> Y \<Longrightarrow> keeps Y s s'"
  by (auto simp: keeps_def queues_grow_def)

lemma keeps_client: "keeps X s s' \<Longrightarrow> clients s cid \<noteq> None \<Longrightarrow> clients s' cid \<noteq> None"
  unfolding keeps_def by (metis domIff)

lemma keeps_watch_inv: "keeps X s s' \<Longrightarrow> watch_inv s \<Longrightarrow> watch_inv s'"
  by (simp add: keeps_def)

lemma keeps_fold: "(\<And>x s. keeps X s (f x s)) \<Longrightarrow> keeps X s (fold f xs s)"
  by (induction xs arbitrary: s) (auto intro: keeps_trans)

text \<open>Changes that none of the views see.\<close>

lemma keeps_same:
  assumes "clients s' = clients s" "client_list s' = client_list s" "\<And>d. db_watched (dbs s' d) = db_watched (dbs s d)"
    "sigs s' = sigs s"
  shows "keeps X s s'"
proof -
  have "wkeys s' = wkeys s" "queue_of s' = queue_of s" "out_of s' = out_of s" "cmd_of s' = cmd_of s" "flagged f s' = flagged f s"
    "watchers s' = watchers s" for f
    using assms by (simp_all add: view_defs watchers_def fun_eq_iff)
  then show ?thesis using assms by (simp add: keeps_def watch_inv_def queues_grow_def sigs_grow_def mark_set_def mark_cause_def)
qed

lemma upd_client_simps [simp]: "clients (upd_client cid f s) =
    (clients s)(cid := map_option f (clients s cid))" "dbs (upd_client cid f s) = dbs s"
    "client_list (upd_client cid f s) = client_list s" "dirty (upd_client cid f s) = dirty s"
    "prop_log (upd_client cid f s) = prop_log s" "sigs (upd_client cid f s) = sigs s"
    "also_propagate (upd_client cid f s) = also_propagate s"
  by (simp_all add: upd_client_def)

lemma upd_db_simps [simp]: "clients (upd_db d f s) = clients s" "dbs (upd_db d f s) = (dbs s)(d := f (dbs s d))"
    "client_list (upd_db d f s) = client_list s" "dirty (upd_db d f s) = dirty s" "prop_log (upd_db d f s) = prop_log s"
    "sigs (upd_db d f s) = sigs s" "also_propagate (upd_db d f s) = also_propagate s"
  by (simp_all add: upd_db_def)

lemma keeps_fields [simp]: "keeps X s (s\<lparr>dirty := n\<rparr>)" "keeps X s (s\<lparr>prop_log := l\<rparr>)" "keeps X s (s\<lparr>also_propagate := l\<rparr>)"
    "keeps X s (propagate e s)" "keeps X s (upd_db d (\<lambda>db. db\<lparr>db_dict := m db\<rparr>) s)"
  by (rule keeps_same; simp add: propagate_def)+

lemma dom_upd_client: "dom (clients (upd_client cid f s)) = dom (clients s)"
  by (auto simp: dom_def)

lemma view_upd_client:
  "wkeys (upd_client cid f s) i = (if i = cid \<and> clients s cid \<noteq> None then c_watched (f (the (clients s cid))) else wkeys s i)"
  "queue_of (upd_client cid f s) i = (if i = cid \<and> clients s cid \<noteq> None then c_mstate (f (the (clients s cid))) else queue_of s i)"
  "flagged g (upd_client cid f s) i = (if i = cid \<and> clients s cid \<noteq> None then has_flag g (f (the (clients s cid))) else flagged g s i)"
  "watchers (upd_client cid f s) = watchers s" "val_of (upd_client cid f s) = val_of s"
  "out_of (upd_client cid f s) i = (if i = cid \<and> clients s cid \<noteq> None then c_out (f (the (clients s cid))) else out_of s i)"
  "cmd_of (upd_client cid f s) i = (if i = cid \<and> clients s cid \<noteq> None then c_cmd (f (the (clients s cid))) else cmd_of s i)"
  by (auto simp: view_defs watchers_def val_of_def fun_eq_iff split: option.splits)

text \<open>Updates of one client that leave its watched keys and its mark alone.\<close>

lemma wkeys_upd_client:
  assumes "\<And>c. c_watched (f c) = c_watched c"
  shows "wkeys (upd_client cid f s) = wkeys s"
  using assms by (cases "clients s cid") (auto simp: fun_eq_iff wkeys_def)

lemma watch_inv_upd:
  assumes "\<And>c. c_watched (f c) = c_watched c"
  shows "watch_inv (upd_client cid f s) = watch_inv s"
  by (simp only: watch_inv_def wkeys_upd_client [of f, OF assms] view_upd_client(4) dom_upd_client upd_client_simps(2,3))

lemma keeps_upd_client:
  assumes w: "\<And>c. c_watched (f c) = c_watched c" and m: "\<And>c. has_flag REDIS_DIRTY_CAS (f c) = has_flag REDIS_DIRTY_CAS c"
    and o: "\<And>c. prefix (c_out c) (c_out (f c))" and c: "\<And>c. c_cmd c \<noteq> None \<Longrightarrow> c_cmd (f c) \<noteq> None"
    and q: "\<And>c x. cid \<notin> X \<Longrightarrow> x \<in> set (c_mstate (f c)) \<Longrightarrow> x \<in> set (c_mstate c) \<or> \<not> transaction_proc (cmd_proc (fst x))"
  shows "keeps X s (upd_client cid f s)"
proof -
  have f: "flagged REDIS_DIRTY_CAS (upd_client cid f s) i = flagged REDIS_DIRTY_CAS s i" for i
    using m by (cases "clients s cid") (auto simp: flagged_def)
  have "queues_grow X s (upd_client cid f s)"
    unfolding queues_grow_def view_upd_client(2) using q by (auto simp: queue_of_def) (metis fst_conv)
  moreover have "prefix (out_of s i) (out_of (upd_client cid f s) i)" "cmd_of s i \<noteq> None \<Longrightarrow> cmd_of (upd_client cid f s) i \<noteq> None" for i
    using o c by (cases "clients s cid"; auto simp: out_of_def cmd_of_def)+
  ultimately show ?thesis unfolding keeps_def dom_upd_client watch_inv_upd [of f, OF w]
    by (auto simp: wkeys_upd_client [of f, OF w] mark_set_def mark_cause_def sigs_grow_def f)
qed

lemma keeps_addReply [simp]: "keeps X s (addReply cid r s)"
  unfolding addReply_def by (rule keeps_upd_client) auto

lemma keeps_flag [simp]: "keeps X s (upd_client cid (set_flag (flag_mask f)) s)" "keeps X s (upd_client cid (clear_flag (flag_mask f)) s)"
  by (rule keeps_upd_client; simp add: flag_mask_cas has_clear_other)+

lemma keeps_client_fields [simp]: "keeps X s (upd_client cid (\<lambda>c. c\<lparr>c_db := d\<rparr>) s)"
    "keeps X s (upd_client cid (\<lambda>c. c\<lparr>c_authenticated := b\<rparr>) s)" "keeps X s (upd_client cid (\<lambda>c. c\<lparr>c_argv := a\<rparr>) s)"
    "keeps X s (upd_client cid (\<lambda>c. c\<lparr>c_cmd := Some m, c_argv := a\<rparr>) s)" "keeps X s (upd_client cid (restore_force old) s)"
  by (rule keeps_upd_client; simp add: has_restore_other force_flags_cas)+

lemma keeps_set_flag: "f AND REDIS_DIRTY_CAS = 0 \<Longrightarrow> keeps X s (upd_client cid (set_flag f) s)"
  by (rule keeps_upd_client) auto

lemma keeps_clear_flag: "REDIS_DIRTY_CAS AND f = 0 \<Longrightarrow> keeps X s (upd_client cid (clear_flag f) s)"
  by (rule keeps_upd_client) (auto simp: has_clear_other)

lemma keeps_flagTransaction [simp]: "keeps X s (flagTransaction cid s)"
  unfolding flagTransaction_def by (rule keeps_upd_client) (auto simp: flag_defs split: if_splits)

lemma keeps_init [simp]: "keeps X s (initClientMultiState cid s)"
  unfolding initClientMultiState_def by (rule keeps_upd_client) auto

section \<open>Touching keys\<close>

text \<open>A change that may only set the marks of clients.\<close>

definition marks :: "('p, 'r, 'v) server \<Rightarrow> ('p, 'r, 'v) server \<Rightarrow> bool" where
  "marks s s' \<longleftrightarrow> dbs s' = dbs s \<and> client_list s' = client_list s \<and> dirty s' = dirty s \<and> prop_log s' = prop_log s \<and>
     sigs s' = sigs s \<and>
     (\<forall>cid. map_option (\<lambda>c. c\<lparr>c_flags := 0\<rparr>) (clients s' cid) = map_option (\<lambda>c. c\<lparr>c_flags := 0\<rparr>) (clients s cid))"

lemma marks_refl [simp]: "marks s s"
  by (simp add: marks_def)

lemma marks_trans: "marks s t \<Longrightarrow> marks t u \<Longrightarrow> marks s u"
  by (simp add: marks_def)

lemma marks_fold: "(\<And>x s. marks s (f x s)) \<Longrightarrow> marks s (fold f xs s)"
  by (induction xs arbitrary: s) (auto intro: marks_trans)

lemma marks_upd: "marks s (upd_client cid (\<lambda>c. if P c then set_flag REDIS_DIRTY_CAS c else c) s)"
proof -
  have "map_option (\<lambda>c. c\<lparr>c_flags := 0\<rparr>) (map_option (\<lambda>c. if P c then set_flag REDIS_DIRTY_CAS c else c) (clients s cid)) =
    map_option (\<lambda>c. c\<lparr>c_flags := 0\<rparr>) (clients s cid)"
    by (cases "clients s cid") (auto simp: set_flag_def)
  then show ?thesis by (auto simp: marks_def)
qed

lemma marks_view:
  assumes "marks s s'"
  shows "wkeys s' = wkeys s" "queue_of s' = queue_of s" "out_of s' = out_of s" "cmd_of s' = cmd_of s"
    "watchers s' = watchers s" "val_of s' = val_of s" "dom (clients s') = dom (clients s)"
proof -
  have m: "map_option (\<lambda>c. c\<lparr>c_flags := 0\<rparr>) (clients s' cid) = map_option (\<lambda>c. c\<lparr>c_flags := 0\<rparr>) (clients s cid)" for cid
    using assms by (simp add: marks_def)
  have g: "map_option g (clients s' cid) = map_option g (clients s cid)" if "\<And>c. g (c\<lparr>c_flags := 0\<rparr>) = g c"
    for g :: "('a, 'b) client \<Rightarrow> 'x" and cid
    using arg_cong [OF m [of cid], of "map_option g"] that by (simp add: option.map_comp comp_def)
  have v: "(case clients s' cid of None \<Rightarrow> x | Some c \<Rightarrow> g c) = (case clients s cid of None \<Rightarrow> x | Some c \<Rightarrow> g c)"
    if "\<And>c. g (c\<lparr>c_flags := 0\<rparr>) = g c" for g :: "('a, 'b) client \<Rightarrow> 'x" and x cid
    using g [of g cid, OF that] by (cases "clients s cid"; cases "clients s' cid") auto
  show "wkeys s' = wkeys s" "queue_of s' = queue_of s" "out_of s' = out_of s" "cmd_of s' = cmd_of s"
    by (auto simp: view_defs fun_eq_iff intro!: v)
  have "clients s' cid = None \<longleftrightarrow> clients s cid = None" for cid
    using arg_cong [OF m [of cid], of "\<lambda>x. x = None"] by simp
  then show "dom (clients s') = dom (clients s)" by (auto simp: dom_def)
  show "watchers s' = watchers s" "val_of s' = val_of s"
    using assms by (simp_all add: marks_def watchers_def val_of_def fun_eq_iff)
qed

text \<open>The signals of some keys, with the clients that watch one of them marked.\<close>

lemma keeps_signals:
  assumes m: "marks (s\<lparr>sigs := g\<rparr>) s'" and g: "\<And>d k. sigs s d k \<le> g d k"
    and f: "\<And>i. watch_inv s \<Longrightarrow> flagged REDIS_DIRTY_CAS s' i \<longleftrightarrow>
      flagged REDIS_DIRTY_CAS s i \<or> (\<exists>(d, k) \<in> set (wkeys s i). sigs s d k < g d k)"
  shows "keeps X s s'"
proof -
  let ?t = "s\<lparr>sigs := g\<rparr>"
  have t: "wkeys ?t = wkeys s" "queue_of ?t = queue_of s" "out_of ?t = out_of s" "cmd_of ?t = cmd_of s" "watchers ?t = watchers s"
    by (simp_all add: view_defs watchers_def fun_eq_iff)
  note v = marks_view(1-5) [OF m, unfolded t]
  have d: "dom (clients s') = dom (clients s)" "dbs s' = dbs s" "client_list s' = client_list s" "sigs s' = g"
    using marks_view(7) [OF m] m by (simp_all add: marks_def)
  have "watch_inv s' = watch_inv s" using v d by (simp add: watch_inv_def)
  moreover have "mark_set s s' i \<and> mark_cause s s' i" if "watch_inv s" for i
    unfolding mark_set_def mark_cause_def v(1) d(4) using f [OF that, of i] by auto
  ultimately show ?thesis using g v d by (simp add: keeps_def queues_grow_def sigs_grow_def)
qed

lemma fold_mark:
  fixes P :: "nat \<Rightarrow> ('p, 'r) client \<Rightarrow> bool"
  assumes "\<And>i c. P i (set_flag REDIS_DIRTY_CAS c) = P i c"
  shows "flagged REDIS_DIRTY_CAS (fold (\<lambda>i. upd_client i (\<lambda>c. if P i c then set_flag REDIS_DIRTY_CAS c else c)) cl s) j \<longleftrightarrow>
    flagged REDIS_DIRTY_CAS s j \<or> (j \<in> set cl \<and> (\<exists>c. clients s j = Some c \<and> P j c))"
proof (induction cl arbitrary: s)
  case (Cons i cl)
  let ?f = "\<lambda>i c. if P i c then set_flag REDIS_DIRTY_CAS c else c"
  have "flagged REDIS_DIRTY_CAS (upd_client i (?f i) s) j \<longleftrightarrow>
      flagged REDIS_DIRTY_CAS s j \<or> (j = i \<and> (\<exists>c. clients s j = Some c \<and> P j c))"
    by (cases "clients s i") (auto simp: flagged_def REDIS_DIRTY_CAS_def)
  moreover have "(\<exists>c. clients (upd_client i (?f i) s) j = Some c \<and> P j c) \<longleftrightarrow> (\<exists>c. clients s j = Some c \<and> P j c)"
    using assms by (cases "clients s j") auto
  ultimately show ?case using Cons.IH [of "upd_client i (?f i) s"] by (auto simp del: upd_client_simps)
qed simp

lemma touch_view:
  "marks s (touchWatchedKey d k s)"
  "flagged REDIS_DIRTY_CAS (touchWatchedKey d k s) i \<longleftrightarrow>
     flagged REDIS_DIRTY_CAS s i \<or> (i \<in> set (watchers s d k) \<and> clients s i \<noteq> None)"
proof -
  have "marks s (fold (\<lambda>cid. upd_client cid (set_flag REDIS_DIRTY_CAS)) cl s)" for cl
    by (rule marks_fold) (use marks_upd [of _ _ "\<lambda>_. True"] in simp)
  then show "marks s (touchWatchedKey d k s)" by (simp add: touchWatchedKey_def split: option.splits)
  show "flagged REDIS_DIRTY_CAS (touchWatchedKey d k s) i \<longleftrightarrow>
     flagged REDIS_DIRTY_CAS s i \<or> (i \<in> set (watchers s d k) \<and> clients s i \<noteq> None)"
    using fold_mark [of "\<lambda>_ _. True" "watchers s d k" s i]
    by (auto simp: touchWatchedKey_def watchers_def split: option.splits)
qed

lemma flush_view:
  "marks s (touchWatchedKeysOnFlush dbid s)"
  "flagged REDIS_DIRTY_CAS (touchWatchedKeysOnFlush dbid s) i \<longleftrightarrow>
     flagged REDIS_DIRTY_CAS s i \<or> (i \<in> set (client_list s) \<and> (\<exists>c. clients s i = Some c \<and> flush_touches dbid s c))"
proof -
  show "marks s (touchWatchedKeysOnFlush dbid s)"
    unfolding touchWatchedKeysOnFlush_def by (rule marks_fold) (rule marks_upd)
  have "flush_touches dbid s (set_flag REDIS_DIRTY_CAS c) = flush_touches dbid s c" for c by (simp add: flush_touches_def)
  then show "flagged REDIS_DIRTY_CAS (touchWatchedKeysOnFlush dbid s) i \<longleftrightarrow>
     flagged REDIS_DIRTY_CAS s i \<or> (i \<in> set (client_list s) \<and> (\<exists>c. clients s i = Some c \<and> flush_touches dbid s c))"
    using fold_mark [of "\<lambda>_. flush_touches dbid s" "client_list s" s i] by (simp add: touchWatchedKeysOnFlush_def)
qed

lemma wkeys_client: "(d, k) \<in> set (wkeys s i) \<Longrightarrow> clients s i \<noteq> None"
  by (cases "clients s i") (auto simp: wkeys_def)

lemma keeps_signalModifiedKey [simp]: "keeps X s (signalModifiedKey d k s)"
proof -
  define g where "g = (sigs s)(d := (sigs s d)(k := Suc (sigs s d k)))"
  have g: "sigs s d' k' \<le> g d' k'" "sigs s d' k' < g d' k' \<longleftrightarrow> d' = d \<and> k' = k" for d' k' by (simp_all add: g_def)
  have s: "signalModifiedKey d k s = touchWatchedKey d k (s\<lparr>sigs := g\<rparr>)" by (simp add: signalModifiedKey_def g_def)
  have w: "watchers (s\<lparr>sigs := g\<rparr>) = watchers s" "flagged f (s\<lparr>sigs := g\<rparr>) = flagged f s" for f
    by (simp_all add: watchers_def flagged_def fun_eq_iff)
  show ?thesis unfolding s
  proof (rule keeps_signals [where g = g])
    fix i assume "watch_inv s"
    then have "i \<in> set (watchers s d k) \<longleftrightarrow> (d, k) \<in> set (wkeys s i)" by (simp add: watch_inv_def)
    then show "flagged REDIS_DIRTY_CAS (touchWatchedKey d k (s\<lparr>sigs := g\<rparr>)) i \<longleftrightarrow>
        flagged REDIS_DIRTY_CAS s i \<or> (\<exists>(d, k) \<in> set (wkeys s i). sigs s d k < g d k)"
      unfolding touch_view(2) w g(2) using wkeys_client [of d k s i] by auto
  qed (use g touch_view(1) in auto)
qed

lemma keeps_signalFlushedDb [simp]: "keeps X s (signalFlushedDb dbid s)"
proof -
  define g where "g = (\<lambda>d key. if (dbid = None \<or> dbid = Some d) \<and> db_dict (dbs s d) key \<noteq> None
        then Suc (sigs s d key) else sigs s d key)"
  have g: "sigs s d k \<le> g d k" "sigs s d k < g d k \<longleftrightarrow> (dbid = None \<or> dbid = Some d) \<and> db_dict (dbs s d) k \<noteq> None" for d k
    by (simp_all add: g_def)
  have s: "signalFlushedDb dbid s = touchWatchedKeysOnFlush dbid (s\<lparr>sigs := g\<rparr>)" by (simp add: signalFlushedDb_def g_def)
  have w: "flagged f (s\<lparr>sigs := g\<rparr>) = flagged f s" "flush_touches dbid (s\<lparr>sigs := g\<rparr>) = flush_touches dbid s" for f
    by (simp_all add: flagged_def flush_touches_def fun_eq_iff)
  show ?thesis unfolding s
  proof (rule keeps_signals [where g = g])
    fix i assume "watch_inv s"
    then have "clients s i = Some c \<Longrightarrow> i \<in> set (client_list s)" for c by (auto simp: watch_inv_def)
    then show "flagged REDIS_DIRTY_CAS (touchWatchedKeysOnFlush dbid (s\<lparr>sigs := g\<rparr>)) i \<longleftrightarrow>
        flagged REDIS_DIRTY_CAS s i \<or> (\<exists>(d, k) \<in> set (wkeys s i). sigs s d k < g d k)"
      unfolding flush_view(2) w g(2) by (cases "clients s i") (auto simp: wkeys_def flush_touches_def list_ex_iff)
  qed (use g flush_view(1) in auto)
qed

section \<open>Unwatching\<close>

text \<open>The invariant while the loop runs: all keys of the other clients, and the remaining keys of this one.\<close>

definition unwatched :: "nat \<Rightarrow> ('p, 'r, 'v) server \<Rightarrow> ('p, 'r, 'v) server \<Rightarrow> bool" where
  "unwatched cid s s' \<longleftrightarrow> clients s' = (clients s)(cid := map_option (\<lambda>c. c\<lparr>c_watched := []\<rparr>) (clients s cid)) \<and>
     val_of s' = val_of s \<and> client_list s' = client_list s \<and> dirty s' = dirty s \<and> prop_log s' = prop_log s \<and>
     sigs s' = sigs s"

lemma watchers_upd_db:
  "watchers (upd_db d (\<lambda>db. db\<lparr>db_watched := (db_watched db)(k := x)\<rparr>) s) d' k' =
     (if d' = d \<and> k' = k then (case x of None \<Rightarrow> [] | Some cl \<Rightarrow> cl) else watchers s d' k')"
  by (simp add: watchers_def)

lemma val_of_upd_watched: "val_of (upd_db d (\<lambda>db. db\<lparr>db_watched := w db\<rparr>) s) = val_of s"
  by (simp add: val_of_def fun_eq_iff)

lemma view_upd_db [simp]: "wkeys (upd_db d f s) = wkeys s" "queue_of (upd_db d f s) = queue_of s" "flagged g (upd_db d f s) = flagged g s"
  by (simp_all add: view_defs fun_eq_iff)

lemma unwatch_loop_correct:
  "watch_inv s \<Longrightarrow> wkeys s cid = wks \<Longrightarrow> clients s cid \<noteq> None \<Longrightarrow>
   \<exists>s'. unwatch_loop cid wks s = Some s' \<and> watch_inv s' \<and> unwatched cid s s'"
proof (induction wks arbitrary: s)
  case Nil
  then obtain c where "clients s cid = Some c" "c_watched c = []" by (auto simp: wkeys_def)
  then show ?case using Nil.prems(1) by (auto simp: unwatched_def)
next
  case (Cons wk wks)
  obtain d k where wk: "wk = (d, k)" by fastforce
  have "(d, k) \<in> set (wkeys s cid)" using Cons.prems(2) wk by simp
  moreover have "distinct (wkeys s cid)" using Cons.prems(1) by (simp add: watch_inv_def)
  ultimately have i: "(d, k) \<in> set (wkeys s cid)" "distinct (wkeys s cid)" by simp_all
  then have w: "cid \<in> set (watchers s d k)" using Cons.prems(1) by (simp add: watch_inv_def)
  then obtain cl where cl: "db_watched (dbs s d) k = Some cl" "cid \<in> set cl" "watchers s d k = cl"
    by (cases "db_watched (dbs s d) k") (auto simp: watchers_def)
  define cl' where "cl' = remove1 cid cl"
  define s1 where "s1 = upd_client cid (\<lambda>c. c\<lparr>c_watched := wks\<rparr>)
    (upd_db d (\<lambda>db. db\<lparr>db_watched := (db_watched db)(k := (if cl' = [] then None else Some cl'))\<rparr>) s)"
  have step: "unwatch_loop cid (wk # wks) s = unwatch_loop cid wks s1"
    using cl by (simp add: wk s1_def cl'_def Let_def)
  have dcl: "distinct cl" using Cons.prems(1) cl(3) by (metis watch_inv_def)
  have wk1: "wkeys s1 i = (if i = cid then wks else wkeys s i)" for i
    using Cons.prems(3) by (simp add: s1_def view_upd_client)
  have wt1: "watchers s1 d' k' = (if d' = d \<and> k' = k then cl' else watchers s d' k')" for d' k'
    by (simp add: s1_def view_upd_client watchers_upd_db)
  have "(d', k') \<in> set (wkeys s1 i) \<longleftrightarrow> i \<in> set (watchers s1 d' k')" for i d' k'
  proof -
    have "(d', k') \<in> set (wkeys s i) \<longleftrightarrow> i \<in> set (watchers s d' k')" using Cons.prems(1) by (simp add: watch_inv_def)
    then show ?thesis using dcl i(2) Cons.prems(2) cl(3) wk by (auto simp: wk1 wt1 cl'_def)
  qed
  moreover have "distinct (wkeys s1 i)" "distinct (watchers s1 d' k')" for i d' k'
    using Cons.prems(1,2) i(2) dcl by (auto simp: wk1 wt1 cl'_def watch_inv_def)
  moreover have "db_watched (dbs s1 d') k' \<noteq> Some []" for d' k'
    using Cons.prems(1) by (auto simp: s1_def watch_inv_def)
  moreover have "dom (clients s1) \<subseteq> set (client_list s1)"
    using Cons.prems(1) dom_upd_client unfolding s1_def watch_inv_def by (metis upd_client_simps(3) upd_db_simps(1,3))
  ultimately have "watch_inv s1" unfolding watch_inv_def by blast
  moreover have "wkeys s1 cid = wks" "clients s1 cid \<noteq> None" using wk1 Cons.prems(3) by (auto simp: s1_def)
  ultimately obtain s' where s': "unwatch_loop cid wks s1 = Some s'" "watch_inv s'" "unwatched cid s1 s'"
    using Cons.IH by blast
  have "unwatched cid s s'" using s'(3) Cons.prems(3)
    by (auto simp: unwatched_def s1_def view_upd_client(5) val_of_upd_watched option.map_comp comp_def)
  then show ?case using step s' by auto
qed

lemma unwatchAllKeys_correct:
  assumes "watch_inv s" "clients s cid \<noteq> None"
  shows "\<exists>s'. unwatchAllKeys cid s = Some s' \<and> watch_inv s' \<and> unwatched cid s s'"
  using unwatch_loop_correct [OF assms(1) _ assms(2)] assms(2) by (auto simp: unwatchAllKeys_def wkeys_def)

lemma unwatched_view:
  assumes "unwatched cid s s'"
  shows "wkeys s' i = (if i = cid then [] else wkeys s i)" "queue_of s' = queue_of s" "flagged f s' = flagged f s"
    "out_of s' = out_of s" "cmd_of s' = cmd_of s" "dom (clients s') = dom (clients s)" "val_of s' = val_of s" "sigs s' = sigs s"
proof -
  have c: "clients s' = (clients s)(cid := map_option (\<lambda>c. c\<lparr>c_watched := []\<rparr>) (clients s cid))"
    using assms by (simp add: unwatched_def)
  show "wkeys s' i = (if i = cid then [] else wkeys s i)" "queue_of s' = queue_of s" "flagged f s' = flagged f s"
    "out_of s' = out_of s" "cmd_of s' = cmd_of s" "dom (clients s') = dom (clients s)"
    unfolding view_defs fun_eq_iff c by (cases "clients s cid"; auto)+
  show "val_of s' = val_of s" "sigs s' = sigs s" using assms by (simp_all add: unwatched_def)
qed

text \<open>A client stops watching; its mark is then cleared, or was not set.\<close>

lemma keeps_unwatched:
  assumes u: "unwatched cid s t" and w: "watch_inv t" and t: "clients t' = clients (upd_client cid f t)" "dbs t' = dbs t"
      "client_list t' = client_list t" "sigs t' = sigs t"
    and f: "\<And>c. c_watched (f c) = c_watched c" "\<And>c. c_out (f c) = c_out c" "\<And>c. c_cmd (f c) = c_cmd c"
      "\<And>c. set (c_mstate (f c)) \<subseteq> set (c_mstate c)"
    and m: "\<not> flagged REDIS_DIRTY_CAS t' cid" "\<And>i. i \<noteq> cid \<Longrightarrow> flagged REDIS_DIRTY_CAS t' i = flagged REDIS_DIRTY_CAS t i"
  shows "keeps X s t'"
proof -
  let ?t = "upd_client cid f t"
  note v = unwatched_view [OF u]
  have "wkeys t' = wkeys ?t" "queue_of t' = queue_of ?t" "out_of t' = out_of ?t" "cmd_of t' = cmd_of ?t" "watchers t' = watchers t"
    using t by (simp_all add: view_defs watchers_def fun_eq_iff)
  moreover have "wkeys ?t = wkeys t" by (rule wkeys_upd_client) (rule f(1))
  moreover have "out_of ?t = out_of t" "cmd_of ?t = cmd_of t" "set (queue_of ?t i) \<subseteq> set (queue_of t i)" for i
    using f by (cases "clients t cid"; auto simp: view_defs fun_eq_iff)+
  ultimately have e: "wkeys t' = wkeys t" "out_of t' = out_of t" "cmd_of t' = cmd_of t" "watchers t' = watchers t"
      "set (queue_of t' i) \<subseteq> set (queue_of t i)" for i by auto
  have d: "dom (clients t') = dom (clients s)" unfolding t(1) dom_upd_client v(6) ..
  have "dom (clients t') \<subseteq> set (client_list t')" using w d v(6) t(3) by (simp add: watch_inv_def)
  then have "watch_inv t'" using w e t by (simp add: watch_inv_def)
  moreover have "mark_set s t' i \<and> mark_cause s t' i" for i
    using m v e by (cases "i = cid") (auto simp: mark_set_def mark_cause_def t(4))
  moreover have "queues_grow X s t'" using e(5) v(2) by (auto simp: queues_grow_def)
  ultimately show ?thesis using v e d t(4) by (simp add: keeps_def sigs_grow_def)
qed

lemma unwatched_keeps:
  assumes "unwatched cid s s'" "watch_inv s'" "\<not> flagged REDIS_DIRTY_CAS s cid"
  shows "keeps X s s'"
proof (rule keeps_unwatched [OF assms(1,2), where f = id])
  show "clients s' = clients (upd_client cid id s')" by (simp add: option.map_id fun_upd_idem)
qed (use unwatched_view(3) [OF assms(1)] assms(3) in auto)

section \<open>The commands\<close>

lemma keeps_key_action [simp]: "keeps X s (do_key_action a s)"
  by (cases a) simp_all

lemma keeps_action [simp]: "keeps X s (do_action n cid a s)"
  by (cases a) simp_all

lemma keeps_actions: "keeps X s (fold do_key_action as s)" "keeps X s (fold (do_action n cid) bs s)"
  by (rule keeps_fold, simp)+

lemma flushdbCommand_keeps:
  assumes "clients s cid \<noteq> None"
  shows "\<exists>s'. flushdbCommand cid s = Some s' \<and> keeps X s s'"
proof -
  obtain c where c: "clients s cid = Some c" using assms by blast
  define s1 where "s1 = s\<lparr>dirty := dirty s + int (card (dom (db_dict (dbs s (c_db c)))))\<rparr>"
  define s2 where "s2 = upd_db (c_db c) (\<lambda>db. db\<lparr>db_dict := Map.empty\<rparr>) (signalFlushedDb (Some (c_db c)) s1)"
  have "flushdbCommand cid s = Some (addReply cid ReplyOk s2)"
    using c by (simp add: flushdbCommand_def s1_def s2_def)
  moreover have "keeps X s s1" "keeps X s1 s2"
    unfolding s1_def s2_def by (simp, rule keeps_trans [OF keeps_signalFlushedDb keeps_fields(5)])
  ultimately show ?thesis by (metis keeps_addReply keeps_trans)
qed

lemma flushallCommand_keeps: "\<exists>s'. flushallCommand n cid s = Some s' \<and> keeps X s s'"
proof -
  define s1 where "s1 = fst (emptyDb n (signalFlushedDb None s))"
  have "keeps X t (fold (\<lambda>d. upd_db d (\<lambda>db. db\<lparr>db_dict := Map.empty\<rparr>)) ds t)" for ds and t :: "('a, 'b, 'c) server"
    by (rule keeps_fold) (rule keeps_fields(5))
  then have "keeps X s s1" unfolding s1_def emptyDb_def fst_conv by (rule keeps_trans [OF keeps_signalFlushedDb])
  moreover have "flushallCommand n cid s = Some (addReply cid ReplyOk
      (s1\<lparr>dirty := dirty s1 + int (snd (emptyDb n (signalFlushedDb None s))) + 1\<rparr>))"
    by (simp add: flushallCommand_def split_beta s1_def Let_def)
  ultimately show ?thesis by (metis keeps_addReply keeps_fields(1) keeps_trans)
qed

lemma unwatchCommand_keeps:
  assumes "watch_inv s" "clients s cid \<noteq> None"
  shows "\<exists>s'. unwatchCommand cid s = Some s' \<and> keeps X s s'"
proof -
  obtain t where t: "unwatchAllKeys cid s = Some t" "watch_inv t" "unwatched cid s t"
    using unwatchAllKeys_correct [OF assms] by blast
  let ?u = "upd_client cid (clear_flag REDIS_DIRTY_CAS) t"
  have "keeps X s ?u"
  proof (rule keeps_unwatched [OF t(3,2), where f = "clear_flag REDIS_DIRTY_CAS"])
    show "\<not> flagged REDIS_DIRTY_CAS ?u cid"
      by (cases "clients t cid") (simp_all add: flagged_def has_clear_same)
  qed (auto simp: view_upd_client(3))
  then show ?thesis using t(1) by (auto simp: unwatchCommand_def intro: keeps_trans [OF _ keeps_addReply])
qed

lemma keeps_discarded:
  assumes "watch_inv s" "clients s cid \<noteq> None"
  shows "\<exists>s'. discardTransaction cid s = Some s' \<and> keeps X s s' \<and> queue_of s' cid = []"
proof -
  let ?f = "clear_flag (REDIS_MULTI OR REDIS_DIRTY_CAS OR REDIS_DIRTY_EXEC)"
  define t where "t = upd_client cid ?f (initClientMultiState cid s)"
  have t: "clients t = (clients s)(cid := map_option (\<lambda>c. ?f (c\<lparr>c_mstate := []\<rparr>)) (clients s cid))" "dbs t = dbs s"
    "client_list t = client_list s" "sigs t = sigs s"
    by (simp_all add: t_def initClientMultiState_def option.map_comp comp_def)
  have i: "watch_inv t" "clients t cid \<noteq> None"
    using assms by (simp_all add: t_def initClientMultiState_def watch_inv_upd)
  obtain u where u: "unwatchAllKeys cid t = Some u" "watch_inv u" "unwatched cid t u"
    using unwatchAllKeys_correct [OF i] by blast
  have w: "wkeys t = wkeys s" unfolding t_def initClientMultiState_def by (simp add: wkeys_upd_client)
  have o: "out_of t = out_of s" "cmd_of t = cmd_of s" "queue_of t i = (if i = cid then [] else queue_of s i)"
    "flagged REDIS_DIRTY_CAS t i = (if i = cid then False else flagged REDIS_DIRTY_CAS s i)" for i
    using assms(2) by (auto simp: t(1) view_defs fun_eq_iff has_clear_same flag_defs split: option.splits)
  note v = unwatched_view [OF u(3)]
  have d: "dom (clients u) = dom (clients s)" unfolding v(6) t_def initClientMultiState_def dom_upd_client ..
  have "mark_set s u i \<and> mark_cause s u i" for i
    using v w o by (auto simp: mark_set_def mark_cause_def t(4))
  then have "keeps X s u" using u(2) v w o d t(4) by (auto simp: keeps_def queues_grow_def sigs_grow_def)
  then show ?thesis using u(1) v(2) o(3) by (auto simp: discardTransaction_def t_def)
qed

lemma queued_proc_keeps:
  assumes "watch_inv s" "clients s cid \<noteq> None" "\<not> transaction_proc p"
  shows "\<exists>s'. queued_proc en p cid s = Some s' \<and> keeps X s s'"
  using assms(3) keeps_actions(2) unwatchCommand_keeps [OF assms(1,2)] flushdbCommand_keeps [OF assms(2)] flushallCommand_keeps
  by (cases p) (simp_all add: queued_proc_def otherCommand_def transaction_proc_def)

text \<open>What \<open>call\<close> does before and after the procedure is not seen by the invariants.\<close>

definition calm :: "('p, 'r, 'v) server \<Rightarrow> ('p, 'r, 'v) server \<Rightarrow> bool" where
  "calm s s' \<longleftrightarrow> keeps {} s s' \<and> wkeys s' = wkeys s"

lemma calm_keeps: "calm s s' \<Longrightarrow> keeps X s s'"
  by (auto simp: calm_def intro: keeps_mono)

lemma calm_trans: "calm s t \<Longrightarrow> calm t u \<Longrightarrow> calm s u"
  by (auto simp: calm_def intro: keeps_trans)

lemma calm_propagate: "calm s (propagate e s)" "calm s (fold propagate es s)"
proof -
  show p: "calm s (propagate e s)" for e and s :: "('a, 'b, 'c) server"
    by (simp add: calm_def propagate_def view_defs fun_eq_iff)
  show "calm s (fold propagate es s)"
  proof (induction es arbitrary: s)
    case (Cons e es)
    then show ?case using p calm_trans by (metis fold_simps(2))
  qed (simp add: calm_def)
qed

lemma calm_also: "calm s (s\<lparr>also_propagate := l\<rparr>)"
  by (simp add: calm_def view_defs fun_eq_iff)

definition call_start :: "nat \<Rightarrow> ('p, 'r, 'v) server \<Rightarrow> ('p, 'r, 'v) server" where
  "call_start cid s = upd_client cid (clear_flag force_flags) s\<lparr>also_propagate := []\<rparr>"

lemma calm_call_start: "calm s (call_start cid s)"
proof -
  have "calm s (upd_client cid (clear_flag force_flags) s)"
    unfolding calm_def by (simp add: keeps_clear_flag force_flags_cas wkeys_upd_client)
  then show ?thesis unfolding call_start_def using calm_also calm_trans by blast
qed

lemma cmd_of_call_start [simp]: "cmd_of (call_start cid s) i = cmd_of s i"
  by (cases "clients s cid") (auto simp: call_start_def cmd_of_def)

lemma call_proc_frame:
  assumes "cmd_of s cid = Some cmd" "run (cmd_proc cmd) cid (call_start cid s) = Some t" "cmd_of t cid \<noteq> None"
  shows "\<exists>s'. call_proc run cid s = Some s' \<and> calm t s'"
proof -
  obtain c where c: "clients s cid = Some c" "c_cmd c = Some cmd"
    using assms(1) by (cases "clients s cid") (auto simp: cmd_of_def)
  obtain c' cmd' where c': "clients t cid = Some c'" "c_cmd c' = Some cmd'"
    using assms(3) by (cases "clients t cid") (auto simp: cmd_of_def)
  define fl where "fl = propagate_flags c' (dirty t > dirty s)"
  define t1 where "t1 = (if fl \<noteq> 0 then propagate (PropCmd cmd' (c_db c') (c_argv c') fl) t else t)"
  define t2 where "t2 = upd_client cid (restore_force (c_flags c)) t1"
  define t3 where "t3 = fold propagate (also_propagate t2) t2"
  have "calm t t1" by (simp add: t1_def calm_propagate) (simp add: calm_def)
  moreover have "calm t1 t2" unfolding t2_def calm_def by (simp add: wkeys_upd_client)
  moreover have "calm t2 (t3\<lparr>also_propagate := []\<rparr>)" unfolding t3_def using calm_propagate(2) calm_also calm_trans by blast
  moreover have "call_proc run cid s = Some (t3\<lparr>also_propagate := []\<rparr>)"
    using c c' assms(2) by (simp add: call_proc_def call_start_def [symmetric] Let_def fl_def t1_def t2_def t3_def)
  ultimately show ?thesis using calm_trans by blast
qed

lemma exec_loop_keeps:
  assumes "cid \<in> X"
  shows "watch_inv s \<Longrightarrow> clients s cid \<noteq> None \<Longrightarrow> \<forall>x\<in>set q. \<not> transaction_proc (cmd_proc (fst x)) \<Longrightarrow>
    \<exists>s' b. exec_loop en cid j q mp s = Some (s', b) \<and> keeps X s s'"
proof (induction q arbitrary: s mp j)
  case (Cons x q)
  obtain cmd argv where x: "x = (cmd, argv)" by fastforce
  define s0 where "s0 = upd_client cid (\<lambda>c. c\<lparr>c_cmd := Some cmd, c_argv := argv\<rparr>) s"
  obtain c where c: "clients s0 cid = Some c" "c_cmd c = Some cmd" using Cons.prems(2) by (auto simp: s0_def)
  define b where "b \<longleftrightarrow> \<not> mp \<and> cmd_flags cmd AND REDIS_CMD_READONLY = 0"
  define s1 where "s1 = (if b then propagate (PropMulti (c_db c)) s0 else s0)"
  have k0: "keeps X s s0" by (simp add: s0_def)
  have k1: "keeps X s s1" by (rule keeps_trans [OF k0]) (simp add: s1_def)
  have m1: "cmd_of s1 cid = Some cmd" using c by (simp add: s1_def propagate_def cmd_of_def)
  have k2: "keeps X s (call_start cid s1)" by (rule keeps_trans [OF k1 calm_keeps [OF calm_call_start]])
  obtain t where t: "queued_proc en (cmd_proc cmd) cid (call_start cid s1) = Some t" "keeps X (call_start cid s1) t"
    using queued_proc_keeps [OF keeps_watch_inv [OF k2 Cons.prems(1)] keeps_client [OF k2 Cons.prems(2)], of "cmd_proc cmd" en]
      Cons.prems(3) x by auto
  have "cmd_of t cid \<noteq> None" using keepsD(5) [OF t(2), of cid] m1 by simp
  then obtain s2 where s2: "call_proc (queued_proc en) cid s1 = Some s2" "calm t s2"
    using call_proc_frame [of s1 cid cmd "queued_proc en" t] m1 t(1) by blast
  have k3: "keeps X s s2" using k2 t(2) calm_keeps [OF s2(2)] keeps_trans by blast
  have "cmd_of s2 cid \<noteq> None" using keepsD(5) [OF calm_keeps [OF s2(2)]] \<open>cmd_of t cid \<noteq> None\<close> by blast
  then obtain c2 cmd2 where c2: "clients s2 cid = Some c2" "c_cmd c2 = Some cmd2"
    by (cases "clients s2 cid") (auto simp: cmd_of_def)
  define s3 where "s3 = upd_client cid (\<lambda>c. c\<lparr>c_mstate := (c_mstate c)[j := (cmd2, c_argv c)]\<rparr>) s2"
  have "keeps X s2 s3" unfolding s3_def by (rule keeps_upd_client) (use assms in auto)
  then have k4: "keeps X s s3" using k3 keeps_trans by blast
  obtain s4 b' where s4: "exec_loop en cid (Suc j) q (mp \<or> b) s3 = Some (s4, b')" "keeps X s3 s4"
    using Cons.IH [OF keeps_watch_inv [OF k4 Cons.prems(1)] keeps_client [OF k4 Cons.prems(2)]] Cons.prems(3) by fastforce
  have "(if \<not> mp \<and> cmd_flags cmd AND REDIS_CMD_READONLY = 0
      then map_option (\<lambda>s. (s, True)) (execCommandPropagateMulti cid s0) else Some (s0, mp)) = Some (s1, mp \<or> b)"
    using c by (simp add: b_def s1_def execCommandPropagateMulti_def)
  then have "exec_loop en cid j (x # q) mp s = Some (s4, b')"
    using x s2(1) c2 s4(1) by (simp add: s0_def [symmetric] s3_def [symmetric])
  then show ?case using keeps_trans [OF k4 s4(2)] by blast
qed simp

lemma keeps_own_queue: "keeps {cid} s s' \<Longrightarrow> queue_of s' cid = [] \<Longrightarrow> keeps {} s s'"
  unfolding keeps_def queues_grow_def by (metis empty_iff empty_set singletonD)

text \<open>An EXEC that is not aborted runs the whole queue.\<close>

lemma exec_run:
  assumes "watch_inv s" "queue_ok s" "clients s cid = Some c" "c_cmd c \<noteq> None" "has_flag REDIS_MULTI c"
    "\<not> has_flag (REDIS_DIRTY_CAS OR REDIS_DIRTY_EXEC) c"
  shows "\<exists>s'. execCommand en cid s = Some s' \<and> keeps {} s s' \<and>
    prefix (out_of s cid @ [ReplyMultiLen (length (queue_of s cid))]) (out_of s' cid)"
proof -
  have n: "clients s cid \<noteq> None" "queue_of s cid = c_mstate c" using assms(3) by (simp_all add: queue_of_def)
  have q: "\<forall>x\<in>set (c_mstate c). \<not> transaction_proc (cmd_proc (fst x))"
    using assms(2) n(2) unfolding queue_ok_def by metis
  have f: "\<not> flagged REDIS_DIRTY_CAS s cid"
    using assms(3,6) by (simp add: flagged_def has_flag_def bit.conj_disj_distrib or_eq_0_word)
  obtain s1 where s1: "unwatchAllKeys cid s = Some s1" "watch_inv s1" "unwatched cid s s1"
    using unwatchAllKeys_correct [OF assms(1) n(1)] by blast
  define s2 where "s2 = addReply cid (ReplyMultiLen (length (c_mstate c))) s1"
  have k2: "keeps {cid} s s2" unfolding s2_def using unwatched_keeps [OF s1(3,2) f] keeps_trans keeps_addReply by blast
  obtain s3 b where s3: "exec_loop en cid 0 (c_mstate c) False s2 = Some (s3, b)" "keeps {cid} s2 s3"
    using exec_loop_keeps [of cid "{cid}", OF _ keeps_watch_inv [OF k2 assms(1)] keeps_client [OF k2 n(1)] q] by blast
  define s4 where "s4 = upd_client cid (\<lambda>c'. c'\<lparr>c_cmd := c_cmd c, c_argv := c_argv c\<rparr>) s3"
  have "keeps {cid} s3 s4" unfolding s4_def by (rule keeps_upd_client) (use assms(4) in auto)
  then have k4: "keeps {cid} s2 s4" using s3(2) keeps_trans by blast
  have k: "keeps {cid} s s4" using k2 k4 keeps_trans by blast
  obtain s5 where s5: "discardTransaction cid s4 = Some s5" "keeps {cid} s4 s5" "queue_of s5 cid = []"
    using keeps_discarded [OF keeps_watch_inv [OF k assms(1)] keeps_client [OF k n(1)]] by blast
  define s6 where "s6 = (if b then s5\<lparr>dirty := dirty s5 + 1\<rparr> else s5)"
  have k6: "keeps {cid} s5 s6" by (simp add: s6_def)
  have "queue_of s6 cid = []" using s5(3) by (simp add: s6_def queue_of_def)
  then have "keeps {} s s6" using keeps_own_queue keeps_trans [OF k keeps_trans [OF s5(2) k6]] by blast
  moreover have "prefix (out_of s2 cid) (out_of s6 cid)" using keepsD(6) [OF keeps_trans [OF k4 keeps_trans [OF s5(2) k6]]] .
  moreover have "out_of s2 cid = out_of s cid @ [ReplyMultiLen (length (queue_of s cid))]"
    using unwatched_view(4) [OF s1(3)] s1(3) assms(3) n(2) by (auto simp: s2_def addReply_def out_of_def unwatched_def)
  moreover have "execCommand en cid s = Some s6"
    using assms(3,5,6) s1(1) s3(1) s5(1) by (simp add: execCommand_def s2_def s4_def s6_def)
  ultimately show ?thesis by auto
qed

lemma execCommand_keeps:
  assumes "watch_inv s" "queue_ok s" "cmd_of s cid \<noteq> None"
  shows "\<exists>s'. execCommand en cid s = Some s' \<and> keeps {} s s'"
proof -
  obtain c where c: "clients s cid = Some c" "c_cmd c \<noteq> None" using assms(3) by (cases "clients s cid") (auto simp: cmd_of_def)
  consider (no) "\<not> has_flag REDIS_MULTI c" | (ab) "has_flag REDIS_MULTI c" "has_flag (REDIS_DIRTY_CAS OR REDIS_DIRTY_EXEC) c"
    | (run) "has_flag REDIS_MULTI c" "\<not> has_flag (REDIS_DIRTY_CAS OR REDIS_DIRTY_EXEC) c" by blast
  then show ?thesis
  proof cases
    case no
    then show ?thesis using c by (simp add: execCommand_def)
  next
    case ab
    define r :: "'b reply" where "r = (if has_flag REDIS_DIRTY_EXEC c then ReplyExecAbort else ReplyNullMulti)"
    have k: "keeps {} s (addReply cid r s)" by simp
    have n: "clients s cid \<noteq> None" using c(1) by simp
    obtain s' where "discardTransaction cid (addReply cid r s) = Some s'" "keeps {} (addReply cid r s) s'"
      using keeps_discarded [OF keeps_watch_inv [OF k assms(1)] keeps_client [OF k n]] by blast
    then show ?thesis using c ab keeps_trans [OF k, of s'] by (auto simp: execCommand_def r_def)
  next
    case run
    then show ?thesis using exec_run [OF assms(1,2) c] by blast
  qed
qed

lemma multi_discard_keeps:
  assumes "watch_inv s" "clients s cid \<noteq> None"
  shows "\<exists>s'. multiCommand cid s = Some s' \<and> keeps X s s'" "\<exists>s'. discardCommand cid s = Some s' \<and> keeps X s s'"
proof -
  obtain c where c: "clients s cid = Some c" using assms(2) by blast
  have "keeps X s (upd_client cid (set_flag REDIS_MULTI) s)" by (rule keeps_set_flag) (simp add: flag_defs)
  then show "\<exists>s'. multiCommand cid s = Some s' \<and> keeps X s s'"
    using c keeps_trans [OF _ keeps_addReply] by (auto simp: multiCommand_def)
  show "\<exists>s'. discardCommand cid s = Some s' \<and> keeps X s s'"
    using c keeps_discarded [OF assms, of X] keeps_trans [OF _ keeps_addReply] by (auto simp: discardCommand_def)
qed

section \<open>Requests\<close>

text \<open>What every request keeps. A request may watch more keys.\<close>

definition locked :: "('p, 'r, 'v) server \<Rightarrow> ('p, 'r, 'v) server \<Rightarrow> bool" where
  "locked s s' \<longleftrightarrow> watch_inv s' \<and> queue_ok s' \<and> sigs_grow s s' \<and> (\<forall>i. mark_set s s' i \<and> mark_cause s s' i)"

lemma keeps_queue_ok: "keeps {} s s' \<Longrightarrow> queue_ok s \<Longrightarrow> queue_ok s'"
  unfolding keeps_def queues_grow_def queue_ok_def by blast

lemma keeps_locked: "keeps {} s s' \<Longrightarrow> watch_inv s \<Longrightarrow> queue_ok s \<Longrightarrow> locked s s'"
  using keeps_queue_ok by (auto simp: locked_def dest: keepsD)

text \<open>A request that does not add watched keys comes after, one that leaves them alone comes before.\<close>

lemma locked_keeps: "locked s t \<Longrightarrow> keeps {} t u \<Longrightarrow> locked s u"
proof -
  assume l: "locked s t" and k: "keeps {} t u"
  note d = keepsD [OF k]
  have w: "watch_inv t" "sigs_grow s t" using l by (simp_all add: locked_def)
  have "mark_set s u i" for i using mark_set_trans [OF _ d(8) [OF w(1)] w(2) d(4,7)] l by (simp add: locked_def)
  moreover have "mark_cause s u i" for i using mark_cause_trans [OF _ d(9) [OF w(1)] w(2) d(4)] l by (simp add: locked_def)
  ultimately show ?thesis using l d(1) keeps_queue_ok [OF k] sigs_grow_trans [OF w(2) d(4)] by (simp add: locked_def)
qed

lemma locked_before:
  assumes "locked s t" "wkeys t = wkeys s" "locked t u"
  shows "locked s u"
proof -
  have a: "sigs_grow s t" "mark_set s t i" "mark_cause s t i" for i using assms(1) by (simp_all add: locked_def)
  have l: "watch_inv u" "queue_ok u" "sigs_grow t u" "mark_set t u i" "mark_cause t u i" for i using assms(3) by (simp_all add: locked_def)
  have "sigs s d k < sigs t d k \<or> sigs t d k < sigs u d k" if "sigs s d k < sigs u d k" for d k
    using that by linarith
  then have "mark_set s u i" for i using a(2) [of i] l(4) [of i] unfolding mark_set_def assms(2) by blast
  moreover have "mark_cause s u i" for i by (rule mark_cause_trans [OF a(3) l(5) a(1) l(3)])
  ultimately show ?thesis using l sigs_grow_trans [OF a(1) l(3)] by (simp add: locked_def)
qed

lemma calm_locked: "calm s t \<Longrightarrow> locked t u \<Longrightarrow> watch_inv s \<Longrightarrow> queue_ok s \<Longrightarrow> locked s u"
  using locked_before [OF keeps_locked [OF calm_keeps], of s t u] by (simp add: calm_def)

definition grows :: "('p, 'r, 'v) server \<Rightarrow> ('p, 'r, 'v) server \<Rightarrow> bool" where
  "grows s s' \<longleftrightarrow> (watch_inv s \<longrightarrow> watch_inv s') \<and> queue_of s' = queue_of s \<and> dom (clients s') = dom (clients s) \<and>
     (\<forall>f. flagged f s' = flagged f s) \<and> cmd_of s' = cmd_of s \<and> sigs s' = sigs s \<and> (\<forall>cid. set (wkeys s cid) \<subseteq> set (wkeys s' cid))"

lemma grows_trans: "grows s t \<Longrightarrow> grows t u \<Longrightarrow> grows s u"
  unfolding grows_def by (metis subset_trans)

lemma grows_locked: "grows s s' \<Longrightarrow> watch_inv s \<Longrightarrow> queue_ok s \<Longrightarrow> locked s s'"
  by (auto simp: grows_def locked_def queue_ok_def mark_set_def mark_cause_def sigs_grow_def)

lemma watchForKey_grows:
  assumes "watch_inv s" "clients s cid \<noteq> None"
  shows "\<exists>s'. watchForKey cid key s = Some s' \<and> grows s s'"
proof -
  obtain c where c: "clients s cid = Some c" using assms(2) by blast
  let ?d = "c_db c"
  have wc: "wkeys s cid = c_watched c" using c by (simp add: wkeys_def)
  show ?thesis
  proof (cases "(?d, key) \<in> set (c_watched c)")
    case True
    then show ?thesis using c by (simp add: watchForKey_def grows_def)
  next
    case False
    define s' where "s' = upd_client cid (\<lambda>c. c\<lparr>c_watched := c_watched c @ [(c_db c, key)]\<rparr>)
      (upd_db ?d (\<lambda>db. db\<lparr>db_watched := (db_watched db)(key \<mapsto> watchers s ?d key @ [cid])\<rparr>) s)"
    have run: "watchForKey cid key s = Some s'"
      using c False by (simp add: watchForKey_def s'_def watchers_def Let_def)
    have wk: "wkeys s' i = (if i = cid then wkeys s cid @ [(?d, key)] else wkeys s i)" for i
      using c wc by (simp add: s'_def view_upd_client)
    have wt: "watchers s' d k = (if d = ?d \<and> k = key then watchers s ?d key @ [cid] else watchers s d k)" for d k
      by (simp add: s'_def view_upd_client(4) watchers_upd_db)
    have n: "cid \<notin> set (watchers s ?d key)" using False assms(1) wc by (metis watch_inv_def)
    have "watch_inv s'" unfolding watch_inv_def
    proof (intro conjI allI)
      show "dom (clients s') \<subseteq> set (client_list s')"
        using assms(1) unfolding s'_def dom_upd_client by (simp add: watch_inv_def)
      fix i d k
      have "distinct (c_watched c)" using assms(1) wc by (metis watch_inv_def)
      then show "distinct (wkeys s' i)" "distinct (watchers s' d k)"
        using assms(1) False n wc by (auto simp: wk wt watch_inv_def)
      show "((d, k) \<in> set (wkeys s' i)) = (i \<in> set (watchers s' d k))"
        using assms(1) by (auto simp: wk wt watch_inv_def)
      show "db_watched (dbs s' d) k \<noteq> Some []" using assms(1) by (auto simp: s'_def watch_inv_def)
    qed
    moreover have "queue_of s' = queue_of s" "flagged f s' = flagged f s" "cmd_of s' = cmd_of s" "sigs s' = sigs s" for f
      using c by (auto simp: s'_def view_upd_client fun_eq_iff queue_of_def flagged_def cmd_of_def)
    moreover have "dom (clients s') = dom (clients s)" unfolding s'_def dom_upd_client by simp
    ultimately show ?thesis using run wk by (auto simp: grows_def)
  qed
qed

lemma watch_args_grows:
  "watch_inv s \<Longrightarrow> clients s cid \<noteq> None \<Longrightarrow> \<exists>s'. watch_args cid keys s = Some s' \<and> grows s s'"
proof (induction keys arbitrary: s)
  case (Cons key keys)
  obtain t where t: "watchForKey cid key s = Some t" "grows s t" using watchForKey_grows [OF Cons.prems] by blast
  then have "watch_inv t" "clients t cid \<noteq> None" using Cons.prems by (auto simp: grows_def)
  then show ?case using Cons.IH [of t] t grows_trans by fastforce
qed (simp add: grows_def)

lemma watchCommand_locked:
  assumes "watch_inv s" "queue_ok s" "cmd_of s cid \<noteq> None"
  shows "\<exists>s'. watchCommand cid s = Some s' \<and> locked s s' \<and> dom (clients s') = dom (clients s) \<and> cmd_of s' cid \<noteq> None"
proof -
  obtain c where c: "clients s cid = Some c" using assms(3) by (cases "clients s cid") (auto simp: cmd_of_def)
  obtain t where t: "watch_args cid (tl (c_argv c)) s = Some t" "grows s t"
    using watch_args_grows [OF assms(1), of cid "tl (c_argv c)"] c by auto
  have g: "cmd_of t cid \<noteq> None" "dom (clients t) = dom (clients s)" using t(2) assms(3) by (simp_all add: grows_def)
  note k = keepsD(2,5) [OF keeps_addReply]
  show ?thesis
  proof (cases "has_flag REDIS_MULTI c")
    case True
    then show ?thesis using c keeps_locked [OF keeps_addReply assms(1,2)] k(1) k(2) [OF assms(3)]
      by (simp add: watchCommand_def)
  next
    case False
    then have "watchCommand cid s = Some (addReply cid ReplyOk t)" using c t(1) by (simp add: watchCommand_def)
    moreover have "dom (clients (addReply cid ReplyOk t)) = dom (clients s)" using k(1) g(2) by (rule trans)
    ultimately show ?thesis using locked_keeps [OF grows_locked [OF t(2) assms(1,2)] keeps_addReply] k(2) [OF g(1)] by blast
  qed
qed

lemma full_proc_locked:
  assumes "watch_inv s" "queue_ok s" "cmd_of s cid \<noteq> None"
  shows "\<exists>s'. full_proc en p cid s = Some s' \<and> locked s s' \<and> dom (clients s') = dom (clients s) \<and> cmd_of s' cid \<noteq> None"
proof -
  have n: "clients s cid \<noteq> None" using assms(3) by (cases "clients s cid") (auto simp: cmd_of_def)
  have kl: "\<exists>s'. x = Some s' \<and> locked s s' \<and> dom (clients s') = dom (clients s) \<and> cmd_of s' cid \<noteq> None"
    if x: "\<exists>s'. x = Some s' \<and> keeps {} s s'" for x
  proof -
    obtain s' where "x = Some s'" and k: "keeps {} s s'" using x by blast
    then show ?thesis using keeps_locked [OF k assms(1,2)] keepsD(2) [OF k] keepsD(5) [OF k assms(3)] by blast
  qed
  consider (w) "p = watchCommandP" | (t) "transaction_proc p" "p \<noteq> watchCommandP" | (q) "\<not> transaction_proc p" by blast
  then show ?thesis
  proof cases
    case w
    then show ?thesis using watchCommand_locked [OF assms] by (simp add: full_proc_def)
  next
    case t
    then show ?thesis using kl [OF execCommand_keeps [OF assms]] multi_discard_keeps [OF assms(1) n, THEN kl]
      by (auto simp: full_proc_def transaction_proc_def)
  next
    case q
    then have "full_proc en p cid s = queued_proc en p cid s"
      by (cases p) (simp_all add: full_proc_def transaction_proc_def)
    then show ?thesis using kl [OF queued_proc_keeps [OF assms(1) n q]] by simp
  qed
qed

lemma call_locked:
  assumes "watch_inv s" "queue_ok s" "cmd_of s cid \<noteq> None"
  shows "\<exists>s'. call en cid s = Some s' \<and> locked s s' \<and> dom (clients s') = dom (clients s)"
proof -
  obtain cmd where cmd: "cmd_of s cid = Some cmd" using assms(3) by blast
  let ?s = "call_start cid s"
  have c: "calm s ?s" by (rule calm_call_start)
  note k = calm_keeps [OF c, of "{}"]
  obtain t where t: "full_proc en (cmd_proc cmd) cid ?s = Some t" "locked ?s t" "dom (clients t) = dom (clients ?s)" "cmd_of t cid \<noteq> None"
    using full_proc_locked [of ?s cid en "cmd_proc cmd"] keepsD(1) [OF k assms(1)] keeps_queue_ok [OF k assms(2)] assms(3) by auto
  obtain s' where s': "call_proc (full_proc en) cid s = Some s'" "calm t s'"
    using call_proc_frame [of s cid cmd "full_proc en" t, OF cmd t(1,4)] by blast
  note k' = calm_keeps [OF s'(2), of "{}"]
  have "locked s s'" by (rule locked_keeps [OF calm_locked [OF c t(2) assms(1,2)] k'])
  then show ?thesis using s'(1) keepsD(2) [OF k'] t(3) keepsD(2) [OF k] by (simp add: call_def)
qed

end
