(* ===== verification/Multi_Props.thy ===== *)
theory Multi_Props
  imports Multi_Watch
begin

text \<open>
  What transactions guarantee: every event keeps the invariants, an EXEC is aborted exactly when a
  watched key was signalled as modified, and an aborted EXEC executes nothing.
\<close>

section \<open>Every request keeps the invariants\<close>

definition served :: "('p, 'r, 'v) server \<Rightarrow> ('p, 'r, 'v) server option \<Rightarrow> bool" where
  "served s x \<longleftrightarrow> (\<exists>s'. x = Some s' \<and> locked s s' \<and> dom (clients s') = dom (clients s))"

lemma keeps_served: "keeps {} s s' \<Longrightarrow> watch_inv s \<Longrightarrow> queue_ok s \<Longrightarrow> served s (Some s')"
  by (simp add: served_def keeps_locked keepsD(2))

lemma refuse_served:
  assumes "watch_inv s" "queue_ok s"
  shows "served s (refuse cid b r s)"
proof -
  have "keeps {} s (addReply cid r (if b then flagTransaction cid s else s))"
    using keeps_trans [OF keeps_flagTransaction keeps_addReply] by (cases b) auto
  then show ?thesis using keeps_served [OF _ assms] by (simp add: refuse_def)
qed

lemma dispatch_served:
  assumes "watch_inv s" "queue_ok s" "cmd_of s cid \<noteq> None"
  shows "served s (dispatch en cid c cmd s)"
proof (cases "has_flag REDIS_MULTI c \<and> \<not> transaction_proc (cmd_proc cmd)")
  case True
  then have "keeps {} s (queueMultiCommand cid cmd s)"
    unfolding queueMultiCommand_def by (intro keeps_upd_client) auto
  then have "keeps {} s (addReply cid ReplyQueued (queueMultiCommand cid cmd s))"
    using keeps_trans keeps_addReply by blast
  then show ?thesis using keeps_served [OF _ assms(1,2)] True by (auto simp: dispatch_def transaction_proc_def)
next
  case False
  obtain t where t: "call en cid s = Some t" "locked s t" "dom (clients t) = dom (clients s)" using call_locked [OF assms] by blast
  let ?u = "fold (do_action (dbnum en) cid) (handleClientsBlockedOnLists en t) t"
  have k: "keeps {} t ?u" by (rule keeps_actions)
  have "dispatch en cid c cmd s = Some ?u" using False t(1) by (auto simp: dispatch_def transaction_proc_def)
  then show ?thesis using locked_keeps [OF t(2) k] keepsD(2) [OF k] t(3) by (simp add: served_def)
qed

lemma served_after:
  assumes "served s (Some t)" "wkeys t = wkeys s" "served t x"
  shows "served s x"
  using assms locked_before [OF _ assms(2)] by (auto simp: served_def)

lemma calm_served:
  assumes "calm s t" "watch_inv s" "queue_ok s"
  shows "served s (Some t)" "wkeys t = wkeys s"
  using assms keeps_served [OF calm_keeps] by (auto simp: calm_def)

text \<open>Eviction leaves the clients alone, apart from their marks.\<close>

lemma calm_key_actions: "calm s (fold do_key_action as s)"
proof -
  have "wkeys (do_key_action a s) = wkeys s" for a and s :: "('a, 'b, 'c) server"
  proof (cases a)
    case (SignalKey d k)
    have "wkeys (s\<lparr>sigs := g\<rparr>) = wkeys s" for g by (simp add: wkeys_def fun_eq_iff)
    then show ?thesis by (simp add: SignalKey signalModifiedKey_def marks_view(1) [OF touch_view(1)])
  qed (simp_all add: propagate_def wkeys_def fun_eq_iff)
  then have "wkeys (fold do_key_action as s) = wkeys s" by (induction as arbitrary: s) simp_all
  then show ?thesis using keeps_actions(1) by (simp add: calm_def)
qed

lemma calm_set_argv: "calm s (upd_client cid (\<lambda>c. c\<lparr>c_argv := argv\<rparr>) s)"
  by (simp add: calm_def wkeys_upd_client)

text \<open>The command may be reset to NULL by the lookup, which only \<open>cmd_of\<close> sees.\<close>

lemma set_cmd_served:
  assumes "watch_inv s" "queue_ok s"
  shows "served s (Some (upd_client cid (\<lambda>c. c\<lparr>c_cmd := m\<rparr>) s))" "wkeys (upd_client cid (\<lambda>c. c\<lparr>c_cmd := m\<rparr>) s) = wkeys s"
proof -
  let ?f = "\<lambda>c :: ('a, 'b) client. c\<lparr>c_cmd := m\<rparr>"
  show w: "wkeys (upd_client cid ?f s) = wkeys s" by (rule wkeys_upd_client) simp
  have "queue_of (upd_client cid ?f s) = queue_of s" "flagged f (upd_client cid ?f s) = flagged f s" for f
    by (cases "clients s cid"; auto simp: view_defs fun_eq_iff)+
  moreover have "watch_inv (upd_client cid ?f s)" using assms(1) by (simp add: watch_inv_upd)
  ultimately show "served s (Some (upd_client cid ?f s))"
    using assms(2) w dom_upd_client [of cid ?f s]
    by (auto simp: served_def locked_def queue_ok_def sigs_grow_def mark_set_def mark_cause_def simp del: upd_client_simps(1))
qed

lemma served_inv: "served s (Some t) \<Longrightarrow> watch_inv t \<and> queue_ok t"
  by (simp add: served_def locked_def)

lemma processCommand_served:
  assumes "watch_inv s" "queue_ok s" "clients s cid \<noteq> None" "argv \<noteq> []"
  shows "served s (processCommand en cid argv s)"
proof -
  obtain c where c: "clients s cid = Some c" using assms(3) by blast
  define s1 where "s1 = upd_client cid (\<lambda>c. c\<lparr>c_argv := argv\<rparr>) s"
  note a1 = calm_served [OF calm_set_argv assms(1,2), of cid argv, folded s1_def]
  note i1 = served_inv [OF a1(1)]
  define s2 where "s2 = upd_client cid (\<lambda>c. c\<lparr>c_cmd := lookupCommand en (hd argv)\<rparr>) s1"
  note a2 = set_cmd_served [of s1 cid "lookupCommand en (hd argv)", folded s2_def]
  have i2: "watch_inv s2" "queue_ok s2" using served_inv [OF a2(1)] i1 by blast+
  have "keeps {} s1 (upd_client cid (set_flag REDIS_CLOSE_AFTER_REPLY) (addReply cid ReplyOk s1))"
    by (rule keeps_trans [OF keeps_addReply keeps_set_flag]) (simp add: flag_defs)
  then have quit: "served s1 (Some (upd_client cid (set_flag REDIS_CLOSE_AFTER_REPLY) (addReply cid ReplyOk s1)))"
    using keeps_served i1 by blast
  obtain es ok where free: "(if maxmemory en > 0 then freeMemoryIfNeeded en s2 else ([], True)) = (es, ok)" by fastforce
  define s3 where "s3 = fold do_key_action es s2"
  note a3 = calm_served [OF calm_key_actions i2, of es, folded s3_def]
  have i3: "watch_inv s3" "queue_ok s3" using served_inv [OF a3(1)] by blast+
  have "served s2 (case lookupCommand en (hd argv) of None \<Rightarrow> x | Some cmd \<Rightarrow> y cmd)"
    if "served s2 x" "\<And>cmd. lookupCommand en (hd argv) = Some cmd \<Longrightarrow> served s2 (y cmd)" for x y
    using that by (simp split: option.split)
  note sp = this
  have si: "served t (if b then x else y)" if "served t x" "served t y" for b t and x y :: "('a, 'b, 'c) server option"
    using that by simp
  have d: "served s3 (dispatch en cid c cmd s3)" if "lookupCommand en (hd argv) = Some cmd" for cmd
  proof (rule dispatch_served [OF i3])
    have "cmd_of s2 cid = Some cmd" using c that by (simp add: s2_def s1_def cmd_of_def)
    then show "cmd_of s3 cid \<noteq> None" using keepsD(5) [OF keeps_actions(1) [of "{}" s2 es]] by (simp add: s3_def)
  qed
  have s3_s2: "served s2 x" if "served s3 x" for x using served_after [OF a3 that] .
  have s2_s: "served s x" if "served s2 x" for x using served_after [OF a1 served_after [OF a2 that]] i1 by blast
  show ?thesis
    unfolding processCommand_def c bind.simps s1_def [symmetric] s2_def [symmetric] free Let_def prod.case s3_def [symmetric]
    using assms(4) apply (simp only: if_False)
    apply (rule si, rule served_after [OF a1 quit], rule s2_s, rule sp, rule refuse_served [OF i2])
    by (intro si refuse_served [OF i2] s3_s2 refuse_served [OF i3] d)
qed

section \<open>Sequences of events\<close>

definition server_inv :: "('p, 'r, 'v) server \<Rightarrow> bool" where
  "server_inv s \<longleftrightarrow> watch_inv s \<and> queue_ok s"

fun run_events ::
    "('p, 'r, 'v) env \<Rightarrow> ('p, 'v) event list \<Rightarrow> ('p, 'r, 'v) server \<Rightarrow> ('p, 'r, 'v) server option" where
  "run_events en [] s = Some s"
| "run_events en (e # es) s = do_event en e s \<bind> run_events en es"

text \<open>The events come from the connected clients: a new connection has a new client, requests are not empty
  and come from a connected client, and only a connected client disconnects.\<close>

fun well_timed :: "('p, 'v) event list \<Rightarrow> nat set \<Rightarrow> bool" where
  "well_timed [] D = True"
| "well_timed (Connect i # es) D = (i \<notin> D \<and> well_timed es (insert i D))"
| "well_timed (Request i argv # es) D = (i \<in> D \<and> argv \<noteq> [] \<and> well_timed es D)"
| "well_timed (Disconnect i # es) D = (i \<in> D \<and> well_timed es (D - {i}))"
| "well_timed (ExpireCycle as # es) D = well_timed es D"

lemma createClient_locked:
  assumes "watch_inv s" "queue_ok s" "cid \<notin> dom (clients s)"
  shows "locked s (createClient cid s)"
proof -
  let ?s = "createClient cid s"
  have v: "wkeys ?s = wkeys s" "queue_of ?s = queue_of s" "flagged f ?s = flagged f s" "watchers ?s = watchers s" "sigs ?s = sigs s" for f
    using assms(3) by (auto simp: createClient_def view_defs watchers_def fun_eq_iff has_flag_def domIff)
  then have "watch_inv ?s" using assms(1) unfolding watch_inv_def v by (auto simp: createClient_def)
  then show ?thesis using v assms(2) by (auto simp: locked_def queue_ok_def mark_set_def mark_cause_def sigs_grow_def)
qed

lemma freeClient_locked:
  assumes "watch_inv s" "queue_ok s" "cid \<in> dom (clients s)"
  shows "\<exists>s'. freeClient cid s = Some s' \<and> locked s s' \<and> dom (clients s') = dom (clients s) - {cid}"
proof -
  have n: "clients s cid \<noteq> None" using assms(3) by auto
  obtain t where t: "unwatchAllKeys cid s = Some t" "watch_inv t" "unwatched cid s t"
    using unwatchAllKeys_correct [OF assms(1) n] by blast
  note u = unwatched_view [OF t(3)]
  define s' where "s' = t\<lparr>clients := (clients t)(cid := None), client_list := remove1 cid (client_list t)\<rparr>"
  have l: "cid \<in> set (client_list t)" using t(2) u(6) assms(3) by (auto simp: watch_inv_def)
  have v: "wkeys s' = wkeys t" "queue_of s' i = (if i = cid then [] else queue_of t i)"
    "flagged f s' i = (i \<noteq> cid \<and> flagged f t i)" "watchers s' = watchers t" "sigs s' = sigs s" "dbs s' = dbs t" for f i
    using u(1) [of cid] u(8) by (auto simp: s'_def view_defs watchers_def fun_eq_iff)
  have d: "dom (clients s') = dom (clients t) - {cid}" by (auto simp: s'_def)
  have "dom (clients s') \<subseteq> set (client_list s')" using t(2)
    by (auto simp: s'_def watch_inv_def in_set_remove1 subset_iff domIff)
  then have "watch_inv s'" using t(2) unfolding watch_inv_def v by blast
  moreover have "queue_ok s'" using assms(2) v(2) u(2) by (simp add: queue_ok_def)
  moreover have "mark_set s s' i" "mark_cause s s' i" for i
    unfolding mark_set_def mark_cause_def v u(1,3,8) by auto
  ultimately show ?thesis using t(1) l d u(6) v(5) by (simp add: freeClient_def s'_def [symmetric] locked_def sigs_grow_def)
qed

text \<open>The clients that are connected after an event.\<close>

fun connected_after :: "('p, 'v) event \<Rightarrow> nat set \<Rightarrow> nat set" where
  "connected_after (Connect i) D = insert i D"
| "connected_after (Disconnect i) D = D - {i}"
| "connected_after _ D = D"

lemma well_timed_Cons: "well_timed (e # es) D \<Longrightarrow> well_timed es (connected_after e D)"
  by (cases e) simp_all

lemma do_event_locked:
  assumes "server_inv s" "well_timed (e # es) (dom (clients s))"
  shows "\<exists>s'. do_event en e s = Some s' \<and> locked s s' \<and> dom (clients s') = connected_after e (dom (clients s))"
proof -
  have i: "watch_inv s" "queue_ok s" using assms(1) by (simp_all add: server_inv_def)
  show ?thesis
  proof (cases e)
    case (Connect cid)
    then show ?thesis using createClient_locked [OF i] assms(2) by (auto simp: createClient_def)
  next
    case (Request cid argv)
    then show ?thesis using processCommand_served [OF i, of cid argv en] assms(2) by (auto simp: served_def)
  next
    case (Disconnect cid)
    then show ?thesis using freeClient_locked [OF i] assms(2) by auto
  next
    case (ExpireCycle as)
    have k: "keeps {} s (fold do_key_action as s)" by (rule keeps_actions)
    then show ?thesis using keeps_locked [OF k i] keepsD(2) [OF k] ExpireCycle by simp
  qed
qed

lemma locked_inv: "locked s s' \<Longrightarrow> server_inv s'"
  by (simp add: locked_def server_inv_def)

text \<open>Property C9: from a consistent state, any sequence of events - connections, requests of connected clients,
  expiry cycles and disconnections - is served without a failed assertion, whatever the ordinary
  commands, eviction and expiry do to the data, and the clients' lists of watched keys and the
  databases' lists of watching clients stay inverse to each other.\<close>
theorem requests_keep_watch_inv:
  assumes "server_inv s" "well_timed evs (dom (clients s))"
  shows "\<exists>s'. run_events en evs s = Some s' \<and> server_inv s'"
  using assms
proof (induction evs arbitrary: s)
  case (Cons e es)
  obtain t where t: "do_event en e s = Some t" "locked s t" "dom (clients t) = connected_after e (dom (clients s))"
    using do_event_locked [OF Cons.prems] by blast
  then show ?case using Cons.IH [OF locked_inv [OF t(2)]] well_timed_Cons [OF Cons.prems(2)] by simp
qed simp

section \<open>EXEC\<close>

lemma discardTransaction_effect:
  assumes "watch_inv s" "clients s cid = Some c"
  shows "\<exists>s'. discardTransaction cid s = Some s' \<and> val_of s' = val_of s \<and> dirty s' = dirty s \<and> prop_log s' = prop_log s \<and>
    clients s' = (clients s)(cid \<mapsto> (clear_flag (REDIS_MULTI OR REDIS_DIRTY_CAS OR REDIS_DIRTY_EXEC) (c\<lparr>c_mstate := []\<rparr>))\<lparr>c_watched := []\<rparr>)"
proof -
  let ?f = "clear_flag (REDIS_MULTI OR REDIS_DIRTY_CAS OR REDIS_DIRTY_EXEC)"
  define t where "t = upd_client cid ?f (initClientMultiState cid s)"
  have "watch_inv t" "clients t cid \<noteq> None"
    using assms unfolding t_def initClientMultiState_def by (simp_all add: watch_inv_upd)
  then obtain u where u: "unwatchAllKeys cid t = Some u" "unwatched cid t u" using unwatchAllKeys_correct by blast
  have "clients t = (clients s)(cid \<mapsto> ?f (c\<lparr>c_mstate := []\<rparr>))" "val_of t = val_of s" "dirty t = dirty s" "prop_log t = prop_log s"
    using assms(2) by (simp_all add: t_def initClientMultiState_def view_upd_client(5))
  then show ?thesis using u by (simp add: discardTransaction_def t_def [symmetric] unwatched_def)
qed

lemma addReply_effect:
  "clients s cid = Some c \<Longrightarrow> clients (addReply cid r s) = (clients s)(cid \<mapsto> c\<lparr>c_out := c_out c @ [r]\<rparr>)"
  "val_of (addReply cid r s) = val_of s" "dirty (addReply cid r s) = dirty s" "prop_log (addReply cid r s) = prop_log s"
  by (simp_all add: addReply_def view_upd_client(5))

text \<open>An EXEC that is refused or aborted executes nothing.\<close>

lemma exec_abort:
  assumes "watch_inv s" "clients s cid = Some c"
    "\<not> has_flag REDIS_MULTI c \<or> has_flag (REDIS_DIRTY_CAS OR REDIS_DIRTY_EXEC) c"
  shows "\<exists>s' r. execCommand en cid s = Some s' \<and> val_of s' = val_of s \<and> prop_log s' = prop_log s \<and>
    out_of s' cid = c_out c @ [r] \<and>
    r = (if \<not> has_flag REDIS_MULTI c then ReplyError ''EXEC without MULTI''
         else if has_flag REDIS_DIRTY_EXEC c then ReplyExecAbort else ReplyNullMulti)"
proof (cases "has_flag REDIS_MULTI c")
  case False
  then show ?thesis using assms(2) by (simp add: execCommand_def addReply_effect out_of_def)
next
  case True
  define r :: "'b reply" where "r = (if has_flag REDIS_DIRTY_EXEC c then ReplyExecAbort else ReplyNullMulti)"
  have c: "clients (addReply cid r s) cid = Some (c\<lparr>c_out := c_out c @ [r]\<rparr>)" using assms(2) by (simp add: addReply_effect)
  have "watch_inv (addReply cid r s)" using keeps_watch_inv [OF keeps_addReply assms(1)] .
  from discardTransaction_effect [OF this c] show ?thesis
    using True assms(2,3) by (auto simp: execCommand_def r_def addReply_effect out_of_def clear_flag_def)
qed

lemma flagged_client: "clients s cid = Some c \<Longrightarrow> flagged f s cid = has_flag f c"
  by (simp add: flagged_def)

lemma has_flag_or: "has_flag (f OR g) c \<longleftrightarrow> has_flag f c \<or> has_flag g c"
  by (simp add: has_flag_def bit.conj_disj_distrib or_eq_0_word)

lemma run_mark_set:
  "server_inv s \<Longrightarrow> well_timed evs (dom (clients s)) \<Longrightarrow> run_events en evs s = Some s' \<Longrightarrow>
    \<forall>n \<le> length evs. \<exists>t. run_events en (take n evs) s = Some t \<and> (d, k) \<in> set (wkeys t cid) \<Longrightarrow>
    flagged REDIS_DIRTY_CAS s cid \<or> sigs s d k < sigs s' d k \<Longrightarrow> flagged REDIS_DIRTY_CAS s' cid \<and> server_inv s'"
proof (induction evs arbitrary: s)
  case (Cons e es)
  obtain t where t: "do_event en e s = Some t" "locked s t" "dom (clients t) = connected_after e (dom (clients s))"
    using do_event_locked [OF Cons.prems(1,2)] by blast
  have r: "run_events en es t = Some s'" using Cons.prems(3) t(1) by simp
  have wt: "well_timed es (dom (clients t))" using well_timed_Cons [OF Cons.prems(2)] t(3) by simp
  have w: "\<forall>n \<le> length es. \<exists>u. run_events en (take n es) t = Some u \<and> (d, k) \<in> set (wkeys u cid)"
  proof (intro allI impI)
    fix n assume "n \<le> length es"
    then show "\<exists>u. run_events en (take n es) t = Some u \<and> (d, k) \<in> set (wkeys u cid)"
      using Cons.prems(4) [rule_format, of "Suc n"] t(1) by simp
  qed
  have "(d, k) \<in> set (wkeys s cid)" "(d, k) \<in> set (wkeys t cid)"
    using Cons.prems(4) [rule_format, of 0] w [rule_format, of 0] by simp_all
  then have "flagged REDIS_DIRTY_CAS s cid \<or> sigs s d k < sigs t d k \<Longrightarrow> flagged REDIS_DIRTY_CAS t cid"
    using t(2) unfolding locked_def mark_set_def by blast
  moreover have "sigs s d k \<le> sigs t d k" using t(2) by (simp add: locked_def sigs_grow_def)
  ultimately have "flagged REDIS_DIRTY_CAS t cid \<or> sigs t d k < sigs s' d k" using Cons.prems(5) by linarith
  then show ?case by (rule Cons.IH [OF locked_inv [OF t(2)] wt r w])
qed simp

lemma run_mark_cause:
  "server_inv s \<Longrightarrow> well_timed evs (dom (clients s)) \<Longrightarrow> run_events en evs s = Some s' \<Longrightarrow>
    mark_cause s s' cid \<and> sigs_grow s s' \<and> server_inv s'"
proof (induction evs arbitrary: s)
  case (Cons e es)
  obtain t where t: "do_event en e s = Some t" "locked s t" "dom (clients t) = connected_after e (dom (clients s))"
    using do_event_locked [OF Cons.prems(1,2)] by blast
  have "mark_cause t s' cid \<and> sigs_grow t s' \<and> server_inv s'"
    using Cons.IH [OF locked_inv [OF t(2)]] well_timed_Cons [OF Cons.prems(2)] Cons.prems(3) t(1,3) by simp
  then show ?case using t(2) mark_cause_trans [of s t cid s'] sigs_grow_trans [of s t s'] by (simp add: locked_def)
qed (simp add: mark_cause_def sigs_grow_def)

text \<open>Property C2: the optimistic lock of WATCH. Suppose a client keeps watching a key while any events happen,
  and the key is signalled as modified in the meantime, by \<open>signalModifiedKey\<close> or by a flush of a
  database that has it. Then the client's EXEC executes nothing: it leaves all data and the
  replication stream unchanged and replies with the nil multi-bulk or an error.\<close>
theorem watch_guards_exec:
  assumes "server_inv s" "run_events en evs s = Some s'" "well_timed evs (dom (clients s))"
    "\<forall>n \<le> length evs. \<exists>t. run_events en (take n evs) s = Some t \<and> (d, k) \<in> set (wkeys t cid)"
    "sigs s d k < sigs s' d k"
  shows "\<exists>s'' r. execCommand en cid s' = Some s'' \<and> val_of s'' = val_of s' \<and> prop_log s'' = prop_log s' \<and>
       out_of s'' cid = out_of s' cid @ [r] \<and> r \<in> {ReplyNullMulti, ReplyExecAbort, ReplyError ''EXEC without MULTI''}"
proof -
  have c: "flagged REDIS_DIRTY_CAS s' cid" "server_inv s'"
    using run_mark_set [OF assms(1,3,2,4)] assms(5) by blast+
  then obtain cl where cl: "clients s' cid = Some cl" by (cases "clients s' cid") (auto simp: flagged_def)
  then have "has_flag (REDIS_DIRTY_CAS OR REDIS_DIRTY_EXEC) cl" using c(1) by (simp add: flagged_client has_flag_or)
  then show ?thesis using exec_abort [of s' cid cl en] c(2) cl
    by (auto simp: server_inv_def out_of_def split: if_splits)
qed

text \<open>Property C10: an EXEC is not aborted without a cause. If a client was not marked at the beginning of any sequence
  of events, and none of the keys it watches at the end was signalled since, then its EXEC, with
  no error while queueing, runs: it announces as many replies as commands are queued.\<close>
theorem exec_runs_unless_signalled:
  assumes "server_inv s" "run_events en evs s = Some s'" "well_timed evs (dom (clients s))"
    "\<not> flagged REDIS_DIRTY_CAS s cid" "\<forall>(d, k) \<in> set (wkeys s' cid). sigs s' d k = sigs s d k"
    "flagged REDIS_MULTI s' cid" "\<not> flagged REDIS_DIRTY_EXEC s' cid" "cmd_of s' cid \<noteq> None"
  shows "\<exists>s''. execCommand en cid s' = Some s'' \<and>
    prefix (out_of s' cid @ [ReplyMultiLen (length (queue_of s' cid))]) (out_of s'' cid)"
proof -
  have c: "mark_cause s s' cid" "server_inv s'" using run_mark_cause [OF assms(1,3,2)] by blast+
  then have f: "\<not> flagged REDIS_DIRTY_CAS s' cid" using assms(4,5) unfolding mark_cause_def by fastforce
  obtain cl where cl: "clients s' cid = Some cl" using assms(8) by (cases "clients s' cid") (auto simp: cmd_of_def)
  then show ?thesis using exec_run [of s' cid cl en] c(2) f assms(6-8)
    by (auto simp: server_inv_def flagged_client has_flag_or cmd_of_def)
qed

section \<open>Refused commands inside a transaction\<close>

text \<open>Property C36: on a read-only replica a write command inside MULTI is refused with the READONLY error, but the
  transaction is not flagged, so that its EXEC is not aborted by the error.\<close>
theorem readonly_refusal_keeps_transaction:
  assumes "clients s cid = Some c" "argv \<noteq> []" "map tolower (hd argv) \<noteq> ''quit''"
    "lookupCommand en (hd argv) = Some cmd" "arity_ok cmd argv" "is_write cmd" "\<not> requirepass en"
    "\<not> cluster_enabled en" "maxmemory en = 0" "has_masterhost en" "repl_slave_ro en" "\<not> has_flag REDIS_MASTER c"
  shows "\<exists>s'. processCommand en cid argv s = Some s' \<and>
    clients s' cid = Some (c\<lparr>c_argv := argv, c_cmd := Some cmd, c_out := c_out c @ [ReplyError ''READONLY'']\<rparr>) \<and>
    flagged REDIS_DIRTY_EXEC s' cid = flagged REDIS_DIRTY_EXEC s cid \<and> queue_of s' cid = queue_of s cid"
  using assms
  by (simp add: processCommand_def cluster_checked_def refuse_def addReply_def flagged_def queue_of_def)

section \<open>A small server\<close>

definition demo_set :: "unit redisCommand" where
  "demo_set = \<lparr>cmd_proc = OtherCommand (), cmd_arity = 3, cmd_flags = REDIS_CMD_WRITE, cmd_has_keys = True\<rparr>"

definition demo_exec :: "unit redisCommand" where
  "demo_exec = \<lparr>cmd_proc = execCommandP, cmd_arity = 1, cmd_flags = 0, cmd_has_keys = False\<rparr>"

text \<open>An environment with a SET command, with or without a master.\<close>

definition demo_env :: "bool \<Rightarrow> (unit, unit, string) env" where
  "demo_env replica = \<lparr>lookupCommand = (\<lambda>n. if n = ''set'' then Some demo_set else if n = ''exec'' then Some demo_exec else None),
     other_proc = (\<lambda>_ cid s. case clients s cid of None \<Rightarrow> [] | Some c \<Rightarrow>
       [OnKeys (SetKey (c_db c) (c_argv c ! 1) (Some (c_argv c ! 2))), OnKeys (SignalKey (c_db c) (c_argv c ! 1)),
        AddDirty 1, ReplyTo cid ()]),
     dbnum = 1, requirepass = False, cluster_enabled = False, cluster_state_ok = True, query_is_myself = (\<lambda>_ _ _. True),
     lua_caller_is_master = False, maxmemory = 0, freeMemoryIfNeeded = (\<lambda>s. ([], True)), handleClientsBlockedOnLists = (\<lambda>_. []), stop_writes_on_bgsave_err = False,
     saveparamslen = 0, lastbgsave_status_ok = True, aof_last_write_status_ok = True, has_masterhost = replica,
     repl_min_slaves_to_write = 0, repl_min_slaves_max_lag = 0, repl_good_slaves_count = 0, repl_slave_ro = replica,
     repl_state_connected = True, repl_serve_stale_data = True, loading = False, lua_timedout = False\<rparr>"

definition demo_client :: "(nat \<times> string) list \<Rightarrow> uint32 \<Rightarrow> (unit redisCommand \<times> cmd_argv) list \<Rightarrow> (unit, unit) client" where
  "demo_client w f q = \<lparr>c_flags = f, c_db = 0, c_cmd = None, c_argv = [], c_mstate = q, c_watched = w, c_out = [], c_authenticated = True\<rparr>"

text \<open>Client 1 is in a transaction and watches a key; client 2 is not.\<close>

definition demo_server :: "(unit, unit, string) server" where
  "demo_server = \<lparr>clients = [1 \<mapsto> demo_client [(0, ''k'')] REDIS_MULTI [(demo_set, [''set'', ''k'', ''b''])], 2 \<mapsto> demo_client [] 0 []],
     client_list = [1, 2], dbs = (\<lambda>_. \<lparr>db_dict = Map.empty, db_watched = Map.empty\<rparr>)
       (0 := \<lparr>db_dict = [''k'' \<mapsto> ''a''], db_watched = [''k'' \<mapsto> [1]]\<rparr>), dirty = 0, prop_log = [], also_propagate = [], sigs = (\<lambda>_ _. 0)\<rparr>"

lemma demo_server_inv: "server_inv demo_server"
  by (auto simp: server_inv_def watch_inv_def queue_ok_def demo_server_def wkeys_def watchers_def queue_of_def
      demo_client_def transaction_proc_def demo_set_def split: if_splits)

abbreviation demo_request :: "(unit, string) event" where
  "demo_request \<equiv> Request 2 [''set'', ''k'', ''c'']"

lemma run_single: "run_events en [e] s = do_event en e s"
  by (cases "do_event en e s") simp_all

lemma demo_run:
  "\<exists>s'. run_events (demo_env False) [demo_request] demo_server = Some s' \<and> (0, ''k'') \<in> set (wkeys s' 1) \<and> sigs s' 0 ''k'' = 1"
proof -
  define t where "t = upd_client 2 (\<lambda>c. c\<lparr>c_cmd := Some demo_set\<rparr>) (upd_client 2 (\<lambda>c. c\<lparr>c_argv := [''set'', ''k'', ''c'']\<rparr>) demo_server)"
  have "run_events (demo_env False) [demo_request] demo_server = dispatch (demo_env False) 2 (demo_client [] 0 []) demo_set t"
    by (simp add: processCommand_def demo_env_def demo_server_def demo_client_def tolower_def arity_ok_def demo_set_def
        cluster_checked_def disk_error_def is_write_def has_flag_def flag_defs Let_def t_def run_single del: run_events.simps)
  moreover have "\<exists>s'. dispatch (demo_env False) 2 (demo_client [] 0 []) demo_set t = Some s' \<and> (0, ''k'') \<in> set (wkeys s' 1) \<and> sigs s' 0 ''k'' = 1"
    by (simp add: t_def dispatch_def call_def call_proc_def full_proc_def queued_proc_def otherCommand_def demo_set_def demo_env_def
        demo_server_def demo_client_def signalModifiedKey_def touchWatchedKey_def wkeys_def addReply_def propagate_def set_flag_def
        has_flag_def Let_def clear_flag_def restore_force_def)
  ultimately show ?thesis by simp
qed

theorem requests_keep_watch_inv_witness:
  "\<exists>s'. run_events (demo_env False) [Connect 3, demo_request, Disconnect 1] demo_server = Some s' \<and> server_inv s'"
  using requests_keep_watch_inv [OF demo_server_inv, of "[Connect 3, demo_request, Disconnect 1]"]
  by (auto simp: demo_server_def)

theorem watch_guards_exec_witness:
  "\<exists>s' s'' r. run_events (demo_env False) [demo_request] demo_server = Some s' \<and>
     execCommand (demo_env False) 1 s' = Some s'' \<and> val_of s'' = val_of s' \<and> out_of s'' 1 = out_of s' 1 @ [r]"
proof -
  obtain s' where s': "run_events (demo_env False) [demo_request] demo_server = Some s'"
    "(0, ''k'') \<in> set (wkeys s' 1)" "sigs s' 0 ''k'' = 1" using demo_run by blast
  have w: "(0, ''k'') \<in> set (wkeys demo_server 1)" by (simp add: demo_server_def wkeys_def demo_client_def)
  have n: "n \<le> 1 \<Longrightarrow> n = 0 \<or> n = 1" for n :: nat by auto
  have "\<forall>n \<le> length [demo_request]. \<exists>t. run_events (demo_env False) (take n [demo_request]) demo_server = Some t \<and>
      (0, ''k'') \<in> set (wkeys t 1)"
    using n s' w by (auto simp del: run_events.simps(2)) (metis One_nat_def n take0 take_Suc_Cons run_events.simps(1))
  moreover have "well_timed [demo_request] (dom (clients demo_server))" by (simp add: demo_server_def)
  moreover have "sigs demo_server 0 ''k'' < sigs s' 0 ''k''" using s'(3) by (simp add: demo_server_def)
  ultimately show ?thesis using watch_guards_exec [OF demo_server_inv s'(1)] s'(1) by blast
qed

text \<open>Client 1 queues one more command.\<close>

definition demo_queued :: "(unit, unit, string) server" where
  "demo_queued = addReply 1 ReplyQueued (queueMultiCommand 1 demo_set
     (upd_client 1 (\<lambda>c. c\<lparr>c_argv := [''set'', ''x'', ''d''], c_cmd := Some demo_set\<rparr>) demo_server))"

lemma demo_queued_run: "run_events (demo_env False) [Request 1 [''set'', ''x'', ''d'']] demo_server = Some demo_queued"
  by (simp add: processCommand_def demo_env_def demo_server_def demo_client_def tolower_def arity_ok_def demo_set_def
      cluster_checked_def disk_error_def is_write_def has_flag_def flag_defs Let_def demo_queued_def dispatch_def
      addReply_def queueMultiCommand_def upd_client_def run_single del: run_events.simps)

theorem exec_runs_unless_signalled_witness:
  "\<exists>s''. execCommand (demo_env False) 1 demo_queued = Some s'' \<and> prefix [ReplyQueued, ReplyMultiLen 2] (out_of s'' 1)"
proof -
  have c: "clients demo_queued 1 = Some \<lparr>c_flags = REDIS_MULTI, c_db = 0, c_cmd = Some demo_set, c_argv = [''set'', ''x'', ''d''],
      c_mstate = [(demo_set, [''set'', ''k'', ''b'']), (demo_set, [''set'', ''x'', ''d''])], c_watched = [(0, ''k'')],
      c_out = [ReplyQueued], c_authenticated = True\<rparr>"
    by (simp add: demo_queued_def addReply_def queueMultiCommand_def demo_server_def demo_client_def)
  have "sigs demo_queued = sigs demo_server"
    by (simp add: demo_queued_def addReply_def queueMultiCommand_def)
  moreover have "\<not> flagged REDIS_DIRTY_CAS demo_server 1" "flagged REDIS_MULTI demo_queued 1" "\<not> flagged REDIS_DIRTY_EXEC demo_queued 1"
      "cmd_of demo_queued 1 \<noteq> None" "well_timed [Request 1 [''set'', ''x'', ''d'']] (dom (clients demo_server))"
    using c by (simp_all add: flagged_def cmd_of_def has_flag_def flag_defs) (simp_all add: demo_server_def demo_client_def has_flag_def flag_defs)
  moreover have "out_of demo_queued 1 = [ReplyQueued]" "queue_of demo_queued 1 = [(demo_set, [''set'', ''k'', ''b'']), (demo_set, [''set'', ''x'', ''d''])]"
    using c by (simp_all add: out_of_def queue_of_def)
  ultimately show ?thesis
    using exec_runs_unless_signalled [OF demo_server_inv demo_queued_run, of 1] by (simp add: numeral_2_eq_2)
qed

theorem readonly_refusal_keeps_transaction_witness:
  "\<exists>s'. processCommand (demo_env True) 1 [''set'', ''k'', ''c''] demo_server = Some s' \<and>
    flagged REDIS_MULTI demo_server 1 \<and> \<not> flagged REDIS_DIRTY_EXEC s' 1"
proof -
  have "clients demo_server 1 = Some (demo_client [(0, ''k'')] REDIS_MULTI [(demo_set, [''set'', ''k'', ''b''])])"
    by (simp add: demo_server_def)
  from readonly_refusal_keeps_transaction [OF this, of "[''set'', ''k'', ''c'']" "demo_env True" demo_set]
  have "\<exists>s'. processCommand (demo_env True) 1 [''set'', ''k'', ''c''] demo_server = Some s' \<and>
      flagged REDIS_DIRTY_EXEC s' 1 = flagged REDIS_DIRTY_EXEC demo_server 1"
    by (auto simp: demo_env_def tolower_def arity_ok_def is_write_def demo_set_def demo_client_def has_flag_def flag_defs)
  moreover have "flagged REDIS_MULTI demo_server 1" "\<not> flagged REDIS_DIRTY_EXEC demo_server 1"
    by (simp_all add: flagged_def demo_server_def demo_client_def has_flag_def flag_defs)
  ultimately show ?thesis by blast
qed

end
