(* ===== verification/Glob.thy ===== *)
theory Glob
  imports Redis_Prelude
begin

text \<open>
  The glob matcher \<open>stringmatchlen\<close> of \<open>util.c\<close>. Pattern and string are the bytes of two sds strings,
  each followed by its terminator. The pointers are indices, so that \<open>patternLen\<close> and \<open>stringLen\<close> are
  the distances to the ends; an index past the terminator is an access out of bounds and makes
  the result \<^const>\<open>None\<close>. Characters are signed in the range test, as on the platforms of the source.
\<close>

section \<open>The code\<close>

definition sds_at :: "byte list \<Rightarrow> nat \<Rightarrow> byte option" where
  "sds_at s i = (if i < length s then Some (s ! i) else if i = length s then Some 0 else None)"

definition to_lower :: "byte \<Rightarrow> byte" where
  "to_lower c = (if 65 \<le> c \<and> c \<le> 90 then c + 32 else c)"

definition same_char :: "bool \<Rightarrow> byte \<Rightarrow> byte \<Rightarrow> bool" where
  "same_char nocase a b = (if nocase then to_lower a = to_lower b else a = b)"

text \<open>The bounds of a range are swapped when they are out of order, before any case folding.\<close>

definition in_range :: "bool \<Rightarrow> byte \<Rightarrow> byte \<Rightarrow> byte \<Rightarrow> bool" where
  "in_range nocase a b c = (
     let (a, b) = (if sint a > sint b then (b, a) else (a, b));
         (a, b, c) = (if nocase then (to_lower a, to_lower b, to_lower c) else (a, b, c))
     in sint a \<le> sint c \<and> sint c \<le> sint b)"

text \<open>The loop over the items of a class; it returns the index of the closing bracket (or of the last
  character of an unclosed class) and whether an item matched.\<close>

function match_class :: "bool \<Rightarrow> byte list \<Rightarrow> byte \<Rightarrow> nat \<Rightarrow> bool \<Rightarrow> (nat \<times> bool) option" where
  "match_class nocase p c i m =
     (if i > length p then None
      else do {
        x \<leftarrow> sds_at p i;
        if x = 92 then do {
          y \<leftarrow> sds_at p (i + 1);
          match_class nocase p c (i + 2) (m \<or> y = c)
        }
        else if x = 93 then Some (i, m)
        else if i = length p then Some (i - 1, m)
        else do {
          y \<leftarrow> sds_at p (i + 1);
          if y = 45 \<and> length p - i \<ge> 3 then do {
            z \<leftarrow> sds_at p (i + 2);
            match_class nocase p c (i + 3) (m \<or> in_range nocase x z c)
          }
          else match_class nocase p c (i + 1) (m \<or> same_char nocase x c)
        }
      })"
  by pat_completeness auto
termination
  by (relation "measure (\<lambda>(nocase, p, c, i, m). Suc (length p) - i)") auto

declare match_class.simps [simp del]

function skip_stars :: "byte list \<Rightarrow> nat \<Rightarrow> nat" where
  "skip_stars p i = (if i < length p \<and> p ! i = 42 then skip_stars p (i + 1) else i)"
  by pat_completeness auto
termination
  by (relation "measure (\<lambda>(p, i). length p - i)") auto

declare skip_stars.simps [simp del]

lemma skip_stars_ge: "i \<le> skip_stars p i"
  by (induction p i rule: skip_stars.induct) (subst skip_stars.simps, auto)

text \<open>The search of the rest of the pattern at every remaining position of the string.\<close>

fun try_from :: "(nat \<Rightarrow> bool option) \<Rightarrow> nat \<Rightarrow> nat \<Rightarrow> bool option" where
  "try_from f j 0 = Some False"
| "try_from f j (Suc n) = do {
     b \<leftarrow> f j;
     if b then Some True else try_from f (j + 1) n
   }"

lemma try_from_cong [fundef_cong]:
  "n = n' \<Longrightarrow> j = j' \<Longrightarrow> (\<And>k. f k = g k) \<Longrightarrow> try_from f j n = try_from g j' n'"
  by (metis ext)

lemma sds_at_Some: "i \<le> length p \<Longrightarrow> \<exists>x. sds_at p i = Some x"
  by (cases "i < length p") (simp_all add: sds_at_def)

lemma match_class_ge: "match_class nocase p c i m = Some (i', m') \<Longrightarrow> i \<le> Suc i'"
proof (induction nocase p c i m rule: match_class.induct)
  case (1 nocase p c i m)
  show ?case
  proof (cases "i \<le> length p")
    case False
    then show ?thesis using 1(4) by (subst (asm) match_class.simps) simp
  next
    case True
    then obtain x where x: "sds_at p i = Some x" using sds_at_Some by blast
    consider (esc) "x = 92" | (close) "x = 93" | (fin) "x \<noteq> 92" "x \<noteq> 93" "i = length p"
      | (item) "x \<noteq> 92" "x \<noteq> 93" "i \<noteq> length p" by blast
    then show ?thesis
    proof cases
      case esc
      then obtain y where "sds_at p (i + 1) = Some y" "match_class nocase p c (i + 2) (m \<or> y = c) = Some (i', m')"
        using 1(4) True x by (subst (asm) match_class.simps) (auto split: bind_splits)
      then show ?thesis using 1(1) [OF _ x esc] True by fastforce
    next
      case item
      then obtain y where y: "sds_at p (i + 1) = Some y" using True sds_at_Some [of "i + 1" p] by auto
      show ?thesis
      proof (cases "y = 45 \<and> 3 \<le> length p - i")
        case r: True
        then obtain z where "sds_at p (i + 2) = Some z" "match_class nocase p c (i + 3) (m \<or> in_range nocase x z c) = Some (i', m')"
          using 1(4) True x y item by (subst (asm) match_class.simps) (auto split: bind_splits)
        then show ?thesis using 1(2) [OF _ x item y r] True by fastforce
      next
        case nr: False
        then have "match_class nocase p c (i + 1) (m \<or> same_char nocase x c) = Some (i', m')"
          using 1(4) True x y item by (subst (asm) match_class.simps) auto
        then show ?thesis using 1(3) [OF _ x item y nr] True by fastforce
      qed
    next
      case close
      then show ?thesis using 1(4) True x match_class.simps [of nocase p c i m] by simp
    next
      case fin
      then show ?thesis using 1(4) x match_class.simps [of nocase p c i m] by simp
    qed
  qed
qed

text \<open>One iteration of the main loop. A star that is not last looks for the rest of the pattern; if the
  string is already past its end there, the loop over it would not stop.\<close>

function glob :: "bool \<Rightarrow> byte list \<Rightarrow> byte list \<Rightarrow> nat \<Rightarrow> nat \<Rightarrow> bool option" where
  "glob nocase p s i j =
     (if i = length p then Some (j = length s)
      else if i > length p then None
      else if p ! i = 42 then
        (let k = skip_stars p (i + 1) in
         if k = length p then Some True
         else if j > length s then None
         else try_from (\<lambda>j. glob nocase p s k j) j (length s - j))
      else do {
        (i', ok) \<leftarrow>
          (if p ! i = 63 then Some (i, j \<noteq> length s)
           else if p ! i = 91 then do {
             c \<leftarrow> sds_at s j;
             x \<leftarrow> sds_at p (i + 1);
             (i', m) \<leftarrow> match_class nocase p c (if x = 94 then i + 2 else i + 1) False;
             Some (i', m \<noteq> (x = 94))
           }
           else do {
             i' \<leftarrow> Some (if p ! i = 92 \<and> length p - i \<ge> 2 then i + 1 else i);
             x \<leftarrow> sds_at p i';
             c \<leftarrow> sds_at s j;
             Some (i', same_char nocase x c)
           });
        if \<not> ok then Some False
        else if j + 1 = length s then Some (skip_stars p (i' + 1) = length p)
        else glob nocase p s (i' + 1) (j + 1)
      })"
  by pat_completeness auto
termination
proof (relation "measure (\<lambda>(nocase, p, s, i, j). Suc (length p) - i)", goal_cases)
  case (2 nocase p s i j k xa)
  then show ?case using skip_stars_ge [of "i + 1" p] by auto
next
  case (3 nocase p s i j x i' ok)
  have "i \<le> i'"
    using 3(4,5) match_class_ge by (auto split: if_splits bind_splits) fastforce+
  then show ?case using 3(1,2) by auto
qed auto

declare glob.simps [simp del]

definition stringmatchlen :: "byte list \<Rightarrow> byte list \<Rightarrow> bool \<Rightarrow> bool option" where
  "stringmatchlen p s nocase = glob nocase p s 0 0"

section \<open>Patterns as lists of tokens\<close>

datatype class_item = One byte | Range byte byte

datatype token = Star | AnyChar | Class bool "class_item list" | Lit byte

fun item_matches :: "byte \<Rightarrow> class_item \<Rightarrow> bool" where
  "item_matches c (One x) = (x = c)"
| "item_matches c (Range a b) = (min (sint a) (sint b) \<le> sint c \<and> sint c \<le> max (sint a) (sint b))"

fun matches :: "token list \<Rightarrow> byte list \<Rightarrow> bool" where
  "matches [] s = (s = [])"
| "matches (Star # ts) s = (\<exists>k \<le> length s. matches ts (drop k s))"
| "matches (AnyChar # ts) s = (s \<noteq> [] \<and> matches ts (tl s))"
| "matches (Class neg items # ts) s = (s \<noteq> [] \<and> (neg \<noteq> list_ex (item_matches (hd s)) items) \<and> matches ts (tl s))"
| "matches (Lit c # ts) s = (s \<noteq> [] \<and> hd s = c \<and> matches ts (tl s))"

text \<open>How tokens are written: special characters are escaped.\<close>

fun write_item :: "class_item \<Rightarrow> byte list" where
  "write_item (One x) = (if x \<in> {45, 92, 93, 94} then [92, x] else [x])"
| "write_item (Range a b) = [a, 45, b]"

fun write_token :: "token \<Rightarrow> byte list" where
  "write_token Star = [42]"
| "write_token AnyChar = [63]"
| "write_token (Class neg items) = [91] @ (if neg then [94] else []) @ concat (map write_item items) @ [93]"
| "write_token (Lit c) = (if c \<in> {42, 63, 91, 92} then [92, c] else [c])"

definition write_pattern :: "token list \<Rightarrow> byte list" where
  "write_pattern ts = concat (map write_token ts)"

text \<open>A range cannot start with a character that has another meaning there.\<close>

fun item_ok :: "class_item \<Rightarrow> bool" where
  "item_ok (One x) = True"
| "item_ok (Range a b) = (a \<notin> {45, 92, 93, 94})"

fun token_ok :: "token \<Rightarrow> bool" where
  "token_ok (Class neg items) = list_all item_ok items"
| "token_ok _ = True"

lemma sds_at_append [simp]:
  "sds_at (pre @ x # post) (length pre) = Some x"
  by (simp add: sds_at_def)

lemma sds_at_drop: "sds_at (pre @ q) (length pre + k) = sds_at q k"
  by (simp add: sds_at_def nth_append)

lemma in_range_iff: "in_range False a b c = item_matches c (Range a b)"
  by (auto simp: in_range_def Let_def min_def max_def)

lemma match_class_items:
  "list_all item_ok items \<Longrightarrow> p = pre @ concat (map write_item items) @ 93 # post \<Longrightarrow>
   match_class False p c (length pre) m =
     Some (length pre + length (concat (map write_item items)), m \<or> list_ex (item_matches c) items)"
proof (induction items arbitrary: pre m)
  case Nil
  then show ?case by (subst match_class.simps) simp
next
  case (Cons it items)
  let ?q = "concat (map write_item items) @ 93 # post"
  have q: "sds_at ?q 0 \<noteq> Some 45"
    using Cons.prems(1) by (cases items; cases "hd items") (auto simp: sds_at_def)
  have IH: "match_class False p c (length pre + length (write_item it)) m' =
      Some (length pre + length (write_item it) + length (concat (map write_item items)), m' \<or> list_ex (item_matches c) items)" for m'
    using Cons.IH [of "pre @ write_item it" m'] Cons.prems by simp
  have p: "p = pre @ write_item it @ ?q" using Cons.prems(2) by simp
  have ls: "length p \<ge> length pre + length (write_item it) + 1" using p by simp
  show ?case
  proof (cases it)
    case (One x)
    show ?thesis
    proof (cases "x \<in> {45, 92, 93, 94}")
      case True
      then have w: "write_item it = [92, x]" using One by auto
      then have "sds_at p (length pre) = Some 92" "sds_at p (length pre + 1) = Some x"
        using p sds_at_drop [of pre "92 # x # ?q" 0] sds_at_drop [of pre "92 # x # ?q" 1] by (simp_all add: sds_at_def)
      then show ?thesis using IH ls One w by (subst match_class.simps) auto
    next
      case False
      then have w: "write_item it = [x]" using One by simp
      then have "sds_at p (length pre) = Some x" "sds_at p (length pre + 1) = sds_at ?q 0"
        using p sds_at_drop [of pre "x # ?q" 0] sds_at_drop [of pre "x # ?q" 1] by (simp_all add: sds_at_def)
      moreover obtain y where "sds_at ?q 0 = Some y" "y \<noteq> 45" using q sds_at_Some [of 0 ?q] by auto
      ultimately show ?thesis using IH ls One w False by (subst match_class.simps) (auto simp: same_char_def)
    qed
  next
    case (Range a b)
    then have w: "write_item it = [a, 45, b]" "a \<notin> {45, 92, 93, 94}" using Cons.prems(1) by auto
    then have "sds_at p (length pre) = Some a" "sds_at p (length pre + 1) = Some 45" "sds_at p (length pre + 2) = Some b"
      using p sds_at_drop [of pre "a # 45 # b # ?q" 0] sds_at_drop [of pre "a # 45 # b # ?q" 1] sds_at_drop [of pre "a # 45 # b # ?q" 2]
      by (simp_all add: sds_at_def)
    then show ?thesis using IH ls Range w by (subst match_class.simps) (auto simp: in_range_iff numeral_3_eq_3)
  qed
qed

lemma matches_Nil: "matches ts [] = list_all (\<lambda>t. t = Star) ts"
proof (induction ts)
  case (Cons t ts)
  then show ?case by (cases t) simp_all
qed simp

lemma skip_stars_write:
  "skip_stars (pre @ write_pattern ts) (length pre) = length pre + length (takeWhile (\<lambda>t. t = Star) ts)"
proof (induction ts arbitrary: pre)
  case Nil
  then show ?case by (subst skip_stars.simps) (simp add: write_pattern_def)
next
  case (Cons t ts)
  show ?case
  proof (cases "t = Star")
    case True
    then show ?thesis using Cons.IH [of "pre @ [42]"] by (subst skip_stars.simps) (simp add: write_pattern_def)
  next
    case False
    then have "hd (write_token t) \<noteq> 42" "write_token t \<noteq> []" by (cases t; simp)+
    then have "(pre @ write_pattern (t # ts)) ! length pre \<noteq> 42"
      by (cases "write_token t") (simp_all add: write_pattern_def)
    then show ?thesis using False by (subst skip_stars.simps) simp
  qed
qed

section \<open>The matcher implements the meaning of the tokens\<close>

lemma try_from_ex:
  assumes "\<And>k. j \<le> k \<Longrightarrow> k < j + n \<Longrightarrow> f k = Some (P k)"
  shows "try_from f j n = Some (\<exists>k. j \<le> k \<and> k < j + n \<and> P k)"
  using assms
proof (induction n arbitrary: j)
  case (Suc n)
  have "(\<exists>k. j \<le> k \<and> k < j + Suc n \<and> P k) \<longleftrightarrow> P j \<or> (\<exists>k. j + 1 \<le> k \<and> k < j + 1 + n \<and> P k)"
  proof
    assume "\<exists>k. j \<le> k \<and> k < j + Suc n \<and> P k"
    then obtain k where "j \<le> k" "k < j + Suc n" "P k" by blast
    then show "P j \<or> (\<exists>k. j + 1 \<le> k \<and> k < j + 1 + n \<and> P k)" by (cases "k = j") auto
  qed (auto, metis add.commute add_Suc_right less_add_Suc1 le_refl less_or_eq_imp_le Suc_leD add_Suc)
  then show ?case using Suc.prems [of j] Suc.IH [of "j + 1"] Suc.prems by simp
qed simp

lemma write_Cons: "write_pattern (t # ts) = write_token t @ write_pattern ts"
  by (simp add: write_pattern_def)

lemma all_stars: "list_all (\<lambda>t. t = Star) ts \<Longrightarrow> ts = replicate (length ts) Star"
  by (induction ts) auto

lemma length_write_stars: "length (write_pattern (takeWhile (\<lambda>t. t = Star) ts)) = length (takeWhile (\<lambda>t. t = Star) ts)"
  by (induction ts) (auto simp: write_pattern_def)

lemma write_split: "write_pattern ts = write_pattern (takeWhile (\<lambda>t. t = Star) ts) @ write_pattern (dropWhile (\<lambda>t. t = Star) ts)"
  by (metis concat_append map_append takeWhile_dropWhile_id write_pattern_def)

lemma stars_write_iff:
  "length (takeWhile (\<lambda>t. t = Star) ts) = length (write_pattern ts) \<longleftrightarrow> list_all (\<lambda>t. t = Star) ts"
proof (induction ts)
  case (Cons t ts)
  then show ?case by (cases t) (simp_all add: write_Cons)
qed (simp add: write_pattern_def)

lemma write_Nil_iff: "write_pattern ts = [] \<longleftrightarrow> ts = []"
  by (cases ts; cases "hd ts") (auto simp: write_pattern_def)

text \<open>A run of stars followed by a token that consumes a character.\<close>

lemma matches_Star_run:
  "matches (Star # ts) s = (\<exists>k \<le> length s. matches (dropWhile (\<lambda>t. t = Star) ts) (drop k s))"
proof (induction ts arbitrary: s)
  case (Cons t ts)
  show ?case
  proof (cases "t = Star")
    case True
    have "(\<exists>k\<le>length s. \<exists>l\<le>length s - k. matches (dropWhile (\<lambda>t. t = Star) ts) (drop l (drop k s))) =
      (\<exists>k\<le>length s. matches (dropWhile (\<lambda>t. t = Star) ts) (drop k s))" (is "?l = ?r")
    proof
      assume ?l
      then obtain k l where "k \<le> length s" "l \<le> length s - k" "matches (dropWhile (\<lambda>t. t = Star) ts) (drop (l + k) s)" by auto
      then show ?r by (intro exI [of _ "l + k"]) auto
    next
      assume ?r
      then obtain k where "k \<le> length s" "matches (dropWhile (\<lambda>t. t = Star) ts) (drop k s)" by blast
      then show ?l by (intro exI [of _ 0]) auto
    qed
    then show ?thesis
      by (simp only: True matches.simps(2) [of "Star # ts"] Cons.IH dropWhile.simps length_drop if_True simp_thms)
  qed simp
qed simp

lemma dropWhile_Star_Nil: "dropWhile (\<lambda>t. t = Star) ts \<noteq> [] \<Longrightarrow> \<not> matches (dropWhile (\<lambda>t. t = Star) ts) []"
  using hd_dropWhile [of "\<lambda>t. t = Star" ts] by (cases "dropWhile (\<lambda>t. t = Star) ts") (auto simp: matches_Nil)

text \<open>One token that consumes the character at \<open>j\<close>.\<close>

definition token_matches :: "token \<Rightarrow> byte \<Rightarrow> bool" where
  "token_matches t c = (case t of Star \<Rightarrow> False | AnyChar \<Rightarrow> True
     | Class neg items \<Rightarrow> neg \<noteq> list_ex (item_matches c) items | Lit x \<Rightarrow> x = c)"

lemma matches_token: "t \<noteq> Star \<Longrightarrow> matches (t # ts) (c # s) = (token_matches t c \<and> matches ts s)"
  by (cases t) (auto simp: token_matches_def)

lemma glob_token:
  assumes "t \<noteq> Star" "token_ok t" "p = pre @ write_token t @ rest" "j < length s"
  shows "glob False p s (length pre) j =
    (if \<not> token_matches t (s ! j) then Some False
     else if j + 1 = length s then Some (skip_stars p (length pre + length (write_token t)) = length p)
     else glob False p s (length pre + length (write_token t)) (j + 1))"
proof -
  have sj: "sds_at s j = Some (s ! j)" using assms(4) by (simp add: sds_at_def)
  have p0: "length pre < length p" using assms(3) by (cases t) auto
  show ?thesis
  proof (cases t)
    case AnyChar
    then show ?thesis using assms(3,4) p0 by (subst glob.simps) (simp add: token_matches_def)
  next
    case (Lit x)
    show ?thesis
    proof (cases "x \<in> {42, 63, 91, 92}")
      case True
      then have w: "write_token t = [92, x]" using Lit by auto
      then have "sds_at p (length pre + 1) = Some x" "p ! length pre = 92" "2 \<le> length p - length pre"
        using assms(3) sds_at_drop [of pre "92 # x # rest" 1] by (simp_all add: sds_at_def)
      then show ?thesis using p0 sj Lit w by (subst glob.simps) (auto simp: token_matches_def same_char_def)
    next
      case False
      then have w: "write_token t = [x]" using Lit by simp
      then have "sds_at p (length pre) = Some x" "p ! length pre = x" using assms(3) by simp_all
      then show ?thesis using p0 sj Lit w False by (subst glob.simps) (auto simp: token_matches_def same_char_def)
    qed
  next
    case (Class neg items)
    let ?b = "(if neg then [94] else []) :: byte list"
    let ?q = "concat (map write_item items)"
    have p: "p = (pre @ [91] @ ?b) @ ?q @ 93 # rest" using assms(3) Class by simp
    have c: "match_class False p (s ! j) (length (pre @ [91] @ ?b)) False =
        Some (length (pre @ [91] @ ?b) + length ?q, list_ex (item_matches (s ! j)) items)"
      using match_class_items [OF _ p] assms(2) Class by simp
    obtain x where x: "sds_at p (length pre + 1) = Some x" "(x = 94) = neg"
    proof (cases neg)
      case True
      then show thesis using that sds_at_drop [of pre "91 # 94 # ?q @ 93 # rest" 1] p by (simp add: sds_at_def)
    next
      case False
      have "sds_at p (length pre + 1) = sds_at (?q @ 93 # rest) 0"
        using False sds_at_drop [of pre "91 # ?q @ 93 # rest" 1] p by (simp add: sds_at_def)
      moreover have "sds_at (?q @ 93 # rest) 0 \<noteq> Some 94"
        using assms(2) Class by (cases items; cases "hd items") (auto simp: sds_at_def)
      ultimately show thesis using that False sds_at_Some [of 0 "?q @ 93 # rest"] by auto
    qed
    have "p ! length pre = 91" using p by (simp add: nth_append)
    then show ?thesis using p0 sj Class c x by (subst glob.simps) (cases neg; auto simp: token_matches_def)
  qed (use assms(1) in simp)
qed

text \<open>A star, given that the matcher is right on every shorter list of tokens.\<close>

lemma ex_suffix_iff:
  assumes "\<not> P []" "j < length s"
  shows "(\<exists>k. j \<le> k \<and> k < length s \<and> P (drop k s)) \<longleftrightarrow> (\<exists>k \<le> length s - j. P (drop (j + k) s))"
proof
  assume "\<exists>k. j \<le> k \<and> k < length s \<and> P (drop k s)"
  then obtain k where "j \<le> k" "k < length s" "P (drop k s)" by blast
  then show "\<exists>k \<le> length s - j. P (drop (j + k) s)" by (intro exI [of _ "k - j"]) auto
next
  assume "\<exists>k \<le> length s - j. P (drop (j + k) s)"
  then obtain k where k: "P (drop (j + k) s)" by blast
  then have "j + k < length s" using assms(1) by (metis drop_all not_le)
  then show "\<exists>k. j \<le> k \<and> k < length s \<and> P (drop k s)" using k by (intro exI [of _ "j + k"]) auto
qed

lemma glob_star:
  assumes IH: "\<And>vs pre k. length vs \<le> length us \<Longrightarrow> list_all token_ok vs \<Longrightarrow> k < length s \<Longrightarrow>
      glob False (pre @ write_pattern vs) s (length pre) k = Some (matches vs (drop k s))"
    and us: "list_all token_ok us" and j: "j < length s"
  shows "glob False (pre @ write_pattern (Star # us)) s (length pre) j = Some (matches (Star # us) (drop j s))"
proof -
  let ?p = "pre @ write_pattern (Star # us)"
  define vs where "vs = dropWhile (\<lambda>t. t = Star) us"
  define pre' where "pre' = pre @ [42] @ write_pattern (takeWhile (\<lambda>t. t = Star) us)"
  have p: "?p = pre' @ write_pattern vs" using write_split [of us] by (simp add: pre'_def vs_def write_Cons)
  have k: "skip_stars ?p (length pre + 1) = length pre'"
    using skip_stars_write [of "pre @ [42]" us] by (simp add: write_Cons pre'_def length_write_stars)
  have g: "glob False ?p s (length pre) j = (if vs = [] then Some True else try_from (glob False ?p s (length pre')) j (length s - j))"
  proof -
    have i: "length pre < length ?p" "?p ! length pre = 42" by (simp_all add: write_Cons)
    have "length pre' = length ?p \<longleftrightarrow> vs = []" unfolding p by (simp add: write_Nil_iff)
    then show ?thesis using i j k by (subst glob.simps) (simp add: Let_def del: length_append)
  qed
  have m: "matches (Star # us) (drop j s) = (\<exists>k \<le> length s - j. matches vs (drop (j + k) s))"
    using matches_Star_run [of us "drop j s"] by (simp add: vs_def add.commute)
  show ?thesis
  proof (cases "vs = []")
    case True
    have "matches (Star # us) (drop j s)" unfolding m True using j by (intro exI [of _ "length s - j"]) simp
    then show ?thesis using g True by simp
  next
    case False
    have "list_all token_ok vs" using us unfolding vs_def list_all_iff by (auto dest: set_dropWhileD)
    then have "glob False ?p s (length pre') k = Some (matches vs (drop k s))" if "k < length s" for k
      using IH [of vs k pre'] that length_dropWhile_le [of "\<lambda>t. t = Star" us] unfolding p vs_def by blast
    then have "glob False ?p s (length pre) j = Some (\<exists>k. j \<le> k \<and> k < length s \<and> matches vs (drop k s))"
      using g False j try_from_ex [of j "length s - j" "glob False ?p s (length pre')" "\<lambda>k. matches vs (drop k s)"] by simp
    then show ?thesis using m ex_suffix_iff [of "matches vs", OF _ j] dropWhile_Star_Nil False by (simp add: vs_def)
  qed
qed

lemma glob_char:
  assumes IH: "\<And>k. k < length s \<Longrightarrow> glob False ((pre @ write_token t) @ write_pattern us) s (length (pre @ write_token t)) k = Some (matches us (drop k s))"
    and t: "t \<noteq> Star" "token_ok t" and j: "j < length s"
  shows "glob False (pre @ write_pattern (t # us)) s (length pre) j = Some (matches (t # us) (drop j s))"
proof -
  let ?q = "pre @ write_token t" and ?p = "pre @ write_pattern (t # us)"
  have p: "?p = ?q @ write_pattern us" by (simp add: write_Cons)
  have "drop j s = s ! j # drop (j + 1) s" using j by (simp add: Cons_nth_drop_Suc)
  then have m: "matches (t # us) (drop j s) = (token_matches t (s ! j) \<and> matches us (drop (j + 1) s))"
    by (simp only: matches_token [OF t(1)])
  have g: "glob False ?p s (length pre) j =
    (if \<not> token_matches t (s ! j) then Some False
     else if j + 1 = length s then Some (skip_stars ?p (length ?q) = length ?p)
     else glob False ?p s (length ?q) (j + 1))"
    using glob_token [OF t, of ?p pre "write_pattern us" j s] j by (simp add: write_Cons)
  have "skip_stars ?p (length ?q) = length ?p \<longleftrightarrow> length (takeWhile (\<lambda>t. t = Star) us) = length (write_pattern us)"
    using skip_stars_write [of ?q us] p by simp
  then have stars: "skip_stars ?p (length ?q) = length ?p \<longleftrightarrow> matches us []"
    by (simp only: stars_write_iff matches_Nil)
  show ?thesis
  proof (cases "j + 1 = length s")
    case True
    then have "drop (j + 1) s = []" by simp
    then show ?thesis using g m stars True by (simp only: simp_thms if_True split: if_split) simp
  next
    case False
    then show ?thesis using g m IH [of "j + 1"] j p by simp
  qed
qed

lemma glob_tokens:
  "list_all token_ok ts \<Longrightarrow> j < length s \<Longrightarrow> glob False (pre @ write_pattern ts) s (length pre) j = Some (matches ts (drop j s))"
proof (induction ts arbitrary: pre j rule: length_induct)
  case (1 ts)
  show ?case
  proof (cases ts)
    case Nil
    then show ?thesis using 1(3) by (subst glob.simps) (simp add: write_pattern_def)
  next
    case (Cons t us)
    have IH: "length vs \<le> length us \<Longrightarrow> list_all token_ok vs \<Longrightarrow> k < length s \<Longrightarrow>
      glob False (pre @ write_pattern vs) s (length pre) k = Some (matches vs (drop k s))" for vs pre k
      using 1(1) Cons by simp
    have ok: "token_ok t" "list_all token_ok us" using 1(2) Cons by simp_all
    show ?thesis
    proof (cases "t = Star")
      case True
      then show ?thesis using glob_star [OF IH ok(2) 1(3), of pre] Cons by simp
    next
      case False
      show ?thesis unfolding Cons using IH [OF order_refl ok(2)] False ok(1) 1(3) by (rule glob_char)
    qed
  qed
qed

section \<open>The properties\<close>

text \<open>Property C33: in the case-sensitive mode and on a non-empty string, \<open>stringmatchlen\<close> decides whether the string belongs to the language
  of the pattern, for every pattern written from tokens with the escapes the syntax requires: it
  always answers (no access out of bounds), and the answer is the one of the token semantics.\<close>
theorem stringmatchlen_matches:
  assumes "list_all token_ok ts" "s \<noteq> []"
  shows "stringmatchlen (write_pattern ts) s False = Some (matches ts s)"
  using glob_tokens [OF assms(1), of 0 s "[]"] assms(2) by (simp add: stringmatchlen_def)

theorem stringmatchlen_matches_witness:
  "stringmatchlen (write_pattern [Lit 110, Star, Class False [Range 97 122], Lit 42]) [110, 101, 119, 115, 42] False =
     Some (matches [Lit 110, Star, Class False [Range 97 122], Lit 42] [110, 101, 119, 115, 42])"
  by (rule stringmatchlen_matches) simp_all

text \<open>The empty string. The class, literal and escape branches do not test \<open>stringLen\<close>, so a negated
  class consumes the terminator of an empty string: \<open>[^a]*\<close> is reported to match it although no
  character is there, and with \<open>[^a]*b\<close> the search runs past the end of the string.\<close>

lemma stringmatchlen_empty_string:
  "stringmatchlen (write_pattern [Class True [One 97], Star]) [] False = Some True
   \<and> \<not> matches [Class True [One 97], Star] []
   \<and> stringmatchlen (write_pattern [Class True [One 97], Star, Lit 98]) [] False = None"
  by (simp add: stringmatchlen_def write_pattern_def glob.simps match_class.simps skip_stars.simps sds_at_def same_char_def)

end
