(* ===== verification/Pubsub.thy ===== *)
theory Pubsub
  imports Glob
begin

text \<open>
  Publish/Subscribe (\<open>pubsub.c\<close>): every client has the set of its channels and the list of its patterns,
  and the server has for every channel the list of the clients that subscribed to it and one list of
  all pairs of client and pattern. The hash tables are maps and lists of distinct keys; the
  order in which a table is iterated over is the parameter \<open>ord\<close>. A reply is one message
  to a client. \<^const>\<open>None\<close> is a failed assertion, the deletion of a node that was not found, or an
  access out of bounds in the pattern matcher.
\<close>

section \<open>The state\<close>

type_synonym sds = "byte list"

datatype pubsub_reply =
    RSubscribe sds nat
  | RUnsubscribe "sds option" nat
  | RPSubscribe sds nat
  | RPUnsubscribe "sds option" nat
  | RMessage sds sds
  | RPMessage sds sds sds
  | RInt nat
  | RBulks "sds list"
  | RNumSub "(sds \<times> nat) list"
  | RError sds

record pclient =
  c_pubsub_channels :: "sds list"
  c_pubsub_patterns :: "sds list"
  c_flag_pubsub :: bool
  c_reply :: "pubsub_reply list"

datatype pubsub_propagation = ClusterPublish sds sds | ForceRepl nat

record pserver =
  pclients :: "nat \<Rightarrow> pclient"
  pubsub_channels :: "sds \<Rightarrow> nat list option"
  pubsub_patterns :: "(nat \<times> sds) list"
  propagation :: "pubsub_propagation list"

definition with_client :: "nat \<Rightarrow> (pclient \<Rightarrow> pclient) \<Rightarrow> pserver \<Rightarrow> pserver" where
  "with_client c f s = s\<lparr>pclients := (pclients s)(c := f (pclients s c))\<rparr>"

definition send :: "nat \<Rightarrow> pubsub_reply \<Rightarrow> pserver \<Rightarrow> pserver" where
  "send c r = with_client c (\<lambda>cl. cl\<lparr>c_reply := c_reply cl @ [r]\<rparr>)"

section \<open>The low-level operations\<close>

definition clientSubscriptionsCount :: "nat \<Rightarrow> pserver \<Rightarrow> nat" where
  "clientSubscriptionsCount c s = length (c_pubsub_channels (pclients s c)) + length (c_pubsub_patterns (pclients s c))"

definition pubsubSubscribeChannel :: "nat \<Rightarrow> sds \<Rightarrow> pserver \<Rightarrow> nat \<times> pserver" where
  "pubsubSubscribeChannel c ch s =
     (let fresh = ch \<notin> set (c_pubsub_channels (pclients s c));
          s = (if fresh then
                 let cl = (case pubsub_channels s ch of None \<Rightarrow> [] | Some cl \<Rightarrow> cl)
                 in with_client c (\<lambda>cl. cl\<lparr>c_pubsub_channels := c_pubsub_channels cl @ [ch]\<rparr>)
                      (s\<lparr>pubsub_channels := (pubsub_channels s)(ch \<mapsto> cl @ [c])\<rparr>)
               else s)
      in (of_bool fresh, send c (RSubscribe ch (clientSubscriptionsCount c s)) s))"

definition pubsubUnsubscribeChannel :: "nat \<Rightarrow> sds \<Rightarrow> bool \<Rightarrow> pserver \<Rightarrow> (nat \<times> pserver) option" where
  "pubsubUnsubscribeChannel c ch notify s = do {
     let present = ch \<in> set (c_pubsub_channels (pclients s c));
     s \<leftarrow> (if present then do {
         cl \<leftarrow> pubsub_channels s ch;
         if c \<notin> set cl then None
         else let cl = remove1 c cl
              in Some (with_client c (\<lambda>cl. cl\<lparr>c_pubsub_channels := remove1 ch (c_pubsub_channels cl)\<rparr>)
                   (s\<lparr>pubsub_channels := (pubsub_channels s)(ch := (if cl = [] then None else Some cl))\<rparr>))
       } else Some s);
     Some (of_bool present, if notify then send c (RUnsubscribe (Some ch) (clientSubscriptionsCount c s)) s else s)
   }"

definition pubsubSubscribePattern :: "nat \<Rightarrow> sds \<Rightarrow> pserver \<Rightarrow> nat \<times> pserver" where
  "pubsubSubscribePattern c p s =
     (let fresh = p \<notin> set (c_pubsub_patterns (pclients s c));
          s = (if fresh then with_client c (\<lambda>cl. cl\<lparr>c_pubsub_patterns := c_pubsub_patterns cl @ [p]\<rparr>)
                 (s\<lparr>pubsub_patterns := pubsub_patterns s @ [(c, p)]\<rparr>) else s)
      in (of_bool fresh, send c (RPSubscribe p (clientSubscriptionsCount c s)) s))"

definition pubsubUnsubscribePattern :: "nat \<Rightarrow> sds \<Rightarrow> bool \<Rightarrow> pserver \<Rightarrow> (nat \<times> pserver) option" where
  "pubsubUnsubscribePattern c p notify s = do {
     let present = p \<in> set (c_pubsub_patterns (pclients s c));
     s \<leftarrow> (if present then
         if (c, p) \<notin> set (pubsub_patterns s) then None
         else Some (with_client c (\<lambda>cl. cl\<lparr>c_pubsub_patterns := remove1 p (c_pubsub_patterns cl)\<rparr>)
                (s\<lparr>pubsub_patterns := remove1 (c, p) (pubsub_patterns s)\<rparr>))
       else Some s);
     Some (of_bool present, if notify then send c (RPUnsubscribe (Some p) (clientSubscriptionsCount c s)) s else s)
   }"

text \<open>A loop that adds up the results of an operation over a list of channels or patterns.\<close>

fun sum_over :: "(sds \<Rightarrow> pserver \<Rightarrow> (nat \<times> pserver) option) \<Rightarrow> sds list \<Rightarrow> pserver \<Rightarrow> (nat \<times> pserver) option" where
  "sum_over f [] s = Some (0, s)"
| "sum_over f (x # xs) s = do {
     (n, s) \<leftarrow> f x s;
     (m, s) \<leftarrow> sum_over f xs s;
     Some (n + m, s)
   }"

definition pubsubUnsubscribeAllChannels :: "(sds list \<Rightarrow> sds list) \<Rightarrow> nat \<Rightarrow> bool \<Rightarrow> pserver \<Rightarrow> (nat \<times> pserver) option" where
  "pubsubUnsubscribeAllChannels ord c notify s = do {
     (n, s) \<leftarrow> sum_over (\<lambda>ch. pubsubUnsubscribeChannel c ch notify) (ord (c_pubsub_channels (pclients s c))) s;
     Some (n, if notify \<and> n = 0 then send c (RUnsubscribe None (clientSubscriptionsCount c s)) s else s)
   }"

definition pubsubUnsubscribeAllPatterns :: "nat \<Rightarrow> bool \<Rightarrow> pserver \<Rightarrow> (nat \<times> pserver) option" where
  "pubsubUnsubscribeAllPatterns c notify s = do {
     (n, s) \<leftarrow> sum_over (\<lambda>p. pubsubUnsubscribePattern c p notify) (c_pubsub_patterns (pclients s c)) s;
     Some (n, if notify \<and> n = 0 then send c (RPUnsubscribe None (clientSubscriptionsCount c s)) s else s)
   }"

fun publish_patterns :: "sds \<Rightarrow> sds \<Rightarrow> (nat \<times> sds) list \<Rightarrow> pserver \<Rightarrow> (nat \<times> pserver) option" where
  "publish_patterns ch msg [] s = Some (0, s)"
| "publish_patterns ch msg ((c, p) # ps) s = do {
     hit \<leftarrow> stringmatchlen p ch False;
     (n, s) \<leftarrow> publish_patterns ch msg ps (if hit then send c (RPMessage p ch msg) s else s);
     Some (of_bool hit + n, s)
   }"

definition pubsubPublishMessage :: "sds \<Rightarrow> sds \<Rightarrow> pserver \<Rightarrow> (nat \<times> pserver) option" where
  "pubsubPublishMessage ch msg s = do {
     let cl = (case pubsub_channels s ch of None \<Rightarrow> [] | Some cl \<Rightarrow> cl);
     (n, s) \<leftarrow> publish_patterns ch msg (pubsub_patterns s) (fold (\<lambda>c. send c (RMessage ch msg)) cl s);
     Some (length cl + n, s)
   }"

section \<open>The commands\<close>

definition subscribeCommand :: "nat \<Rightarrow> sds list \<Rightarrow> pserver \<Rightarrow> pserver" where
  "subscribeCommand c args s =
     with_client c (\<lambda>cl. cl\<lparr>c_flag_pubsub := True\<rparr>) (fold (\<lambda>ch s. snd (pubsubSubscribeChannel c ch s)) args s)"

definition clear_pubsub :: "nat \<Rightarrow> pserver \<Rightarrow> pserver" where
  "clear_pubsub c s = (if clientSubscriptionsCount c s = 0 then with_client c (\<lambda>cl. cl\<lparr>c_flag_pubsub := False\<rparr>) s else s)"

definition unsubscribeCommand :: "(sds list \<Rightarrow> sds list) \<Rightarrow> nat \<Rightarrow> sds list \<Rightarrow> pserver \<Rightarrow> pserver option" where
  "unsubscribeCommand ord c args s =
     map_option (\<lambda>(_, s). clear_pubsub c s)
       (if args = [] then pubsubUnsubscribeAllChannels ord c True s
        else sum_over (\<lambda>ch. pubsubUnsubscribeChannel c ch True) args s)"

definition psubscribeCommand :: "nat \<Rightarrow> sds list \<Rightarrow> pserver \<Rightarrow> pserver" where
  "psubscribeCommand c args s =
     with_client c (\<lambda>cl. cl\<lparr>c_flag_pubsub := True\<rparr>) (fold (\<lambda>p s. snd (pubsubSubscribePattern c p s)) args s)"

definition punsubscribeCommand :: "nat \<Rightarrow> sds list \<Rightarrow> pserver \<Rightarrow> pserver option" where
  "punsubscribeCommand c args s =
     map_option (\<lambda>(_, s). clear_pubsub c s)
       (if args = [] then pubsubUnsubscribeAllPatterns c True s
        else sum_over (\<lambda>p. pubsubUnsubscribePattern c p True) args s)"

definition publishCommand :: "bool \<Rightarrow> nat \<Rightarrow> sds \<Rightarrow> sds \<Rightarrow> pserver \<Rightarrow> pserver option" where
  "publishCommand cluster c ch msg s = do {
     (n, s) \<leftarrow> pubsubPublishMessage ch msg s;
     let s = s\<lparr>propagation := propagation s @ [if cluster then ClusterPublish ch msg else ForceRepl c]\<rparr>;
     Some (send c (RInt n) s)
   }"

text \<open>\<open>PUBSUB\<close>: introspection. \<open>keys\<close> is the order in which the table of channels is iterated over; the
  comparison of the subcommand ignores case and stops at a null byte.\<close>

definition casecmp_eq :: "sds \<Rightarrow> sds \<Rightarrow> bool" where
  "casecmp_eq a b = (map to_lower (takeWhile (\<lambda>x. x \<noteq> 0) a) = b)"

fun matching_channels :: "sds option \<Rightarrow> sds list \<Rightarrow> sds list option" where
  "matching_channels pat [] = Some []"
| "matching_channels pat (ch # chs) = do {
     hit \<leftarrow> (case pat of None \<Rightarrow> Some True | Some p \<Rightarrow> stringmatchlen p ch False);
     rest \<leftarrow> matching_channels pat chs;
     Some (if hit then ch # rest else rest)
   }"

definition subscribers :: "pserver \<Rightarrow> sds \<Rightarrow> nat list" where
  "subscribers s ch = (case pubsub_channels s ch of None \<Rightarrow> [] | Some cl \<Rightarrow> cl)"

definition pubsubCommand :: "sds list \<Rightarrow> nat \<Rightarrow> sds \<Rightarrow> sds list \<Rightarrow> pserver \<Rightarrow> pserver option" where
  "pubsubCommand keys c sub args s =
     (if casecmp_eq sub [99, 104, 97, 110, 110, 101, 108, 115] \<and> length args \<le> 1 then
        map_option (\<lambda>chs. send c (RBulks chs) s) (matching_channels (if args = [] then None else Some (hd args)) keys)
      else if casecmp_eq sub [110, 117, 109, 115, 117, 98] then
        Some (send c (RNumSub (map (\<lambda>ch. (ch, length (subscribers s ch))) args)) s)
      else if casecmp_eq sub [110, 117, 109, 112, 97, 116] \<and> args = [] then
        Some (send c (RInt (length (pubsub_patterns s))) s)
      else Some (send c (RError sub) s))"

section \<open>The invariant\<close>

text \<open>The two directions of every subscription agree: a channel lists exactly the clients that list the
  channel, without repetition, and has an entry only if somebody listens; and the patterns of a
  client are its entries in the list of the server, in the same order.\<close>

definition pubsub_inv :: "pserver \<Rightarrow> bool" where
  "pubsub_inv s \<longleftrightarrow>
     (\<forall>c. distinct (c_pubsub_channels (pclients s c)) \<and> distinct (c_pubsub_patterns (pclients s c))) \<and>
     (\<forall>ch. pubsub_channels s ch \<noteq> Some [] \<and> distinct (subscribers s ch)) \<and>
     (\<forall>c ch. c \<in> set (subscribers s ch) \<longleftrightarrow> ch \<in> set (c_pubsub_channels (pclients s c))) \<and>
     (\<forall>c. map snd (filter (\<lambda>x. fst x = c) (pubsub_patterns s)) = c_pubsub_patterns (pclients s c))"

lemma send_fields [simp]:
  "c_pubsub_channels (pclients (send c r s) d) = c_pubsub_channels (pclients s d)"
  "c_pubsub_patterns (pclients (send c r s) d) = c_pubsub_patterns (pclients s d)"
  "pubsub_channels (send c r s) = pubsub_channels s" "pubsub_patterns (send c r s) = pubsub_patterns s"
  "c_reply (pclients (send c r s) d) = c_reply (pclients s d) @ (if d = c then [r] else [])"
  by (simp_all add: send_def with_client_def)

lemma subscribers_send [simp]: "subscribers (send c r s) = subscribers s"
  by (simp add: subscribers_def fun_eq_iff)

lemma inv_send [simp]: "pubsub_inv (send c r s) = pubsub_inv s"
  by (simp add: pubsub_inv_def)

lemma flag_fields [simp]:
  "c_pubsub_channels (pclients (with_client c (\<lambda>cl. cl\<lparr>c_flag_pubsub := b\<rparr>) s) d) = c_pubsub_channels (pclients s d)"
  "c_pubsub_patterns (pclients (with_client c (\<lambda>cl. cl\<lparr>c_flag_pubsub := b\<rparr>) s) d) = c_pubsub_patterns (pclients s d)"
  "pubsub_channels (with_client c f s) = pubsub_channels s" "pubsub_patterns (with_client c f s) = pubsub_patterns s"
  "subscribers (with_client c f s) = subscribers s"
  by (simp_all add: with_client_def subscribers_def fun_eq_iff)

lemma inv_flag [simp]: "pubsub_inv (with_client c (\<lambda>cl. cl\<lparr>c_flag_pubsub := b\<rparr>) s) = pubsub_inv s"
  by (simp add: pubsub_inv_def)

lemma inv_subscribe:
  assumes "pubsub_inv s"
  shows "pubsub_inv (snd (pubsubSubscribeChannel c ch s))"
proof (cases "ch \<in> set (c_pubsub_channels (pclients s c))")
  case True
  then show ?thesis using assms by (simp add: pubsubSubscribeChannel_def)
next
  case False
  let ?s = "with_client c (\<lambda>cl. cl\<lparr>c_pubsub_channels := c_pubsub_channels cl @ [ch]\<rparr>)
      (s\<lparr>pubsub_channels := (pubsub_channels s)(ch \<mapsto> subscribers s ch @ [c])\<rparr>)"
  have n: "c \<notin> set (subscribers s ch)" using assms False by (simp add: pubsub_inv_def)
  have sub: "subscribers ?s x = (if x = ch then subscribers s ch @ [c] else subscribers s x)" for x
    by (simp add: subscribers_def)
  have "pubsub_inv ?s" unfolding pubsub_inv_def sub using assms False n by (auto simp: pubsub_inv_def with_client_def)
  then show ?thesis using False by (simp add: pubsubSubscribeChannel_def Let_def subscribers_def)
qed

lemma inv_psubscribe:
  assumes "pubsub_inv s"
  shows "pubsub_inv (snd (pubsubSubscribePattern c p s))"
proof (cases "p \<in> set (c_pubsub_patterns (pclients s c))")
  case False
  let ?s = "with_client c (\<lambda>cl. cl\<lparr>c_pubsub_patterns := c_pubsub_patterns cl @ [p]\<rparr>) (s\<lparr>pubsub_patterns := pubsub_patterns s @ [(c, p)]\<rparr>)"
  have sub: "subscribers ?s = subscribers s" by (simp add: subscribers_def fun_eq_iff)
  have "pubsub_inv ?s" unfolding pubsub_inv_def sub using assms False by (auto simp: pubsub_inv_def with_client_def)
  then show ?thesis using False by (simp add: pubsubSubscribePattern_def Let_def)
qed (use assms in \<open>simp add: pubsubSubscribePattern_def\<close>)

lemma inv_unsubscribe:
  assumes i: "pubsub_inv s"
  shows "\<exists>n s'. pubsubUnsubscribeChannel c ch notify s = Some (n, s') \<and> pubsub_inv s'"
proof (cases "ch \<in> set (c_pubsub_channels (pclients s c))")
  case True
  then have c: "c \<in> set (subscribers s ch)" using i by (simp add: pubsub_inv_def)
  then obtain cl where cl: "pubsub_channels s ch = Some cl" "subscribers s ch = cl"
    by (cases "pubsub_channels s ch") (auto simp: subscribers_def)
  let ?s = "with_client c (\<lambda>cl. cl\<lparr>c_pubsub_channels := remove1 ch (c_pubsub_channels cl)\<rparr>)
      (s\<lparr>pubsub_channels := (pubsub_channels s)(ch := (if remove1 c cl = [] then None else Some (remove1 c cl)))\<rparr>)"
  have d: "distinct cl" "distinct (c_pubsub_channels (pclients s c))" using i cl by (auto simp: pubsub_inv_def)
  have sub: "subscribers ?s x = (if x = ch then remove1 c cl else subscribers s x)" for x
    by (simp add: subscribers_def)
  have "pubsub_inv ?s" unfolding pubsub_inv_def sub using i cl d by (auto simp: pubsub_inv_def with_client_def)
  then show ?thesis using True cl c by (auto simp: pubsubUnsubscribeChannel_def Let_def)
qed (use i in \<open>auto simp: pubsubUnsubscribeChannel_def Let_def\<close>)

lemma filter_remove1_pair:
  "map snd (filter (\<lambda>x. fst x = d) (remove1 (c, p) ps)) =
   (if d = c then remove1 p (map snd (filter (\<lambda>x. fst x = d) ps)) else map snd (filter (\<lambda>x. fst x = d) ps))"
  by (induction ps) auto

lemma inv_punsubscribe:
  assumes i: "pubsub_inv s"
  shows "\<exists>n s'. pubsubUnsubscribePattern c p notify s = Some (n, s') \<and> pubsub_inv s'"
proof (cases "p \<in> set (c_pubsub_patterns (pclients s c))")
  case True
  then have "p \<in> set (map snd (filter (\<lambda>x. fst x = c) (pubsub_patterns s)))" using i by (simp add: pubsub_inv_def)
  then have "(c, p) \<in> set (pubsub_patterns s)" by auto
  moreover have "pubsub_inv (with_client c (\<lambda>cl. cl\<lparr>c_pubsub_patterns := remove1 p (c_pubsub_patterns cl)\<rparr>)
      (s\<lparr>pubsub_patterns := remove1 (c, p) (pubsub_patterns s)\<rparr>))" (is "pubsub_inv ?s")
  proof -
    have sub: "subscribers ?s = subscribers s" by (simp add: subscribers_def fun_eq_iff)
    show ?thesis unfolding pubsub_inv_def sub using i by (auto simp: pubsub_inv_def with_client_def filter_remove1_pair)
  qed
  ultimately show ?thesis using True by (auto simp: pubsubUnsubscribePattern_def Let_def)
qed (use i in \<open>auto simp: pubsubUnsubscribePattern_def Let_def\<close>)

lemma inv_sum_over:
  assumes "\<And>x s. pubsub_inv s \<Longrightarrow> \<exists>n s'. f x s = Some (n, s') \<and> pubsub_inv s'" "pubsub_inv s"
  shows "\<exists>n s'. sum_over f xs s = Some (n, s') \<and> pubsub_inv s'"
  using assms(2)
proof (induction xs arbitrary: s)
  case (Cons x xs)
  then show ?case using assms(1) [of s x] by fastforce
qed simp

lemma inv_fold: "(\<And>x s. pubsub_inv s \<Longrightarrow> pubsub_inv (f x s)) \<Longrightarrow> pubsub_inv s \<Longrightarrow> pubsub_inv (fold f xs s)"
  by (induction xs arbitrary: s) simp_all

lemma inv_clear [simp]: "pubsub_inv (clear_pubsub c s) = pubsub_inv s"
  by (simp add: clear_pubsub_def)

section \<open>Publishing\<close>

lemma fold_send:
  "distinct cl \<Longrightarrow> c_reply (pclients (fold (\<lambda>c. send c r) cl s) d) = c_reply (pclients s d) @ (if d \<in> set cl then [r] else [])"
  by (induction cl arbitrary: s) auto

lemma fold_send_fields [simp]:
  "pubsub_patterns (fold (\<lambda>c. send c r) cl s) = pubsub_patterns s" "pubsub_inv (fold (\<lambda>c. send c r) cl s) = pubsub_inv s"
  by (induction cl arbitrary: s) simp_all

lemma publish_patterns_delivers:
  assumes "\<forall>x \<in> set ps. stringmatchlen (snd x) ch False = Some (hit (snd x))"
  shows "\<exists>s'. publish_patterns ch msg ps s = Some (length (filter (\<lambda>x. hit (snd x)) ps), s') \<and> pubsub_inv s' = pubsub_inv s \<and>
    (\<forall>d. c_reply (pclients s' d) = c_reply (pclients s d) @ map (\<lambda>p. RPMessage p ch msg) (filter hit (map snd (filter (\<lambda>x. fst x = d) ps))))"
  using assms
proof (induction ps arbitrary: s)
  case (Cons x ps)
  obtain c p where x: "x = (c, p)" by fastforce
  let ?s = "if hit p then send c (RPMessage p ch msg) s else s"
  obtain s' where s': "publish_patterns ch msg ps ?s = Some (length (filter (\<lambda>x. hit (snd x)) ps), s')" "pubsub_inv s' = pubsub_inv ?s"
    "\<forall>d. c_reply (pclients s' d) = c_reply (pclients ?s d) @ map (\<lambda>p. RPMessage p ch msg) (filter hit (map snd (filter (\<lambda>x. fst x = d) ps)))"
    using Cons.IH [of ?s] Cons.prems by auto
  have "stringmatchlen p ch False = Some (hit p)" using Cons.prems x by simp
  then show ?case using s' x by (intro exI [of _ s']) (auto split: if_splits)
qed simp

section \<open>The properties\<close>

datatype pubsub_cmd = Subscribe nat "sds list" | Unsubscribe nat "sds list" | PSubscribe nat "sds list" | PUnsubscribe nat "sds list"

fun pubsub_exec :: "(sds list \<Rightarrow> sds list) \<Rightarrow> pubsub_cmd \<Rightarrow> pserver \<Rightarrow> pserver option" where
  "pubsub_exec ord (Subscribe c args) s = Some (subscribeCommand c args s)"
| "pubsub_exec ord (Unsubscribe c args) s = unsubscribeCommand ord c args s"
| "pubsub_exec ord (PSubscribe c args) s = Some (psubscribeCommand c args s)"
| "pubsub_exec ord (PUnsubscribe c args) s = punsubscribeCommand c args s"

fun pubsub_run :: "(sds list \<Rightarrow> sds list) \<Rightarrow> pubsub_cmd list \<Rightarrow> pserver \<Rightarrow> pserver option" where
  "pubsub_run ord [] s = Some s"
| "pubsub_run ord (x # xs) s = Option.bind (pubsub_exec ord x s) (pubsub_run ord xs)"

definition pubsub_empty :: pserver where
  "pubsub_empty = \<lparr>pclients = (\<lambda>c. \<lparr>c_pubsub_channels = [], c_pubsub_patterns = [], c_flag_pubsub = False, c_reply = []\<rparr>),
     pubsub_channels = (\<lambda>ch. None), pubsub_patterns = [], propagation = []\<rparr>"

lemma pubsub_exec_inv: "pubsub_inv s \<Longrightarrow> \<exists>s'. pubsub_exec ord x s = Some s' \<and> pubsub_inv s'"
proof (cases x)
  case (Subscribe c args)
  moreover assume "pubsub_inv s"
  ultimately show ?thesis using inv_fold [of "\<lambda>ch s. snd (pubsubSubscribeChannel c ch s)"] inv_subscribe
    by (simp add: subscribeCommand_def)
next
  case (PSubscribe c args)
  moreover assume "pubsub_inv s"
  ultimately show ?thesis using inv_fold [of "\<lambda>p s. snd (pubsubSubscribePattern c p s)"] inv_psubscribe
    by (simp add: psubscribeCommand_def)
next
  case (Unsubscribe c args)
  assume i: "pubsub_inv s"
  obtain n s' where "sum_over (\<lambda>ch. pubsubUnsubscribeChannel c ch True) (if args = [] then ord (c_pubsub_channels (pclients s c)) else args) s = Some (n, s')" "pubsub_inv s'"
    using inv_sum_over [of "\<lambda>ch. pubsubUnsubscribeChannel c ch True" s "if args = [] then ord (c_pubsub_channels (pclients s c)) else args", OF inv_unsubscribe i] by blast
  then show ?thesis using Unsubscribe by (cases "args = []") (simp_all add: unsubscribeCommand_def pubsubUnsubscribeAllChannels_def)
next
  case (PUnsubscribe c args)
  assume i: "pubsub_inv s"
  obtain n s' where "sum_over (\<lambda>p. pubsubUnsubscribePattern c p True) (if args = [] then c_pubsub_patterns (pclients s c) else args) s = Some (n, s')" "pubsub_inv s'"
    using inv_sum_over [of "\<lambda>p. pubsubUnsubscribePattern c p True" s "if args = [] then c_pubsub_patterns (pclients s c) else args", OF inv_punsubscribe i] by blast
  then show ?thesis using PUnsubscribe by (cases "args = []") (simp_all add: punsubscribeCommand_def pubsubUnsubscribeAllPatterns_def)
qed

lemma pubsub_run_inv: "pubsub_inv s \<Longrightarrow> \<exists>s'. pubsub_run ord xs s = Some s' \<and> pubsub_inv s'"
proof (induction xs arbitrary: s)
  case (Cons x xs)
  then show ?case using pubsub_exec_inv [OF Cons.prems, of ord x] by auto
qed simp

text \<open>Property C16: whatever subscriptions and unsubscriptions clients send, and in whatever order tables are iterated over, no
  assertion fails, and the tables of the clients and of the server agree: a channel lists exactly the
  clients that are subscribed to it, each once, channels without subscribers have no entry, and
  the patterns of a client are its entries in the list of the server.\<close>
theorem subscriptions_agree:
  "\<exists>s. pubsub_run ord cmds pubsub_empty = Some s \<and> pubsub_inv s"
  by (rule pubsub_run_inv) (simp add: pubsub_inv_def pubsub_empty_def subscribers_def)

text \<open>Property C17: publishing. When the matcher answers for the patterns of the server, every client that is subscribed to the channel
  gets the message once, every client gets it once more for each of its patterns that matches, in the
  order of its patterns, nobody else gets anything, and the number of receivers is the number of
  messages sent.\<close>
theorem publish_delivers:
  assumes "pubsub_inv s" "\<forall>x \<in> set (pubsub_patterns s). stringmatchlen (snd x) ch False = Some (hit (snd x))"
  shows "\<exists>s'. pubsubPublishMessage ch msg s = Some (length (subscribers s ch) + length (filter (\<lambda>x. hit (snd x)) (pubsub_patterns s)), s') \<and>
    pubsub_inv s' \<and>
    (\<forall>c. c_reply (pclients s' c) = c_reply (pclients s c) @
       (if ch \<in> set (c_pubsub_channels (pclients s c)) then [RMessage ch msg] else []) @
       map (\<lambda>p. RPMessage p ch msg) (filter hit (c_pubsub_patterns (pclients s c))))"
proof -
  let ?s = "fold (\<lambda>c. send c (RMessage ch msg)) (subscribers s ch) s"
  obtain s' where s': "publish_patterns ch msg (pubsub_patterns s) ?s = Some (length (filter (\<lambda>x. hit (snd x)) (pubsub_patterns s)), s')"
    "pubsub_inv s' = pubsub_inv ?s"
    "\<forall>d. c_reply (pclients s' d) = c_reply (pclients ?s d) @ map (\<lambda>p. RPMessage p ch msg) (filter hit (map snd (filter (\<lambda>x. fst x = d) (pubsub_patterns s))))"
    using publish_patterns_delivers [OF assms(2)] by blast
  have "distinct (subscribers s ch)" "\<forall>c. c \<in> set (subscribers s ch) \<longleftrightarrow> ch \<in> set (c_pubsub_channels (pclients s c))"
    "\<forall>c. map snd (filter (\<lambda>x. fst x = c) (pubsub_patterns s)) = c_pubsub_patterns (pclients s c)"
    using assms(1) by (simp_all add: pubsub_inv_def)
  then show ?thesis using s' assms(1) fold_send [of "subscribers s ch" "RMessage ch msg" s]
    by (intro exI [of _ s']) (simp add: pubsubPublishMessage_def subscribers_def [symmetric])
qed

definition pubsub_demo :: pserver where
  "pubsub_demo = psubscribeCommand 2 [[110, 42], [120]] (subscribeCommand 1 [[110, 101]] pubsub_empty)"

theorem publish_delivers_witness:
  "\<exists>s'. pubsubPublishMessage [110, 101] [1] pubsub_demo =
      Some (length (subscribers pubsub_demo [110, 101]) + length (filter (\<lambda>x. hd (snd x) = 110) (pubsub_patterns pubsub_demo)), s') \<and>
    pubsub_inv s' \<and>
    (\<forall>c. c_reply (pclients s' c) = c_reply (pclients pubsub_demo c) @
       (if [110, 101] \<in> set (c_pubsub_channels (pclients pubsub_demo c)) then [RMessage [110, 101] [1]] else []) @
       map (\<lambda>p. RPMessage p [110, 101] [1]) (filter (\<lambda>p. hd p = 110) (c_pubsub_patterns (pclients pubsub_demo c))))"
proof (rule publish_delivers [where hit = "\<lambda>p. hd p = 110"])
  have "pubsub_run (\<lambda>xs. xs) [Subscribe 1 [[110, 101]], PSubscribe 2 [[110, 42], [120]]] pubsub_empty = Some pubsub_demo"
    by (simp add: pubsub_demo_def)
  moreover have "pubsub_inv pubsub_empty" by (simp add: pubsub_inv_def pubsub_empty_def subscribers_def)
  ultimately show "pubsub_inv pubsub_demo" using pubsub_run_inv [of pubsub_empty] by (metis option.inject)
  have "pubsub_patterns pubsub_demo = [(2, [110, 42]), (2, [120])]" by code_simp
  moreover have "stringmatchlen [110, 42] [110, 101] False = Some True" "stringmatchlen [120] [110, 101] False = Some False"
    by (simp_all add: stringmatchlen_def glob.simps skip_stars.simps sds_at_def same_char_def)
  ultimately show "\<forall>x \<in> set (pubsub_patterns pubsub_demo). stringmatchlen (snd x) [110, 101] False = Some (hd (snd x) = 110)" by simp
qed

end
