(* ===== verification/Data_Queue.thy ===== *)
theory Data_Queue
  imports Interfaces
begin

text \<open>
  The packet queue \<open>CYSDataQueue\<close> of the service core (\<open>YSDataQueue.cpp\<close>): packets of a 4-byte head
  and their data, stored back to back in one block that is used as a ring and grows on demand.
  Positions and sizes are 32-bit (\<open>DWORD\<close>), the size of one packet is 16-bit (\<open>WORD\<close>), and both wrap
  as in the source. A copy outside a block makes the result \<^const>\<open>None\<close>.
\<close>

section \<open>The state\<close>

record tagDataHead =
  wDataSize :: uint16
  wIdentifier :: uint16

record tagBurthenInfo =
  bi_dwDataSize :: uint32
  bi_dwBufferSize :: uint32
  bi_dwDataPacketCount :: uint32

record tagDataBuffer =
  db_wDataSize :: uint16
  pDataBuffer :: "byte list"

record data_queue =
  m_dwInsertPos :: uint32
  m_dwTerminalPos :: uint32
  m_dwDataQueryPos :: uint32
  m_dwDataSize :: uint32
  m_dwDataPacketCount :: uint32
  m_dwBufferSize :: uint32
  m_pDataQueueBuffer :: "byte list option"

definition CYSDataQueue :: data_queue where
  "CYSDataQueue = \<lparr>m_dwInsertPos = 0, m_dwTerminalPos = 0, m_dwDataQueryPos = 0, m_dwDataSize = 0,
     m_dwDataPacketCount = 0, m_dwBufferSize = 0, m_pDataQueueBuffer = None\<rparr>"

text \<open>A head in memory, and the size of one.\<close>

definition head_bytes :: "tagDataHead \<Rightarrow> byte list" where
  "head_bytes h = le_bytes 2 (uint (wDataSize h)) @ le_bytes 2 (uint (wIdentifier h))"

definition head_of :: "byte list \<Rightarrow> tagDataHead" where
  "head_of bs = \<lparr>wDataSize = word_of_int (le_uint (take 2 bs)), wIdentifier = word_of_int (le_uint (take 2 (drop 2 bs)))\<rparr>"

abbreviation sizeof_DataHead :: "'a::len word" where
  "sizeof_DataHead \<equiv> 4"

text \<open>\<open>new BYTE[n]\<close>: the parameter says whether the allocation succeeds and what the fresh block
  contains. The server is a 32-bit process, in which no block of 2 GB or more exists.\<close>

type_synonym heap = "nat \<Rightarrow> (nat \<Rightarrow> byte) option"

definition new_bytes :: "heap \<Rightarrow> uint32 \<Rightarrow> byte list option" where
  "new_bytes heap n = (if n < 2 ^ 31 then map_option (\<lambda>junk. map junk [0..<unat n]) (heap (unat n)) else None)"

section \<open>The operations\<close>

definition GetBurthenInfo :: "data_queue \<Rightarrow> tagBurthenInfo" where
  "GetBurthenInfo q = \<lparr>bi_dwDataSize = m_dwDataSize q, bi_dwBufferSize = m_dwBufferSize q,
     bi_dwDataPacketCount = m_dwDataPacketCount q\<rparr>"

definition GetDataPacketCount :: "data_queue \<Rightarrow> uint32" where
  "GetDataPacketCount q = m_dwDataPacketCount q"

text \<open>The checks of \<open>RectifyBuffer\<close>: \<^const>\<open>False\<close> stands for \<open>throw 0\<close>; the insert position may already
  have moved to the start of the block.\<close>

definition rectify_check :: "uint32 \<Rightarrow> data_queue \<Rightarrow> bool \<times> data_queue" where
  "rectify_check n q =
     (let last = (\<lambda>q. (\<not> (m_dwInsertPos q < m_dwTerminalPos q \<and> m_dwInsertPos q + n > m_dwDataQueryPos q), q)) in
      if m_dwDataSize q + n > m_dwBufferSize q then (False, q)
      else if m_dwInsertPos q = m_dwTerminalPos q \<and> m_dwInsertPos q + n > m_dwBufferSize q then
        if m_dwDataQueryPos q \<ge> n then last (q\<lparr>m_dwInsertPos := 0\<rparr>) else (False, q)
      else last q)"

text \<open>The copy of the old block into the new one.\<close>

definition rectify_copy :: "data_queue \<Rightarrow> byte list \<Rightarrow> byte list option" where
  "rectify_copy q new = (case m_pDataQueueBuffer q of
     None \<Rightarrow> Some new
   | Some old \<Rightarrow> do {
       let one = m_dwTerminalPos q - m_dwDataQueryPos q;
       new \<leftarrow> (if one > 0 then do {
           xs \<leftarrow> mem_read (unat (m_dwDataQueryPos q)) (unat one) old;
           mem_write 0 xs new
         } else Some new);
       if m_dwDataSize q > one then do {
         xs \<leftarrow> mem_read 0 (unat (m_dwInsertPos q)) old;
         mem_write (unat one) xs new
       } else Some new
     })"

definition rectify_grow :: "heap \<Rightarrow> uint32 \<Rightarrow> data_queue \<Rightarrow> (bool \<times> data_queue) option" where
  "rectify_grow heap n q =
     (let size = m_dwBufferSize q + max (m_dwBufferSize q div 2) (n * 10) in
      case new_bytes heap size of
        None \<Rightarrow> Some (False, q)
      | Some new \<Rightarrow> do {
          new \<leftarrow> rectify_copy q new;
          Some (True, q\<lparr>m_dwDataQueryPos := 0, m_dwInsertPos := m_dwDataSize q, m_dwTerminalPos := m_dwDataSize q,
            m_dwBufferSize := size, m_pDataQueueBuffer := Some new\<rparr>)
        })"

definition RectifyBuffer :: "heap \<Rightarrow> uint32 \<Rightarrow> data_queue \<Rightarrow> (bool \<times> data_queue) option" where
  "RectifyBuffer heap n q = (case rectify_check n q of
     (True, q) \<Rightarrow> Some (True, q)
   | (False, q) \<Rightarrow> rectify_grow heap n q)"

text \<open>The bookkeeping after a packet of \<open>n\<close> bytes of data has been copied.\<close>

definition insert_adjust :: "uint16 \<Rightarrow> byte list \<Rightarrow> data_queue \<Rightarrow> data_queue" where
  "insert_adjust n b q =
     (let size = sizeof_DataHead + ucast n; pos = m_dwInsertPos q + size in
      q\<lparr>m_dwDataPacketCount := m_dwDataPacketCount q + 1, m_dwDataSize := m_dwDataSize q + size,
        m_dwInsertPos := pos, m_dwTerminalPos := max (m_dwTerminalPos q) pos, m_pDataQueueBuffer := Some b\<rparr>)"

definition InsertData :: "heap \<Rightarrow> uint16 \<Rightarrow> byte list \<Rightarrow> uint16 \<Rightarrow> data_queue \<Rightarrow> (bool \<times> data_queue) option" where
  "InsertData heap wIdent pBuffer n q = do {
     let head = \<lparr>wDataSize = n, wIdentifier = wIdent\<rparr>;
     (ok, q) \<leftarrow> RectifyBuffer heap (sizeof_DataHead + ucast n) q;
     if \<not> ok then Some (False, q)
     else do {
       b \<leftarrow> m_pDataQueueBuffer q;
       b \<leftarrow> mem_write (unat (m_dwInsertPos q)) (head_bytes head) b;
       b \<leftarrow> (if n > 0 then do {
           xs \<leftarrow> mem_read 0 (unat n) pBuffer;
           mem_write (unat (m_dwInsertPos q + sizeof_DataHead)) xs b
         } else Some b);
       Some (True, insert_adjust n b q)
     }
   }"

text \<open>The overload that gathers a packet from several buffers. The total is a \<open>WORD\<close> and so is the offset.\<close>

definition gather_size :: "tagDataBuffer list \<Rightarrow> uint16" where
  "gather_size bufs = foldl (\<lambda>n d. if db_wDataSize d > 0 then n + db_wDataSize d else n) 0 bufs"

fun gather_copy :: "uint32 \<Rightarrow> uint16 \<Rightarrow> tagDataBuffer list \<Rightarrow> byte list \<Rightarrow> byte list option" where
  "gather_copy pos off [] b = Some b"
| "gather_copy pos off (d # bufs) b =
     (if db_wDataSize d > 0 then do {
        xs \<leftarrow> mem_read 0 (unat (db_wDataSize d)) (pDataBuffer d);
        b \<leftarrow> mem_write (unat (pos + ucast off)) xs b;
        gather_copy pos (off + db_wDataSize d) bufs b
      } else gather_copy pos off bufs b)"

definition InsertDataBuffers :: "heap \<Rightarrow> uint16 \<Rightarrow> tagDataBuffer list \<Rightarrow> data_queue \<Rightarrow> (bool \<times> data_queue) option" where
  "InsertDataBuffers heap wIdent bufs q = do {
     let n = gather_size bufs;
     let head = \<lparr>wDataSize = n, wIdentifier = wIdent\<rparr>;
     (ok, q) \<leftarrow> RectifyBuffer heap (sizeof_DataHead + ucast n) q;
     if \<not> ok then Some (False, q)
     else do {
       b \<leftarrow> m_pDataQueueBuffer q;
       b \<leftarrow> mem_write (unat (m_dwInsertPos q)) (head_bytes head) b;
       b \<leftarrow> (if n > 0 then gather_copy (m_dwInsertPos q) sizeof_DataHead bufs b else Some b);
       Some (True, insert_adjust n b q)
     }
   }"

text \<open>\<open>DistillData\<close> returns the head and the data it copied, or \<^const>\<open>None\<close> inside for the result \<open>false\<close>. A
  packet that does not fit the caller's buffer is dropped, with the size in its head set to zero.\<close>

definition DistillData :: "uint16 \<Rightarrow> data_queue \<Rightarrow> ((tagDataHead \<times> byte list) option \<times> data_queue) option" where
  "DistillData wBufferSize q =
     (if m_dwDataSize q = 0 \<or> m_dwDataPacketCount q = 0 then Some (None, q)
      else do {
        let q = (if m_dwDataQueryPos q = m_dwTerminalPos q
                 then q\<lparr>m_dwDataQueryPos := 0, m_dwTerminalPos := m_dwInsertPos q\<rparr> else q);
        b \<leftarrow> m_pDataQueueBuffer q;
        hb \<leftarrow> mem_read (unat (m_dwDataQueryPos q)) 4 b;
        let head = head_of hb;
        let wPacketSize = sizeof_DataHead + wDataSize head;
        (head, xs) \<leftarrow>
          (if wDataSize head > 0 then
             if wBufferSize < wDataSize head then Some (head\<lparr>wDataSize := 0\<rparr>, [])
             else map_option (Pair head) (mem_read (unat (m_dwDataQueryPos q + sizeof_DataHead)) (unat (wDataSize head)) b)
           else Some (head, []));
        Some (Some (head, xs), q\<lparr>m_dwDataPacketCount := m_dwDataPacketCount q - 1,
          m_dwDataSize := m_dwDataSize q - ucast wPacketSize, m_dwDataQueryPos := m_dwDataQueryPos q + ucast wPacketSize\<rparr>)
      })"

definition RemoveData :: "bool \<Rightarrow> data_queue \<Rightarrow> data_queue" where
  "RemoveData bFreeMemory q =
     (let q = q\<lparr>m_dwDataSize := 0, m_dwInsertPos := 0, m_dwTerminalPos := 0, m_dwDataQueryPos := 0, m_dwDataPacketCount := 0\<rparr> in
      if bFreeMemory then q\<lparr>m_dwBufferSize := 0, m_pDataQueueBuffer := None\<rparr> else q)"

section \<open>Packets in memory\<close>

type_synonym packet = "uint16 \<times> byte list"

definition packet_ok :: "packet \<Rightarrow> bool" where
  "packet_ok p = (length (snd p) \<le> 65531)"

definition packet_head :: "packet \<Rightarrow> tagDataHead" where
  "packet_head p = \<lparr>wDataSize = of_nat (length (snd p)), wIdentifier = fst p\<rparr>"

definition enc :: "packet \<Rightarrow> byte list" where
  "enc p = head_bytes (packet_head p) @ snd p"

definition encs :: "packet list \<Rightarrow> byte list" where
  "encs ps = concat (map enc ps)"

lemma encs_simps [simp]: "encs [] = []" "encs (p # ps) = enc p @ encs ps" "encs (ps @ ps') = encs ps @ encs ps'"
  by (simp_all add: encs_def)

lemma length_head_bytes [simp]: "length (head_bytes h) = 4"
  by (simp add: head_bytes_def)

lemma length_enc [simp]: "length (enc p) = 4 + length (snd p)"
  by (simp add: enc_def)

lemma length_encs: "4 * length ps \<le> length (encs ps)"
  by (induction ps) simp_all

lemma enc_not_Nil [simp]: "enc p \<noteq> []"
  by (metis add_is_0 length_enc list.size(3) zero_neq_numeral)

lemma encs_Nil_iff [simp]: "encs ps = [] \<longleftrightarrow> ps = []" "[] = encs ps \<longleftrightarrow> ps = []"
  by (cases ps; simp)+

lemma head_of_bytes [simp]: "head_of (head_bytes h) = h"
proof -
  have "uint (w :: uint16) mod 256 ^ 2 = uint w" for w
    using uint_lt2p [of w] by (simp add: uint_ge_0)
  then show ?thesis by (simp add: head_of_def head_bytes_def le_uint_le_bytes)
qed

lemma mem_write_append:
  "Option.bind (mem_write i xs b) (mem_write (i + length xs) ys) = mem_write i (xs @ ys) b"
  by (cases "i + length xs \<le> length b") (auto simp: mem_write_def min_absorb2 ac_simps)

lemma mem_write_bind_append:
  "Option.bind (mem_write i xs b) (\<lambda>b. Option.bind (mem_write (i + length xs) ys b) f) = Option.bind (mem_write i (xs @ ys) b) f"
  by (simp flip: mem_write_append add: bind_assoc)

section \<open>The layout of the packets in the block\<close>

text \<open>
  Either the packets lie between the query and the insert position, or the insert position has gone
  back to the start of the block: the older packets lie between the query and the terminal position
  and the younger ones below the insert position.
\<close>

definition layout :: "nat \<Rightarrow> nat \<Rightarrow> nat \<Rightarrow> byte list \<Rightarrow> packet list \<Rightarrow> bool" where
  "layout i t q b ps \<longleftrightarrow> q \<le> t \<and> t \<le> length b \<and>
     (i = t \<and> take (t - q) (drop q b) = encs ps \<or>
      i \<le> q \<and> (\<exists>ps1 ps2. ps = ps1 @ ps2 \<and> take (t - q) (drop q b) = encs ps1 \<and> take i b = encs ps2))"

lemma layout_length: "layout i t q b ps \<Longrightarrow> length (encs ps) \<le> length b \<and> i \<le> t"
proof -
  assume l: "layout i t q b ps"
  have len: "take n (drop k b) = encs xs \<Longrightarrow> k + n \<le> length b \<Longrightarrow> length (encs xs) = n" for n k xs
    by (metis add.commute add_le_imp_le_diff length_drop length_take min_absorb2)
  from l show ?thesis unfolding layout_def
    using len [of "t - q" q ps] len [of "t - q" q] len [of i 0] by auto
qed

lemma layout_append:
  assumes "layout t t q b ps" "t + length (enc p) \<le> length b" "t = q \<Longrightarrow> ps = []"
  shows "layout (t + length (enc p)) (t + length (enc p)) q (take t b @ enc p @ drop (t + length (enc p)) b) (ps @ [p])"
proof -
  have q: "q \<le> t" "t \<le> length b" and "take (t - q) (drop q b) = encs ps"
    using assms(1,3) unfolding layout_def by (auto split: if_splits)
  then have "length (encs ps) = t - q" by (metis length_drop length_take min_absorb2 diff_le_mono)
  then show ?thesis using assms(2) q \<open>take (t - q) (drop q b) = encs ps\<close>
    by (simp add: layout_def drop_take del: length_enc)
qed

lemma layout_restart:
  assumes "layout t t q b ps" "length (enc p) \<le> q" "t = q \<Longrightarrow> ps = []"
  shows "layout (length (enc p)) t q (enc p @ drop (length (enc p)) b) (ps @ [p])"
proof -
  have q: "q \<le> t" "t \<le> length b" and "take (t - q) (drop q b) = encs ps"
    using assms(1,3) unfolding layout_def by auto
  then show ?thesis using assms(2) unfolding layout_def by (auto simp: exI [of _ ps])
qed

lemma layout_wrapped_append:
  assumes "layout i t q b ps" "i < t" "i + length (enc p) \<le> q"
  shows "layout (i + length (enc p)) t q (take i b @ enc p @ drop (i + length (enc p)) b) (ps @ [p])"
proof -
  from assms(1,2) obtain ps1 ps2 where ps: "ps = ps1 @ ps2" "take (t - q) (drop q b) = encs ps1" "take i b = encs ps2"
    and q: "i \<le> q" "q \<le> t" "t \<le> length b" unfolding layout_def by auto
  have i: "length (take i b) = i" using q by simp
  have "drop q (take i b @ enc p @ drop (i + length (enc p)) b) = drop q b"
    using assms(3) i by (simp add: drop_append del: length_enc)
  moreover have "take (i + length (enc p)) (take i b @ enc p @ drop (i + length (enc p)) b) = encs (ps2 @ [p])"
    using i by (simp add: ps(3) del: length_enc)
  ultimately have "\<exists>qs1 qs2. ps @ [p] = qs1 @ qs2 \<and> take (t - q) (drop q (take i b @ enc p @ drop (i + length (enc p)) b)) = encs qs1
      \<and> take (i + length (enc p)) (take i b @ enc p @ drop (i + length (enc p)) b) = encs qs2"
    using ps(1,2) by (intro exI [of _ ps1] exI [of _ "ps2 @ [p]"]) simp
  then show ?thesis unfolding layout_def using q assms(3) i by (simp del: length_enc)
qed

lemma layout_rotate:
  assumes "layout i t t b ps" "ps \<noteq> []"
  shows "layout i i 0 b ps"
proof -
  from assms obtain ps1 ps2 where "ps = ps1 @ ps2" "encs ps1 = []" "take i b = encs ps2" "i \<le> t" "t \<le> length b"
    unfolding layout_def by auto
  then show ?thesis by (simp add: layout_def)
qed

lemma layout_first:
  assumes "layout i t q b (p # ps)" "q \<noteq> t"
  shows "q + length (enc p) \<le> t \<and> take (length (enc p)) (drop q b) = enc p \<and> layout i t (q + length (enc p)) b ps"
proof -
  have qt: "q < t" "t \<le> length b" using assms unfolding layout_def by auto
  have first: "q + length (enc p) \<le> t \<and> take (length (enc p)) (drop q b) = enc p \<and> take (t - (q + length (enc p))) (drop (q + length (enc p)) b) = encs xs"
    if x: "take (t - q) (drop q b) = enc p @ encs xs" for xs
  proof -
    have "length (take (t - q) (drop q b)) = t - q" using qt by simp
    then have l: "length (enc p) \<le> t - q" using x by (metis length_append le_add1)
    moreover have "take (length (enc p)) (take (t - q) (drop q b)) = enc p" using x by simp
    moreover have "drop (length (enc p)) (take (t - q) (drop q b)) = encs xs" using x by simp
    ultimately show ?thesis using qt by (simp add: drop_take min_def add.commute diff_diff_eq)
  qed
  consider (lin) "i = t" "take (t - q) (drop q b) = enc p @ encs ps"
    | (wrap) ps1 ps2 where "i \<le> q" "p # ps = ps1 @ ps2" "take (t - q) (drop q b) = encs ps1" "take i b = encs ps2"
    using assms(1) unfolding layout_def by auto
  then show ?thesis
  proof cases
    case lin
    then show ?thesis using first [of ps] qt by (simp add: layout_def)
  next
    case wrap
    have "encs ps1 \<noteq> []" using wrap(3) qt by (metis diff_is_0_eq drop_eq_Nil le_trans less_le_not_le not_le take_eq_Nil)
    then obtain xs where xs: "ps1 = p # xs" "ps = xs @ ps2" using wrap(2) by (cases ps1) auto
    then show ?thesis using first [of xs] wrap qt unfolding layout_def by (auto intro: exI [of _ xs])
  qed
qed

section \<open>What the queue holds\<close>

definition queue_block :: "data_queue \<Rightarrow> byte list" where
  "queue_block q = (case m_pDataQueueBuffer q of None \<Rightarrow> [] | Some b \<Rightarrow> b)"

definition queue_rep :: "data_queue \<Rightarrow> packet list \<Rightarrow> bool" where
  "queue_rep q ps \<longleftrightarrow> list_all packet_ok ps \<and> length (queue_block q) = unat (m_dwBufferSize q) \<and>
     unat (m_dwBufferSize q) < 2 ^ 31 \<and> unat (m_dwDataPacketCount q) = length ps \<and>
     unat (m_dwDataSize q) = length (encs ps) \<and>
     layout (unat (m_dwInsertPos q)) (unat (m_dwTerminalPos q)) (unat (m_dwDataQueryPos q)) (queue_block q) ps"

text \<open>The state in which the three positions coincide although the queue holds data.\<close>

definition queue_ambiguous :: "data_queue \<Rightarrow> bool" where
  "queue_ambiguous q \<longleftrightarrow> m_dwDataSize q \<noteq> 0 \<and> m_dwInsertPos q = m_dwTerminalPos q \<and> m_dwDataQueryPos q = m_dwTerminalPos q"

lemma unat_add32: "unat a + unat b < 2 ^ 32 \<Longrightarrow> unat (a + b) = unat a + unat (b :: uint32)"
  by (simp add: unat_word_ariths)

lemma unat_less_iff: "a < b \<longleftrightarrow> unat a < unat (b :: 'a::len word)"
  by (rule word_less_nat_alt)

lemma unat16_less: "unat (n :: uint16) < 65536"
  using unsigned_less [of n] by simp

lemma unat_packet: "unat (sizeof_DataHead + ucast (n :: uint16) :: uint32) = 4 + unat n"
proof -
  have "unat (ucast n :: uint32) = unat n" using unat16_less [of n] by (simp add: unsigned_ucast_eq take_bit_nat_eq_self)
  then show ?thesis using unat16_less [of n] by (subst unat_add32) simp_all
qed

lemma queue_rep_bounds:
  assumes "queue_rep q ps"
  shows "unat (m_dwInsertPos q) \<le> unat (m_dwTerminalPos q)" "unat (m_dwTerminalPos q) \<le> unat (m_dwBufferSize q)"
    "unat (m_dwDataQueryPos q) \<le> unat (m_dwTerminalPos q)" "unat (m_dwDataSize q) \<le> unat (m_dwBufferSize q)"
    "unat (m_dwBufferSize q) < 2 ^ 31"
proof -
  have l: "layout (unat (m_dwInsertPos q)) (unat (m_dwTerminalPos q)) (unat (m_dwDataQueryPos q)) (queue_block q) ps"
    and b: "length (queue_block q) = unat (m_dwBufferSize q)" "unat (m_dwDataSize q) = length (encs ps)" "unat (m_dwBufferSize q) < 2 ^ 31"
    using assms by (simp_all add: queue_rep_def)
  from layout_length [OF l] show "unat (m_dwInsertPos q) \<le> unat (m_dwTerminalPos q)" "unat (m_dwDataSize q) \<le> unat (m_dwBufferSize q)"
    using b by simp_all
  show "unat (m_dwTerminalPos q) \<le> unat (m_dwBufferSize q)" "unat (m_dwDataQueryPos q) \<le> unat (m_dwTerminalPos q)" "unat (m_dwBufferSize q) < 2 ^ 31"
    using l b by (simp_all add: layout_def)
qed

lemma queue_rep_empty: "queue_rep CYSDataQueue []"
  by (simp add: queue_rep_def CYSDataQueue_def queue_block_def layout_def)

lemma queue_rep_RemoveData: "queue_rep q ps \<Longrightarrow> queue_rep (RemoveData f q) []"
  by (auto simp: queue_rep_def RemoveData_def queue_block_def layout_def Let_def)

subsection \<open>Growing the block\<close>

lemma rectify_copy_correct:
  assumes r: "queue_rep q ps" and new: "length (encs ps) \<le> length new"
  shows "\<exists>rest. rectify_copy q new = Some (encs ps @ rest) \<and> length (encs ps @ rest) = length new"
proof (cases "m_pDataQueueBuffer q")
  case None
  then have "ps = []" using r queue_rep_bounds(4) [OF r] by (simp add: queue_rep_def queue_block_def)
  then show ?thesis using None by (simp add: rectify_copy_def)
next
  case (Some b)
  let ?t = "unat (m_dwTerminalPos q)" and ?q = "unat (m_dwDataQueryPos q)" and ?i = "unat (m_dwInsertPos q)"
  note bnd = queue_rep_bounds [OF r]
  have one: "unat (m_dwTerminalPos q - m_dwDataQueryPos q) = ?t - ?q" using bnd(3) by (simp add: unat_sub word_le_nat_alt)
  have len: "length b = unat (m_dwBufferSize q)" and ds: "unat (m_dwDataSize q) = length (encs ps)"
    and l: "layout ?i ?t ?q b ps" using r Some by (simp_all add: queue_rep_def queue_block_def)
  obtain xs ys where xs: "encs ps = xs @ ys" "xs = take (?t - ?q) (drop ?q b)" "ys = [] \<or> ys = take ?i b"
    using l unfolding layout_def by fastforce
  have lx: "length xs = ?t - ?q" using xs(2) bnd len by simp
  have first: "(if m_dwTerminalPos q - m_dwDataQueryPos q > 0 then do {
      xs \<leftarrow> mem_read ?q (unat (m_dwTerminalPos q - m_dwDataQueryPos q)) b; mem_write 0 xs new } else Some new) = Some (xs @ drop (length xs) new)"
  proof (cases "xs = []")
    case False
    then show ?thesis using one lx xs bnd len new by (simp add: unat_less_iff mem_read_def mem_write_def)
  qed (use one lx in \<open>simp add: unat_less_iff\<close>)
  show ?thesis
  proof (cases "ys = []")
    case True
    then show ?thesis using first Some ds xs(1) one lx new by (intro exI [of _ "drop (length xs) new"])
        (simp add: rectify_copy_def unat_less_iff Let_def)
  next
    case False
    have "mem_read 0 ?i b = Some ys" using False xs(3) bnd len by (simp add: mem_read_def)
    moreover have "m_dwDataSize q > m_dwTerminalPos q - m_dwDataQueryPos q" using False xs(1) ds one lx by (simp add: unat_less_iff)
    ultimately show ?thesis using first Some xs(1) one lx new
      by (intro exI [of _ "drop (length (encs ps)) new"]) (simp add: rectify_copy_def Let_def mem_write_def add.commute)
  qed
qed

lemma new_bytes_Some: "new_bytes heap n = Some new \<Longrightarrow> length new = unat n \<and> unat n < 2 ^ 31"
  by (auto simp: new_bytes_def unat_less_iff split: if_splits)

lemma rectify_grow_correct:
  assumes r: "queue_rep q ps" and n: "unat n \<le> 65539"
  shows "rectify_grow heap n q = Some (False, q) \<or>
    (\<exists>q'. rectify_grow heap n q = Some (True, q') \<and> queue_rep q' ps \<and>
       m_dwInsertPos q' = m_dwTerminalPos q' \<and> \<not> queue_ambiguous q' \<and> unat (m_dwInsertPos q') + unat n \<le> unat (m_dwBufferSize q'))"
proof -
  define size where "size = m_dwBufferSize q + max (m_dwBufferSize q div 2) (n * 10)"
  note bnd = queue_rep_bounds [OF r]
  have "unat (n * 10) = 10 * unat n" using n by (simp add: unat_word_ariths)
  then have m: "unat (max (m_dwBufferSize q div 2) (n * 10)) = max (unat (m_dwBufferSize q) div 2) (10 * unat n)"
    by (auto simp: max_def word_le_nat_alt unat_div)
  then have size: "unat size = unat (m_dwBufferSize q) + max (unat (m_dwBufferSize q) div 2) (10 * unat n)"
    unfolding size_def using bnd(5) n by (subst unat_add32) auto
  show ?thesis
  proof (cases "new_bytes heap size")
    case None
    then show ?thesis by (simp add: rectify_grow_def size_def)
  next
    case (Some new)
    have ds: "unat (m_dwDataSize q) = length (encs ps)" using r by (simp add: queue_rep_def)
    have len: "length new = unat size" "unat size < 2 ^ 31" using new_bytes_Some [OF Some] by simp_all
    then obtain rest where rest: "rectify_copy q new = Some (encs ps @ rest)" "length (encs ps @ rest) = length new"
      using rectify_copy_correct [OF r, of new] bnd(4) ds size by force
    let ?q = "q\<lparr>m_dwDataQueryPos := 0, m_dwInsertPos := m_dwDataSize q, m_dwTerminalPos := m_dwDataSize q,
            m_dwBufferSize := size, m_pDataQueueBuffer := Some (encs ps @ rest)\<rparr>"
    have "rectify_grow heap n q = Some (True, ?q)" using Some rest by (simp add: rectify_grow_def Let_def flip: size_def)
    moreover have "queue_rep ?q ps" using r rest len ds by (simp add: queue_rep_def queue_block_def layout_def)
    moreover have "unat (m_dwDataSize q) + unat n \<le> unat size" using bnd(4) size by auto
    moreover have "\<not> queue_ambiguous ?q" by (simp add: queue_ambiguous_def)
    ultimately show ?thesis by auto
  qed
qed

subsection \<open>Making room\<close>

text \<open>Where the next packet goes: behind the last one, or at the start of the block.\<close>

definition room :: "data_queue \<Rightarrow> packet list \<Rightarrow> nat \<Rightarrow> bool" where
  "room q ps n \<longleftrightarrow> unat (m_dwInsertPos q) + n \<le> length (queue_block q) \<and>
    (\<forall>p. length (enc p) = n \<longrightarrow>
      layout (unat (m_dwInsertPos q) + n) (max (unat (m_dwTerminalPos q)) (unat (m_dwInsertPos q) + n)) (unat (m_dwDataQueryPos q))
        (take (unat (m_dwInsertPos q)) (queue_block q) @ enc p @ drop (unat (m_dwInsertPos q) + n) (queue_block q)) (ps @ [p]))"

lemma room_append:
  assumes "queue_rep q ps" "m_dwInsertPos q = m_dwTerminalPos q" "unat (m_dwInsertPos q) + n \<le> unat (m_dwBufferSize q)" "\<not> queue_ambiguous q"
  shows "room q ps n"
proof -
  have "m_dwTerminalPos q = m_dwDataQueryPos q \<Longrightarrow> ps = []"
    using assms(1,2,4) by (auto simp: queue_ambiguous_def queue_rep_def)
  then have "unat (m_dwTerminalPos q) = unat (m_dwDataQueryPos q) \<Longrightarrow> ps = []" by (simp add: word_unat_eq_iff)
  moreover have "layout (unat (m_dwTerminalPos q)) (unat (m_dwTerminalPos q)) (unat (m_dwDataQueryPos q)) (queue_block q) ps"
    using assms(1,2) by (simp add: queue_rep_def)
  ultimately show ?thesis using layout_append [of "unat (m_dwTerminalPos q)" "unat (m_dwDataQueryPos q)" "queue_block q" ps] assms(1,2,3)
    unfolding room_def queue_rep_def by (auto simp: max_def simp del: length_enc)
qed

lemma room_restart:
  assumes r: "queue_rep q ps" and it: "m_dwInsertPos q = m_dwTerminalPos q" and n: "n \<le> unat (m_dwDataQueryPos q)"
    and a: "\<not> queue_ambiguous q"
  shows "queue_rep (q\<lparr>m_dwInsertPos := 0\<rparr>) ps \<and> room (q\<lparr>m_dwInsertPos := 0\<rparr>) ps n"
proof -
  let ?t = "unat (m_dwTerminalPos q)" and ?q = "unat (m_dwDataQueryPos q)" and ?b = "queue_block q"
  have e: "?t = ?q \<Longrightarrow> ps = []" using r it a by (auto simp: queue_ambiguous_def queue_rep_def word_unat_eq_iff)
  have l: "layout ?t ?t ?q ?b ps" using r it by (simp add: queue_rep_def)
  have b: "queue_block (q\<lparr>m_dwInsertPos := 0\<rparr>) = ?b" by (simp add: queue_block_def)
  have "layout 0 ?t ?q ?b ps" using l e unfolding layout_def by auto
  then have "queue_rep (q\<lparr>m_dwInsertPos := 0\<rparr>) ps" using r b by (simp add: queue_rep_def)
  moreover have "n \<le> ?t" "n \<le> length ?b" using n queue_rep_bounds [OF r] r by (auto simp: queue_rep_def)
  ultimately show ?thesis using layout_restart [OF l _ e] n b by (auto simp: room_def max_absorb1 simp del: length_enc)
qed

lemma room_wrapped:
  assumes "queue_rep q ps" "unat (m_dwInsertPos q) < unat (m_dwTerminalPos q)" "unat (m_dwInsertPos q) + n \<le> unat (m_dwDataQueryPos q)"
  shows "room q ps n"
proof -
  have l: "layout (unat (m_dwInsertPos q)) (unat (m_dwTerminalPos q)) (unat (m_dwDataQueryPos q)) (queue_block q) ps"
    using assms(1) by (simp add: queue_rep_def)
  moreover have "max (unat (m_dwTerminalPos q)) (unat (m_dwInsertPos q) + n) = unat (m_dwTerminalPos q)"
    "unat (m_dwInsertPos q) + n \<le> length (queue_block q)"
    using assms(3) queue_rep_bounds [OF assms(1)] assms(1) by (auto simp: queue_rep_def)
  ultimately show ?thesis using layout_wrapped_append [OF l assms(2)] assms(3) unfolding room_def by (auto simp del: length_enc)
qed

lemma RectifyBuffer_room:
  assumes r: "queue_rep q ps" and a: "\<not> queue_ambiguous q" and n: "unat n \<le> 65539"
  shows "RectifyBuffer heap n q = Some (False, q) \<or>
    (\<exists>q'. RectifyBuffer heap n q = Some (True, q') \<and> queue_rep q' ps \<and> room q' ps (unat n))"
proof -
  note bnd = queue_rep_bounds [OF r]
  have ds: "unat (m_dwDataSize q + n) = unat (m_dwDataSize q) + unat n" using bnd n by (intro unat_add32) simp
  have ins: "unat (m_dwInsertPos q + n) = unat (m_dwInsertPos q) + unat n" using bnd n by (intro unat_add32) simp
  have grow: ?thesis if "rectify_check n q = (False, q)"
  proof -
    have RB: "RectifyBuffer heap n q = rectify_grow heap n q" using that by (simp add: RectifyBuffer_def)
    then show ?thesis using rectify_grow_correct [OF r n, of heap] room_append by auto
  qed
  consider (full) "m_dwDataSize q + n > m_dwBufferSize q"
    | (stuck) "m_dwInsertPos q = m_dwTerminalPos q" "m_dwInsertPos q + n > m_dwBufferSize q" "m_dwDataQueryPos q < n"
    | (restart) "\<not> m_dwDataSize q + n > m_dwBufferSize q" "m_dwInsertPos q = m_dwTerminalPos q" "m_dwInsertPos q + n > m_dwBufferSize q" "n \<le> m_dwDataQueryPos q"
    | (app) "\<not> m_dwDataSize q + n > m_dwBufferSize q" "m_dwInsertPos q = m_dwTerminalPos q" "\<not> m_dwInsertPos q + n > m_dwBufferSize q"
    | (collide) "m_dwInsertPos q \<noteq> m_dwTerminalPos q" "m_dwInsertPos q + n > m_dwDataQueryPos q"
    | (wrap) "\<not> m_dwDataSize q + n > m_dwBufferSize q" "m_dwInsertPos q \<noteq> m_dwTerminalPos q" "\<not> m_dwInsertPos q + n > m_dwDataQueryPos q"
    by force
  then show ?thesis
  proof cases
    case full
    then show ?thesis by (intro grow) (simp add: rectify_check_def)
  next
    case stuck
    then show ?thesis by (intro grow) (auto simp: rectify_check_def Let_def)
  next
    case restart
    then have "RectifyBuffer heap n q = Some (True, q\<lparr>m_dwInsertPos := 0\<rparr>)"
      by (auto simp: RectifyBuffer_def rectify_check_def Let_def not_less dest: leD)
    then show ?thesis using room_restart [OF r restart(2) _ a] restart(4) by (auto simp: word_le_nat_alt)
  next
    case app
    then have "RectifyBuffer heap n q = Some (True, q)" by (simp add: RectifyBuffer_def rectify_check_def Let_def)
    then show ?thesis using room_append [OF r app(2) _ a] app(3) ins r by (simp add: unat_less_iff)
  next
    case collide
    then have "m_dwInsertPos q < m_dwTerminalPos q" using bnd(1) by (metis order_le_less word_le_nat_alt)
    then show ?thesis using collide by (intro grow) (simp add: rectify_check_def)
  next
    case wrap
    then have "m_dwInsertPos q < m_dwTerminalPos q" using bnd(1) by (metis order_le_less word_le_nat_alt)
    then show ?thesis using wrap room_wrapped [OF r, of "unat n"] ins r
      by (simp add: RectifyBuffer_def rectify_check_def Let_def unat_less_iff)
  qed
qed

subsection \<open>Inserting and distilling a packet\<close>

lemma packet_size: "packet_ok p \<Longrightarrow> unat (of_nat (length (snd p)) :: uint16) = length (snd p)"
  by (simp add: packet_ok_def unat_of_nat)

lemma insert_adjust_rep:
  assumes r: "queue_rep q ps" and room: "room q ps (length (enc p))" and p: "packet_ok p"
    and b: "b = take (unat (m_dwInsertPos q)) (queue_block q) @ enc p @ drop (unat (m_dwInsertPos q) + length (enc p)) (queue_block q)"
  shows "queue_rep (insert_adjust (of_nat (length (snd p))) b q) (ps @ [p])"
proof -
  let ?n = "sizeof_DataHead + ucast (of_nat (length (snd p)) :: uint16) :: uint32"
  have n: "unat ?n = length (enc p)" using unat_packet packet_size [OF p] by simp
  note bnd = queue_rep_bounds [OF r]
  have i: "unat (m_dwInsertPos q + ?n) = unat (m_dwInsertPos q) + length (enc p)"
    and d: "unat (m_dwDataSize q + ?n) = unat (m_dwDataSize q) + length (enc p)"
    using bnd n p by (simp_all add: unat_add32 packet_ok_def)
  have t: "unat (max (m_dwTerminalPos q) (m_dwInsertPos q + ?n)) = max (unat (m_dwTerminalPos q)) (unat (m_dwInsertPos q) + length (enc p))"
    using i by (simp add: max_def word_le_nat_alt)
  have "length ps < 2 ^ 31" using bnd(4,5) r length_encs [of ps] by (simp add: queue_rep_def)
  then have c: "unat (m_dwDataPacketCount q + 1) = length (ps @ [p])" using r by (simp add: queue_rep_def unat_add32)
  have len: "length b = length (queue_block q)" using room b by (simp add: room_def)
  have "layout (unat (m_dwInsertPos q) + length (enc p)) (max (unat (m_dwTerminalPos q)) (unat (m_dwInsertPos q) + length (enc p)))
      (unat (m_dwDataQueryPos q)) b (ps @ [p])"
    using room unfolding b room_def by blast
  then show ?thesis using r p i d t c len
    by (simp add: queue_rep_def insert_adjust_def Let_def queue_block_def [of "_ \<lparr>m_pDataQueueBuffer := _\<rparr>"] del: length_enc)
qed

lemma InsertData_enqueues:
  assumes r: "queue_rep q ps" and a: "\<not> queue_ambiguous q" and p: "packet_ok p"
  shows "InsertData heap (fst p) (snd p) (of_nat (length (snd p))) q = Some (False, q) \<or>
    (\<exists>q'. InsertData heap (fst p) (snd p) (of_nat (length (snd p))) q = Some (True, q') \<and> queue_rep q' (ps @ [p]))"
proof -
  let ?n = "of_nat (length (snd p)) :: uint16"
  have n: "unat (sizeof_DataHead + ucast ?n :: uint32) = length (enc p)" "unat ?n = length (snd p)"
    using unat_packet packet_size [OF p] by simp_all
  consider "RectifyBuffer heap (sizeof_DataHead + ucast ?n) q = Some (False, q)"
    | q' where "RectifyBuffer heap (sizeof_DataHead + ucast ?n) q = Some (True, q')" "queue_rep q' ps" "room q' ps (length (enc p))"
    using RectifyBuffer_room [OF r a, of "sizeof_DataHead + ucast ?n" heap] n p by (auto simp: packet_ok_def)
  then show ?thesis
  proof cases
    case 1
    then show ?thesis by (simp add: InsertData_def)
  next
    case (2 q')
    have i: "unat (m_dwInsertPos q') + length (enc p) \<le> length (queue_block q')" using 2(3) by (simp add: room_def)
    then have "m_pDataQueueBuffer q' = Some (queue_block q')" by (cases "m_pDataQueueBuffer q'") (simp_all add: queue_block_def)
    moreover have "unat (m_dwInsertPos q' + sizeof_DataHead) = unat (m_dwInsertPos q') + length (head_bytes (packet_head p))"
      using queue_rep_bounds [OF 2(2)] by (simp add: unat_add32)
    moreover have "?n > 0 \<longleftrightarrow> snd p \<noteq> []" using n(2) by (simp add: unat_less_iff)
    ultimately have "InsertData heap (fst p) (snd p) ?n q =
        Some (True, insert_adjust ?n (take (unat (m_dwInsertPos q')) (queue_block q') @ enc p @ drop (unat (m_dwInsertPos q') + length (enc p)) (queue_block q')) q')"
      using 2(1) i n(2) mem_write_append [of "unat (m_dwInsertPos q')" "head_bytes (packet_head p)" "queue_block q'" "snd p"]
      by (simp add: InsertData_def Let_def mem_read_def packet_head_def [symmetric] enc_def mem_write_def)
    then show ?thesis using insert_adjust_rep [OF 2(2,3) p refl] by blast
  qed
qed

text \<open>What the caller of \<open>DistillData\<close> gets of a packet.\<close>

definition delivered :: "uint16 \<Rightarrow> packet \<Rightarrow> tagDataHead \<times> byte list" where
  "delivered cap p = (if length (snd p) \<le> unat cap then (packet_head p, snd p) else ((packet_head p)\<lparr>wDataSize := 0\<rparr>, []))"

lemma queue_rep_rotate:
  assumes "queue_rep q ps" "ps \<noteq> []" "m_dwDataQueryPos q = m_dwTerminalPos q"
  shows "queue_rep (q\<lparr>m_dwDataQueryPos := 0, m_dwTerminalPos := m_dwInsertPos q\<rparr>) ps"
  using assms layout_rotate [of "unat (m_dwInsertPos q)" "unat (m_dwTerminalPos q)" "queue_block q" ps]
  by (simp add: queue_rep_def queue_block_def)

lemma distill_read:
  assumes r: "queue_rep q (p # ps)" and qt: "m_dwDataQueryPos q \<noteq> m_dwTerminalPos q"
  shows "m_pDataQueueBuffer q = Some (queue_block q)"
    "mem_read (unat (m_dwDataQueryPos q)) 4 (queue_block q) = Some (head_bytes (packet_head p))"
    "mem_read (unat (m_dwDataQueryPos q + sizeof_DataHead)) (length (snd p)) (queue_block q) = Some (snd p)"
proof -
  let ?q = "unat (m_dwDataQueryPos q)" and ?b = "queue_block q"
  have l: "?q + length (enc p) \<le> unat (m_dwTerminalPos q)" "take (length (enc p)) (drop ?q ?b) = enc p"
    using layout_first [of "unat (m_dwInsertPos q)" "unat (m_dwTerminalPos q)" ?q ?b p ps] r qt
    by (simp_all add: queue_rep_def word_unat_eq_iff del: length_enc)
  have b: "?q + length (enc p) \<le> length ?b" using l queue_rep_bounds [OF r] r by (simp add: queue_rep_def)
  then show "m_pDataQueueBuffer q = Some ?b" by (cases "m_pDataQueueBuffer q") (simp_all add: queue_block_def)
  have "take 4 (drop ?q ?b) = take 4 (take (length (enc p)) (drop ?q ?b))" by (simp add: min_def)
  also have "\<dots> = head_bytes (packet_head p)" unfolding l(2) by (simp add: enc_def)
  finally show "mem_read ?q 4 ?b = Some (head_bytes (packet_head p))" using b by (simp add: mem_read_def)
  have "take (length (snd p)) (drop (?q + 4) ?b) = drop 4 (take (length (enc p)) (drop ?q ?b))" by (simp add: drop_take add.commute)
  also have "\<dots> = snd p" unfolding l(2) by (simp add: enc_def)
  finally have "mem_read (?q + 4) (length (snd p)) ?b = Some (snd p)" using b by (simp add: mem_read_def)
  moreover have "unat (m_dwDataQueryPos q + sizeof_DataHead) = ?q + 4" using queue_rep_bounds [OF r] by (simp add: unat_add32)
  ultimately show "mem_read (unat (m_dwDataQueryPos q + sizeof_DataHead)) (length (snd p)) ?b = Some (snd p)" by simp
qed

lemma distill_adjust_rep:
  assumes r: "queue_rep q (p # ps)" and qt: "m_dwDataQueryPos q \<noteq> m_dwTerminalPos q"
  shows "queue_rep (q\<lparr>m_dwDataPacketCount := m_dwDataPacketCount q - 1,
      m_dwDataSize := m_dwDataSize q - ucast (sizeof_DataHead + wDataSize (packet_head p)),
      m_dwDataQueryPos := m_dwDataQueryPos q + ucast (sizeof_DataHead + wDataSize (packet_head p))\<rparr>) ps"
proof -
  let ?w = "sizeof_DataHead + wDataSize (packet_head p)"
  have p: "packet_ok p" using r by (simp add: queue_rep_def)
  have "unat ?w = length (enc p)" using p packet_size [OF p] by (simp add: packet_head_def unat_word_ariths packet_ok_def)
  then have w: "unat (ucast ?w :: uint32) = length (enc p)" using p
    by (simp add: unsigned_ucast_eq take_bit_nat_eq_self packet_ok_def)
  have l: "layout (unat (m_dwInsertPos q)) (unat (m_dwTerminalPos q)) (unat (m_dwDataQueryPos q) + length (enc p)) (queue_block q) ps"
    "unat (m_dwDataQueryPos q) + length (enc p) \<le> unat (m_dwTerminalPos q)"
    using layout_first [of "unat (m_dwInsertPos q)" "unat (m_dwTerminalPos q)" "unat (m_dwDataQueryPos q)" "queue_block q" p ps] r qt
    by (simp_all add: queue_rep_def word_unat_eq_iff del: length_enc)
  note bnd = queue_rep_bounds [OF r]
  have "unat (m_dwDataQueryPos q + ucast ?w) = unat (m_dwDataQueryPos q) + length (enc p)"
    using w l(2) bnd by (subst unat_add32) (simp_all del: length_enc)
  moreover have "unat (m_dwDataSize q - ucast ?w) = length (encs ps)"
    using w r by (subst unat_sub) (simp_all add: word_le_nat_alt queue_rep_def del: length_enc)
  moreover have "unat (m_dwDataPacketCount q - 1) = length ps"
    using r by (subst unat_sub) (simp_all add: word_le_nat_alt queue_rep_def)
  ultimately show ?thesis using r l(1) by (simp add: queue_rep_def queue_block_def)
qed

lemma DistillData_dequeues:
  assumes r: "queue_rep q (p # ps)"
  shows "\<exists>q'. DistillData cap q = Some (Some (delivered cap p), q') \<and> queue_rep q' ps"
proof -
  define q1 where "q1 = (if m_dwDataQueryPos q = m_dwTerminalPos q then q\<lparr>m_dwDataQueryPos := 0, m_dwTerminalPos := m_dwInsertPos q\<rparr> else q)"
  have r1: "queue_rep q1 (p # ps)" using r queue_rep_rotate [OF r] by (simp add: q1_def)
  have ne: "m_dwDataSize q \<noteq> 0" "m_dwDataPacketCount q \<noteq> 0" using r by (auto simp: queue_rep_def)
  have "unat (m_dwTerminalPos q1) = 0 \<Longrightarrow> unat (m_dwDataQueryPos q1) = 0 \<Longrightarrow> False"
    using r1 by (auto simp: queue_rep_def layout_def)
  then have qt: "m_dwDataQueryPos q1 \<noteq> m_dwTerminalPos q1" by (auto simp: q1_def split: if_splits)
  have p: "packet_ok p" using r by (simp add: queue_rep_def)
  note rd = distill_read [OF r1 qt]
  have "wDataSize (packet_head p) > 0 \<longleftrightarrow> snd p \<noteq> []" "cap < wDataSize (packet_head p) \<longleftrightarrow> \<not> length (snd p) \<le> unat cap"
    "unat (wDataSize (packet_head p)) = length (snd p)"
    using packet_size [OF p] by (simp_all add: packet_head_def unat_less_iff not_le)
  then show ?thesis using ne rd distill_adjust_rep [OF r1 qt]
    by (auto simp: DistillData_def q1_def [symmetric] Let_def delivered_def)
qed

lemma DistillData_empty: "queue_rep q [] \<Longrightarrow> DistillData cap q = Some (None, q)"
  by (simp add: queue_rep_def DistillData_def word_unat_eq_iff)

subsection \<open>Gathering a packet from several buffers\<close>

abbreviation gathered :: "tagDataBuffer list \<Rightarrow> byte list" where
  "gathered bufs \<equiv> concat (map pDataBuffer bufs)"

definition buffer_ok :: "tagDataBuffer \<Rightarrow> bool" where
  "buffer_ok d = (length (pDataBuffer d) = unat (db_wDataSize d))"

lemma gather_size_sum: "list_all buffer_ok bufs \<Longrightarrow> gather_size bufs = of_nat (length (gathered bufs))"
proof (induction bufs rule: rev_induct)
  case (snoc d bufs)
  have "length (pDataBuffer d) = unat (db_wDataSize d)" "gather_size bufs = of_nat (length (gathered bufs))"
    using snoc by (simp_all add: buffer_ok_def)
  moreover have "gather_size (bufs @ [d]) = (if db_wDataSize d > 0 then gather_size bufs + db_wDataSize d else gather_size bufs)"
    by (simp add: gather_size_def)
  ultimately show ?case by (cases "db_wDataSize d = 0") (simp_all add: word_gt_0)
qed (simp add: gather_size_def)

lemma gather_copy_writes:
  assumes "list_all buffer_ok bufs" "unat off + length (gathered bufs) < 2 ^ 16"
    "unat pos + unat off + length (gathered bufs) \<le> length b" "length b < 2 ^ 32"
  shows "gather_copy pos off bufs b = mem_write (unat pos + unat off) (gathered bufs) b"
  using assms
proof (induction bufs arbitrary: off b)
  case (Cons d bufs)
  let ?x = "pDataBuffer d"
  have d: "length ?x = unat (db_wDataSize d)" using Cons.prems(1) by (simp add: buffer_ok_def)
  show ?case
  proof (cases "db_wDataSize d > 0")
    case False
    then have "?x = []" using d by (simp add: word_gt_0)
    then show ?thesis using False Cons by simp
  next
    case True
    have off: "unat (ucast off :: uint32) = unat off" using unat16_less [of off] by (simp add: unsigned_ucast_eq take_bit_nat_eq_self)
    have p: "unat (pos + ucast off) = unat pos + unat off" using Cons.prems(3,4) off by (subst unat_add32) simp_all
    have o: "unat (off + db_wDataSize d) = unat off + length ?x" using Cons.prems(2) d by (simp add: unat_word_ariths)
    obtain b' where b': "mem_write (unat pos + unat off) ?x b = Some b'" "length b' = length b"
      using Cons.prems(3) by (simp add: mem_write_def)
    have "gather_copy pos off (d # bufs) b = gather_copy pos (off + db_wDataSize d) bufs b'"
      using True d p b' by (simp add: mem_read_def)
    also have "\<dots> = mem_write (unat pos + unat off + length ?x) (gathered bufs) b'"
      using Cons.IH [of "off + db_wDataSize d" b'] Cons.prems o b' by (simp add: add.assoc)
    finally show ?thesis using mem_write_append [of "unat pos + unat off" ?x b "gathered bufs"] b' by simp
  qed
qed (simp add: mem_write_def)

text \<open>Property C40: the overload of \<open>InsertData\<close> that gathers the packet from several buffers does the same as inserting
  the concatenation of the buffers, as long as it fits a packet.\<close>
theorem InsertDataBuffers_gathers:
  assumes r: "queue_rep q ps" and a: "\<not> queue_ambiguous q" and ok: "list_all buffer_ok bufs"
    and n: "length (gathered bufs) \<le> 65531"
  shows "InsertDataBuffers heap wIdent bufs q = InsertData heap wIdent (gathered bufs) (of_nat (length (gathered bufs))) q"
proof -
  let ?d = "gathered bufs" and ?n = "of_nat (length (gathered bufs)) :: uint16"
  have p: "unat ?n = length ?d" "unat (sizeof_DataHead + ucast ?n :: uint32) = 4 + length ?d" "?n > 0 \<longleftrightarrow> ?d \<noteq> []"
    using n packet_size [of "(wIdent, ?d)"] by (simp_all add: packet_ok_def unat_packet unat_less_iff)
  consider "RectifyBuffer heap (sizeof_DataHead + ucast ?n) q = Some (False, q)"
    | q' where "RectifyBuffer heap (sizeof_DataHead + ucast ?n) q = Some (True, q')" "queue_rep q' ps" "room q' ps (4 + length ?d)"
    using RectifyBuffer_room [OF r a, of "sizeof_DataHead + ucast ?n" heap] p n by auto
  then show ?thesis
  proof cases
    case 1
    then show ?thesis by (simp add: InsertData_def InsertDataBuffers_def gather_size_sum [OF ok])
  next
    case (2 q')
    let ?i = "unat (m_dwInsertPos q')" and ?h = "head_bytes \<lparr>wDataSize = ?n, wIdentifier = wIdent\<rparr>"
    have i: "?i + 4 + length ?d \<le> length (queue_block q')" using 2(3) by (simp add: room_def add.assoc)
    then have blk: "m_pDataQueueBuffer q' = Some (queue_block q')" by (cases "m_pDataQueueBuffer q'") (simp_all add: queue_block_def)
    obtain b where b: "mem_write ?i ?h (queue_block q') = Some b" "length b = length (queue_block q')"
      using i by (simp add: mem_write_def)
    have bnd: "length (queue_block q') < 2 ^ 31" using 2(2) by (simp add: queue_rep_def)
    then have "unat (m_dwInsertPos q' + sizeof_DataHead) = ?i + 4" using i by (subst unat_add32) simp_all
    moreover have "gather_copy (m_dwInsertPos q') sizeof_DataHead bufs b = mem_write (?i + 4) ?d b"
      using gather_copy_writes [OF ok, of sizeof_DataHead "m_dwInsertPos q'" b] n i b bnd by simp
    ultimately show ?thesis using 2(1) blk b p
      by (simp add: InsertData_def InsertDataBuffers_def gather_size_sum [OF ok] mem_read_def Let_def)
  qed
qed

theorem InsertDataBuffers_gathers_witness:
  "InsertDataBuffers (\<lambda>n. Some (\<lambda>_. 0)) 3 [\<lparr>db_wDataSize = 2, pDataBuffer = [1, 2]\<rparr>, \<lparr>db_wDataSize = 1, pDataBuffer = [9]\<rparr>] CYSDataQueue =
   InsertData (\<lambda>n. Some (\<lambda>_. 0)) 3 (gathered [\<lparr>db_wDataSize = 2, pDataBuffer = [1, 2]\<rparr>, \<lparr>db_wDataSize = 1, pDataBuffer = [9]\<rparr>])
     (of_nat (length (gathered [\<lparr>db_wDataSize = 2, pDataBuffer = [1, 2]\<rparr>, \<lparr>db_wDataSize = 1, pDataBuffer = [9 :: byte]\<rparr>]))) CYSDataQueue"
  by (rule InsertDataBuffers_gathers [OF queue_rep_empty])
     (simp_all add: queue_ambiguous_def CYSDataQueue_def buffer_ok_def)

section \<open>The queue is first-in first-out\<close>

definition put_packet :: "heap \<Rightarrow> data_queue \<Rightarrow> packet \<Rightarrow> (bool \<times> data_queue) option" where
  "put_packet heap q p = InsertData heap (fst p) (snd p) (of_nat (length (snd p))) q"

interpretation dq: fifo_impl "put_packet heap" "DistillData cap" "delivered cap" queue_rep "\<lambda>q. \<not> queue_ambiguous q" packet_ok
  for heap cap
proof unfold_locales
  fix q ps p assume "queue_rep q ps" "\<not> queue_ambiguous q" "packet_ok p"
  from InsertData_enqueues [OF this, of heap]
  show "\<exists>ok q'. put_packet heap q p = Some (ok, q') \<and> queue_rep q' (if ok then ps @ [p] else ps)"
    using \<open>queue_rep q ps\<close> by (auto simp: put_packet_def)
qed (simp_all add: DistillData_dequeues DistillData_empty)

text \<open>Property C6: the packet queue is a first-in first-out queue. From the empty queue, any sequence of insertions (of
  packets whose data has at most 65531 bytes) and extractions stays inside the block, whatever
  memory the allocator returns or refuses, and its results are those of the ideal queue: every
  accepted packet is delivered exactly once, in order. The one condition is that no insertion happens
  while the three positions coincide on a queue that is not empty.\<close>
theorem data_queue_fifo:
  assumes "\<forall>p. Put p \<in> set ops \<longrightarrow> packet_ok p"
    and "fifo_ready (put_packet heap) (DistillData cap) (\<lambda>q. \<not> queue_ambiguous q) CYSDataQueue ops"
  shows "\<exists>rs q ps. fifo_run (put_packet heap) (DistillData cap) CYSDataQueue ops = Some (rs, q) \<and>
    fifo_trace (delivered cap) [] ops rs = Some ps \<and> queue_rep q ps"
  using dq.run_legal [OF queue_rep_empty assms] .

theorem data_queue_fifo_witness:
  "\<exists>rs q ps. fifo_run (put_packet (\<lambda>n. Some (\<lambda>_. 0))) (DistillData 100) CYSDataQueue [Put (1, [5, 6]), Put (2, []), Get] = Some (rs, q) \<and>
    fifo_trace (delivered 100) [] [Put (1, [5, 6]), Put (2, []), Get] rs = Some ps \<and> queue_rep q ps"
proof (rule data_queue_fifo)
  show "fifo_ready (put_packet (\<lambda>n. Some (\<lambda>_. 0))) (DistillData 100) (\<lambda>q. \<not> queue_ambiguous q) CYSDataQueue [Put (1, [5, 6]), Put (2, []), Get]"
    by code_simp
qed (auto simp: packet_ok_def)

text \<open>Without that condition the order is lost. Six empty packets pass through the queue, which leaves the
  three positions at offset 24 of 40; a packet of 24 bytes then goes to the start of the block and
  ends at the same offset, the next one is put behind it, and extraction yields this one first.\<close>

lemma data_queue_reorders:
  "map_option fst (fifo_run (put_packet (\<lambda>n. Some (\<lambda>_. 0))) (DistillData 100) CYSDataQueue
     (replicate 6 (Put (1, [])) @ replicate 6 Get @ [Put (7, replicate 20 9), Put (8, []), Get])) =
   Some (replicate 6 (Stored True) @ replicate 6 (Got (Some (\<lparr>wDataSize = 0, wIdentifier = 1\<rparr>, []))) @
     [Stored True, Stored True, Got (Some (\<lparr>wDataSize = 0, wIdentifier = 8\<rparr>, []))])"
  by code_simp

end
