(* ===== verification/Queue_Service.thy ===== *)
theory Queue_Service
  imports Data_Queue
begin

text \<open>
  The queue service \<open>CQueueService\<close> of the kernel engine (\<open>QueueService.cpp\<close>): any thread adds packets to
  a \<open>CYSDataQueue\<close> under a lock and posts a completion; one service thread takes a completion at a time,
  extracts a packet under the lock and hands it to the sink outside the lock. The completion port of
  the system is the list of the keys posted to it, \<^const>\<open>True\<close> for the service object and \<^const>\<open>False\<close> for
  the null key that ends the thread. Adding a packet and extracting one are single steps because of the
  critical section; the service thread takes a completion, extracts the packet and calls the sink in
  three separate steps, between which the producers may run. \<open>qs_run\<close> performs the steps of a schedule.
\<close>

section \<open>The state and the operations\<close>

definition MAX_ASYNCHRONISM_DATA :: nat where
  "MAX_ASYNCHRONISM_DATA = 16384"

text \<open>A packet as the sink gets it: the identifier and the data, whose length is \<open>wDataSize\<close>.\<close>

type_synonym sink_event = "uint16 \<times> byte list"

text \<open>Where the service thread is: not running, before the call of \<open>GetQueuedCompletionStatus\<close>, after it with
  the key of a completion, or with an extracted packet in its buffer.\<close>

datatype service_thread = Stopped | Waiting | HasKey bool | HasData tagDataHead "byte list"

record queue_service =
  m_bService :: bool
  m_hCompletionPort :: "bool list option"
  m_pIQueueServiceSink :: bool
  m_DataQueue :: data_queue
  m_bRun :: bool
  m_Thread :: service_thread
  sink_log :: "sink_event list"

definition CQueueService :: queue_service where
  "CQueueService = \<lparr>m_bService = False, m_hCompletionPort = None, m_pIQueueServiceSink = False,
     m_DataQueue = CYSDataQueue, m_bRun = False, m_Thread = Stopped, sink_log = []\<rparr>"

definition SetQueueServiceSink :: "bool \<Rightarrow> queue_service \<Rightarrow> bool \<times> queue_service" where
  "SetQueueServiceSink found s = (found, s\<lparr>m_pIQueueServiceSink := found\<rparr>)"

definition qs_GetBurthenInfo :: "queue_service \<Rightarrow> tagBurthenInfo" where
  "qs_GetBurthenInfo s = GetBurthenInfo (m_DataQueue s)"

text \<open>\<open>PostQueuedCompletionStatus\<close> fails without effect when there is no port.\<close>

definition post_completion :: "bool \<Rightarrow> queue_service \<Rightarrow> queue_service" where
  "post_completion key s = s\<lparr>m_hCompletionPort := map_option (\<lambda>ks. ks @ [key]) (m_hCompletionPort s)\<rparr>"

text \<open>The result of the insertion is not looked at.\<close>

definition AddToQueue :: "heap \<Rightarrow> uint16 \<Rightarrow> byte list \<Rightarrow> uint16 \<Rightarrow> queue_service \<Rightarrow> (bool \<times> queue_service) option" where
  "AddToQueue heap wIdent pBuffer n s = do {
     (ok, q) \<leftarrow> InsertData heap wIdent pBuffer n (m_DataQueue s);
     Some (True, post_completion True (s\<lparr>m_DataQueue := q\<rparr>))
   }"

definition GetData :: "uint16 \<Rightarrow> queue_service \<Rightarrow> ((tagDataHead \<times> byte list) option \<times> queue_service) option" where
  "GetData wBufferSize s = do {
     (r, q) \<leftarrow> DistillData wBufferSize (m_DataQueue s);
     Some (r, s\<lparr>m_DataQueue := q\<rparr>)
   }"

definition OnQueueServiceThread :: "tagDataHead \<Rightarrow> byte list \<Rightarrow> queue_service \<Rightarrow> queue_service" where
  "OnQueueServiceThread head xs s =
     (if m_pIQueueServiceSink s then s\<lparr>sink_log := sink_log s @ [(wIdentifier head, xs)]\<rparr> else s)"

text \<open>The next step of the service thread inside \<open>OnEventThreadRun\<close>. The call of \<open>GetQueuedCompletionStatus\<close> waits
  while the port is empty and fails when there is none; the null key ends the thread.\<close>

definition OnEventThreadRun :: "queue_service \<Rightarrow> queue_service option" where
  "OnEventThreadRun s = (case m_Thread s of
     Stopped \<Rightarrow> Some s
   | Waiting \<Rightarrow> Some (case m_hCompletionPort s of
         None \<Rightarrow> s\<lparr>m_Thread := Stopped\<rparr>
       | Some [] \<Rightarrow> s
       | Some (k # ks) \<Rightarrow> s\<lparr>m_hCompletionPort := Some ks, m_Thread := HasKey k\<rparr>)
   | HasKey k \<Rightarrow>
       if \<not> k then Some (s\<lparr>m_Thread := Stopped\<rparr>)
       else do {
         (r, s) \<leftarrow> GetData (of_nat MAX_ASYNCHRONISM_DATA) s;
         Some (s\<lparr>m_Thread := (case r of None \<Rightarrow> Waiting | Some (head, xs) \<Rightarrow> HasData head xs)\<rparr>)
       }
   | HasData head xs \<Rightarrow> Some (OnQueueServiceThread head xs s\<lparr>m_Thread := Waiting\<rparr>))"

text \<open>The loop of \<open>CYSThread::ThreadFunction\<close> around it, which looks at the stop flag between the calls.\<close>

definition thread_step :: "queue_service \<Rightarrow> queue_service option" where
  "thread_step s = (if m_Thread s = Waiting \<and> \<not> m_bRun s then Some (s\<lparr>m_Thread := Stopped\<rparr>) else OnEventThreadRun s)"

text \<open>\<open>StartService\<close>; the two flags are the outcomes of creating the port and of starting the thread, and
  \<open>Inl\<close> is an exception.\<close>

definition qs_StartService :: "bool \<Rightarrow> bool \<Rightarrow> queue_service \<Rightarrow> (string \<times> queue_service) + (bool \<times> queue_service)" where
  "qs_StartService port_ok thread_ok s =
     (let s = s\<lparr>m_hCompletionPort := (if port_ok then Some [] else None)\<rparr> in
      if \<not> port_ok then Inl (''port'', s)
      else if \<not> thread_ok then Inl (''thread'', s)
      else Inr (True, s\<lparr>m_bRun := True, m_Thread := Waiting, m_bService := True\<rparr>))"

text \<open>\<open>ConcludeService\<close> in the steps between which other threads run: one poll of the waiting loop, which is
  over when the queue is empty; the null completion and the stop flag of the thread; and what
  follows once the thread has ended.\<close>

definition conclude_poll :: "queue_service \<Rightarrow> bool" where
  "conclude_poll s \<longleftrightarrow> m_bService s \<longrightarrow> bi_dwDataPacketCount (qs_GetBurthenInfo s) = 0"

definition conclude_stop :: "queue_service \<Rightarrow> queue_service" where
  "conclude_stop s = (post_completion False (s\<lparr>m_bService := False\<rparr>))\<lparr>m_bRun := False\<rparr>"

definition conclude_finish :: "queue_service \<Rightarrow> queue_service" where
  "conclude_finish s = s\<lparr>m_hCompletionPort := None, m_DataQueue := RemoveData False (m_DataQueue s), m_pIQueueServiceSink := False\<rparr>"

section \<open>Interleavings\<close>

text \<open>The service after \<open>SetQueueServiceSink\<close> and \<open>StartService\<close>.\<close>

definition qs_started :: queue_service where
  "qs_started = (let s = snd (SetQueueServiceSink True CQueueService) in
     case qs_StartService True True s of Inr (_, s) \<Rightarrow> s | Inl (_, s) \<Rightarrow> s)"

text \<open>A schedule: which packets are added, and when the service thread makes a step. The result are the
  packets whose insertion succeeded, in order, and the state of the service.\<close>

datatype qs_action = Add packet | ThreadStep

fun qs_run :: "heap \<Rightarrow> qs_action list \<Rightarrow> queue_service \<Rightarrow> (packet list \<times> queue_service) option" where
  "qs_run heap [] s = Some ([], s)"
| "qs_run heap (Add p # as) s = do {
     (ok, q) \<leftarrow> put_packet heap (m_DataQueue s) p;
     (_, s) \<leftarrow> AddToQueue heap (fst p) (snd p) (of_nat (length (snd p))) s;
     (ps, s) \<leftarrow> qs_run heap as s;
     Some (if ok then p # ps else ps, s)
   }"
| "qs_run heap (ThreadStep # as) s = do { s \<leftarrow> thread_step s; qs_run heap as s }"

definition event_fits :: "packet \<Rightarrow> bool" where
  "event_fits p = (length (snd p) \<le> MAX_ASYNCHRONISM_DATA)"

text \<open>The schedules that the theorems speak of: every packet fits the buffer of the service thread, and no
  packet is added while the three positions of the queue coincide with packets in it (there the
  queue loses its order, see \<open>data_queue_reorders\<close>).\<close>

fun qs_ready :: "heap \<Rightarrow> qs_action list \<Rightarrow> queue_service \<Rightarrow> bool" where
  "qs_ready heap [] s = True"
| "qs_ready heap (Add p # as) s = (event_fits p \<and> \<not> queue_ambiguous (m_DataQueue s) \<and>
     (case AddToQueue heap (fst p) (snd p) (of_nat (length (snd p))) s of
        None \<Rightarrow> True | Some (_, s) \<Rightarrow> qs_ready heap as s))"
| "qs_ready heap (ThreadStep # as) s = (case thread_step s of None \<Rightarrow> True | Some s \<Rightarrow> qs_ready heap as s)"

text \<open>The packet that the thread has extracted and not handed over yet.\<close>

definition in_flight :: "queue_service \<Rightarrow> sink_event list" where
  "in_flight s = (case m_Thread s of HasData head xs \<Rightarrow> [(wIdentifier head, xs)] | _ \<Rightarrow> [])"

text \<open>The invariant: what was accepted is what the sink got, followed by what is in flight and what is queued;
  and there is a completion for every queued packet.\<close>

definition qs_inv :: "packet list \<Rightarrow> packet list \<Rightarrow> queue_service \<Rightarrow> bool" where
  "qs_inv ps qs s \<longleftrightarrow> list_all event_fits ps \<and> m_pIQueueServiceSink s \<and> m_bRun s \<and>
     m_Thread s \<noteq> Stopped \<and> m_Thread s \<noteq> HasKey False \<and>
     ps = sink_log s @ in_flight s @ qs \<and> queue_rep (m_DataQueue s) qs \<and>
     (\<exists>ks. m_hCompletionPort s = Some ks \<and> list_all id ks \<and>
        length qs \<le> length ks + (if m_Thread s = HasKey True then 1 else 0))"

lemma qs_inv_start: "qs_inv [] [] qs_started"
  by (simp add: qs_inv_def in_flight_def qs_started_def SetQueueServiceSink_def qs_StartService_def CQueueService_def Let_def queue_rep_empty)

lemma event_fits_ok: "event_fits p \<Longrightarrow> packet_ok p"
  by (simp add: event_fits_def packet_ok_def MAX_ASYNCHRONISM_DATA_def)

lemma delivered_fits: "event_fits p \<Longrightarrow> delivered (of_nat MAX_ASYNCHRONISM_DATA) p = (packet_head p, snd p)"
  by (simp add: event_fits_def delivered_def MAX_ASYNCHRONISM_DATA_def)

lemma qs_inv_add:
  assumes i: "qs_inv ps qs s" and f: "event_fits p" and a: "\<not> queue_ambiguous (m_DataQueue s)"
  shows "\<exists>ok q s'. put_packet heap (m_DataQueue s) p = Some (ok, q) \<and>
    AddToQueue heap (fst p) (snd p) (of_nat (length (snd p))) s = Some (True, s') \<and>
    qs_inv (if ok then ps @ [p] else ps) (if ok then qs @ [p] else qs) s'"
proof -
  have "queue_rep (m_DataQueue s) qs" using i by (simp add: qs_inv_def)
  then obtain ok q where q: "put_packet heap (m_DataQueue s) p = Some (ok, q)" "queue_rep q (if ok then qs @ [p] else qs)"
    using dq.enq_law [OF _ a event_fits_ok [OF f], of qs heap] by auto
  moreover have "AddToQueue heap (fst p) (snd p) (of_nat (length (snd p))) s = Some (True, post_completion True (s\<lparr>m_DataQueue := q\<rparr>))"
    using q by (simp add: AddToQueue_def put_packet_def)
  moreover have "qs_inv (if ok then ps @ [p] else ps) (if ok then qs @ [p] else qs) (post_completion True (s\<lparr>m_DataQueue := q\<rparr>))"
    using i f q(2) by (cases ok) (auto simp: qs_inv_def post_completion_def in_flight_def split: service_thread.splits)
  ultimately show ?thesis by blast
qed

text \<open>How many steps the thread still needs, at most, for the completions in the port.\<close>

definition steps_left :: "queue_service \<Rightarrow> nat" where
  "steps_left s = 3 * (case m_hCompletionPort s of None \<Rightarrow> 0 | Some ks \<Rightarrow> length ks) +
     (case m_Thread s of HasKey _ \<Rightarrow> 2 | HasData _ _ \<Rightarrow> 1 | _ \<Rightarrow> 0)"

lemma thread_step_delivers:
  assumes i: "qs_inv ps qs s"
  shows "\<exists>s' qs'. thread_step s = Some s' \<and> qs_inv ps qs' s' \<and> steps_left s' \<le> steps_left s - 1"
proof -
  obtain ks where ks: "m_hCompletionPort s = Some ks" "list_all id ks" "length qs \<le> length ks + (if m_Thread s = HasKey True then 1 else 0)"
    using i by (auto simp: qs_inv_def)
  have run: "thread_step s = OnEventThreadRun s" using i by (auto simp: thread_step_def qs_inv_def)
  have qs: "queue_rep (m_DataQueue s) qs" using i by (simp add: qs_inv_def)
  show ?thesis unfolding run
  proof (cases "m_Thread s")
    case Waiting
    then show "\<exists>s' qs'. OnEventThreadRun s = Some s' \<and> qs_inv ps qs' s' \<and> steps_left s' \<le> steps_left s - 1"
      using i ks by (cases ks) (auto simp: OnEventThreadRun_def steps_left_def qs_inv_def in_flight_def intro!: exI [of _ qs])
  next
    case (HasKey k)
    then have k: "k" using i by (cases k) (auto simp: qs_inv_def)
    show "\<exists>s' qs'. OnEventThreadRun s = Some s' \<and> qs_inv ps qs' s' \<and> steps_left s' \<le> steps_left s - 1"
    proof (cases qs)
      case Nil
      then have "DistillData (of_nat MAX_ASYNCHRONISM_DATA) (m_DataQueue s) = Some (None, m_DataQueue s)" using qs by (simp add: dq.deq_empty_law)
      then show ?thesis using i ks HasKey k Nil
        by (auto simp: OnEventThreadRun_def GetData_def qs_inv_def in_flight_def steps_left_def intro!: exI [of _ "[]"])
    next
      case (Cons p qs')
      then have f: "event_fits p" using i by (auto simp: qs_inv_def)
      obtain q where q: "DistillData (of_nat MAX_ASYNCHRONISM_DATA) (m_DataQueue s) = Some (Some (packet_head p, snd p), q)" "queue_rep q qs'"
        using dq.deq_law [of "m_DataQueue s" p qs'] qs Cons delivered_fits [OF f] by metis
      then show ?thesis using i ks HasKey k Cons
        by (auto simp: OnEventThreadRun_def GetData_def qs_inv_def in_flight_def steps_left_def packet_head_def intro!: exI [of _ qs'])
    qed
  next
    case (HasData head xs)
    then show "\<exists>s' qs'. OnEventThreadRun s = Some s' \<and> qs_inv ps qs' s' \<and> steps_left s' \<le> steps_left s - 1"
      using i ks by (auto simp: OnEventThreadRun_def OnQueueServiceThread_def steps_left_def qs_inv_def in_flight_def intro!: exI [of _ qs])
  qed (use i in \<open>simp add: qs_inv_def\<close>)
qed

lemma qs_run_inv:
  "qs_inv ps qs s \<Longrightarrow> qs_ready heap as s \<Longrightarrow> \<exists>ps' qs' s'. qs_run heap as s = Some (ps', s') \<and> qs_inv (ps @ ps') qs' s'"
proof (induction as arbitrary: ps qs s)
  case (Cons a as)
  show ?case
  proof (cases a)
    case (Add p)
    then obtain ok q s1 where s1: "put_packet heap (m_DataQueue s) p = Some (ok, q)"
      "AddToQueue heap (fst p) (snd p) (of_nat (length (snd p))) s = Some (True, s1)"
      "qs_inv (if ok then ps @ [p] else ps) (if ok then qs @ [p] else qs) s1"
      using qs_inv_add [OF Cons.prems(1), of p heap] Cons.prems(2) by auto
    have "qs_ready heap as s1" using Cons.prems(2) Add s1(2) by simp
    then obtain ps' qs' s' where "qs_run heap as s1 = Some (ps', s')" "qs_inv ((if ok then ps @ [p] else ps) @ ps') qs' s'"
      using Cons.IH [OF s1(3)] by blast
    then show ?thesis using Add s1(1,2) by (cases ok) auto
  next
    case ThreadStep
    obtain s1 qs1 where s1: "thread_step s = Some s1" "qs_inv ps qs1 s1" using thread_step_delivers [OF Cons.prems(1)] by blast
    then show ?thesis using Cons.IH [OF s1(2)] Cons.prems(2) ThreadStep by simp
  qed
qed (auto intro: exI [of _ qs])

fun thread_steps :: "nat \<Rightarrow> queue_service \<Rightarrow> queue_service option" where
  "thread_steps 0 s = Some s"
| "thread_steps (Suc n) s = Option.bind (thread_step s) (thread_steps n)"

lemma thread_steps_drain:
  "qs_inv ps qs s \<Longrightarrow> steps_left s \<le> n \<Longrightarrow>
   \<exists>s'. thread_steps n s = Some s' \<and> qs_inv ps [] s' \<and> in_flight s' = []"
proof (induction n arbitrary: qs s)
  case 0
  then have "qs = []" "in_flight s = []"
    by (auto simp: qs_inv_def steps_left_def in_flight_def split: service_thread.splits if_splits)
  then show ?case using 0 by simp
next
  case (Suc n)
  obtain s' qs' where s': "thread_step s = Some s'" "qs_inv ps qs' s'" "steps_left s' \<le> steps_left s - 1"
    using thread_step_delivers [OF Suc.prems(1)] by blast
  then show ?case using Suc.IH [OF s'(2)] Suc.prems(2) by simp
qed

section \<open>The properties\<close>

text \<open>Property C11: the service thread hands the accepted packets to the sink in the order in which they were added,
  each once and unchanged. For every schedule of producers and service thread, in which every
  packet fits the buffer of the thread and none is added while the positions of the queue coincide
  with packets in it, nothing fails, what the sink got is a prefix of what was accepted, and the
  rest is in the buffer of the thread and in the queue.\<close>
theorem queue_service_in_order:
  assumes "qs_ready heap acts qs_started"
  shows "\<exists>ps s qs. qs_run heap acts qs_started = Some (ps, s) \<and> ps = sink_log s @ in_flight s @ qs \<and> queue_rep (m_DataQueue s) qs"
  using qs_run_inv [OF qs_inv_start assms] by (auto simp: qs_inv_def)

lemma demo_schedule_ready: "qs_ready (\<lambda>n. Some (\<lambda>_. 0)) [Add (1, [5]), ThreadStep, Add (2, []), ThreadStep] qs_started"
  by code_simp

theorem queue_service_in_order_witness:
  "\<exists>ps s qs. qs_run (\<lambda>n. Some (\<lambda>_. 0)) [Add (1, [5]), ThreadStep, Add (2, []), ThreadStep] qs_started = Some (ps, s) \<and>
    ps = sink_log s @ in_flight s @ qs \<and> queue_rep (m_DataQueue s) qs"
  by (rule queue_service_in_order [OF demo_schedule_ready])

text \<open>Property C12: no packet is left behind. After any such schedule the pending completions are enough: once the
  service thread has made three steps for each completion in the port and two more for the one it
  may be working on, the sink has got every packet accepted so far, in order, and the waiting loop of
  \<open>ConcludeService\<close> ends.\<close>
theorem queue_service_drains:
  assumes "qs_ready heap acts qs_started"
  shows "\<exists>ps s ks s'. qs_run heap acts qs_started = Some (ps, s) \<and> m_hCompletionPort s = Some ks \<and>
    thread_steps (3 * length ks + 2) s = Some s' \<and> sink_log s' = ps \<and> conclude_poll s'"
proof -
  obtain ps qs s where r: "qs_run heap acts qs_started = Some (ps, s)" "qs_inv ps qs s"
    using qs_run_inv [OF qs_inv_start assms] by auto
  then obtain ks where ks: "m_hCompletionPort s = Some ks" by (auto simp: qs_inv_def)
  then have "steps_left s \<le> 3 * length ks + 2" by (simp add: steps_left_def split: service_thread.splits)
  then obtain s' where s': "thread_steps (3 * length ks + 2) s = Some s'" "qs_inv ps [] s'" "in_flight s' = []"
    using thread_steps_drain [OF r(2)] by blast
  have "sink_log s' = ps" "conclude_poll s'" using s'(2,3)
    by (auto simp: qs_inv_def conclude_poll_def qs_GetBurthenInfo_def GetBurthenInfo_def queue_rep_def word_unat_eq_iff)
  then show ?thesis using r(1) ks s'(1) by blast
qed

theorem queue_service_drains_witness:
  "\<exists>ps s ks s'. qs_run (\<lambda>n. Some (\<lambda>_. 0)) [Add (1, [5]), ThreadStep, Add (2, []), ThreadStep] qs_started = Some (ps, s) \<and>
    m_hCompletionPort s = Some ks \<and> thread_steps (3 * length ks + 2) s = Some s' \<and> sink_log s' = ps \<and> conclude_poll s'"
  by (rule queue_service_drains [OF demo_schedule_ready])

text \<open>A packet that is added before \<open>StartService\<close> is stored, but its completion is lost because there is no
  port yet. The service then starts with one packet more than completions: the thread waits on the
  empty port while the packet is queued, and the waiting loop of \<open>ConcludeService\<close> does not end.\<close>

lemma add_before_start_blocks_conclude:
  "case AddToQueue (\<lambda>n. Some (\<lambda>_. 0)) 1 [] 0 (snd (SetQueueServiceSink True CQueueService)) of
     Some (ok, s) \<Rightarrow> (case qs_StartService True True s of
         Inr (started, s) \<Rightarrow> ok \<and> started \<and> m_hCompletionPort s = Some [] \<and> \<not> conclude_poll s
       | Inl _ \<Rightarrow> False)
   | None \<Rightarrow> False"
  by code_simp

end
