(* ===== verification/Kernel_Events.thy ===== *)
theory Kernel_Events
  imports Queue_Service
begin

text \<open>
  The events of the kernel engine. \<open>CQueueServiceEvent\<close> (\<open>QueueServiceEvent.h\<close>) packs the arguments of an
  event into its buffer, as one of the \<open>NTY_\<close> structures followed by data, and adds it to a queue
  service; the sinks of the attemper engine (\<open>AttemperEngine.cpp\<close>) and of the database engine
  (\<open>DataBase.cpp\<close>) unpack it in the service thread and call the handlers of the application. The
  structures have the natural alignment of the Win32 build; padding bytes keep what the buffer held.
  The handlers are a parameter: for a call, their result, or \<^const>\<open>None\<close> for an exception.
\<close>

section \<open>Packing\<close>

definition EVENT_TIMER :: uint16 where "EVENT_TIMER = 1"
definition EVENT_CONTROL :: uint16 where "EVENT_CONTROL = 2"
definition EVENT_DATABASE :: uint16 where "EVENT_DATABASE = 3"
definition EVENT_TCP_SOCKET_READ :: uint16 where "EVENT_TCP_SOCKET_READ = 4"
definition EVENT_TCP_SOCKET_SHUT :: uint16 where "EVENT_TCP_SOCKET_SHUT = 5"
definition EVENT_TCP_SOCKET_LINK :: uint16 where "EVENT_TCP_SOCKET_LINK = 6"
definition EVENT_TCP_NETWORK_ACCEPT :: uint16 where "EVENT_TCP_NETWORK_ACCEPT = 7"
definition EVENT_TCP_NETWORK_READ :: uint16 where "EVENT_TCP_NETWORK_READ = 8"
definition EVENT_TCP_NETWORK_SHUT :: uint16 where "EVENT_TCP_NETWORK_SHUT = 9"

lemmas event_ids = EVENT_TIMER_def EVENT_CONTROL_def EVENT_DATABASE_def EVENT_TCP_SOCKET_READ_def
  EVENT_TCP_SOCKET_SHUT_def EVENT_TCP_SOCKET_LINK_def EVENT_TCP_NETWORK_ACCEPT_def EVENT_TCP_NETWORK_READ_def EVENT_TCP_NETWORK_SHUT_def

record TCP_Command =
  wMainCmdID :: uint16
  wSubCmdID :: uint16

definition le_word :: "'a::len word \<Rightarrow> byte list" where
  "le_word w = le_bytes (LENGTH('a) div 8) (uint w)"

definition le_command :: "TCP_Command \<Rightarrow> byte list" where
  "le_command c = le_word (wMainCmdID c) @ le_word (wSubCmdID c)"

definition field :: "nat \<Rightarrow> byte list \<Rightarrow> 'a::len word option" where
  "field off xs = map_option (\<lambda>bs. word_of_int (le_uint bs)) (mem_read off (LENGTH('a) div 8) xs)"

definition field_command :: "nat \<Rightarrow> byte list \<Rightarrow> TCP_Command option" where
  "field_command off xs = do {
     a \<leftarrow> field off xs;
     b \<leftarrow> field (off + 2) xs;
     Some \<lparr>wMainCmdID = a, wSubCmdID = b\<rparr>
   }"

record queue_event =
  m_cbBuffer :: "byte list"
  m_pIQueueService :: queue_service

text \<open>The assignments to the fields of the structure in the buffer, in order.\<close>

fun write_fields :: "(nat \<times> byte list) list \<Rightarrow> byte list \<Rightarrow> byte list option" where
  "write_fields [] b = Some b"
| "write_fields ((off, xs) # ws) b = Option.bind (mem_write off xs b) (write_fields ws)"

definition post_event :: "heap \<Rightarrow> uint16 \<Rightarrow> (nat \<times> byte list) list \<Rightarrow> uint16 \<Rightarrow> queue_event \<Rightarrow> (bool \<times> queue_event) option" where
  "post_event heap ident ws n e = do {
     b \<leftarrow> write_fields ws (m_cbBuffer e);
     (r, s) \<leftarrow> AddToQueue heap ident b n (m_pIQueueService e);
     Some (r, e\<lparr>m_cbBuffer := b, m_pIQueueService := s\<rparr>)
   }"

definition PostTimerEvent :: "heap \<Rightarrow> uint32 \<Rightarrow> uint32 \<Rightarrow> queue_event \<Rightarrow> (bool \<times> queue_event) option" where
  "PostTimerEvent heap wTimerID wBindParam e =
     map_option (\<lambda>(_, e). (True, e)) (post_event heap EVENT_TIMER [(0, le_word wTimerID), (4, le_word wBindParam)] 8 e)"

definition PostDataBaseEvent :: "heap \<Rightarrow> uint16 \<Rightarrow> uint32 \<Rightarrow> byte list \<Rightarrow> uint16 \<Rightarrow> queue_event \<Rightarrow> (bool \<times> queue_event) option" where
  "PostDataBaseEvent heap wRequestID dwContextID pBuffer n e =
     (if unat n + 8 > MAX_ASYNCHRONISM_DATA then Some (False, e)
      else do {
        xs \<leftarrow> mem_read 0 (unat n) pBuffer;
        (_, e) \<leftarrow> post_event heap EVENT_DATABASE [(0, le_word wRequestID), (4, le_word dwContextID), (8, xs)] (8 + n) e;
        Some (True, e)
      })"

definition PostControlEvent :: "heap \<Rightarrow> uint16 \<Rightarrow> byte list \<Rightarrow> uint16 \<Rightarrow> queue_event \<Rightarrow> (bool \<times> queue_event) option" where
  "PostControlEvent heap wControlID pData n e =
     (if unat n + 2 > MAX_ASYNCHRONISM_DATA then Some (False, e)
      else do {
        xs \<leftarrow> mem_read 0 (unat n) pData;
        (_, e) \<leftarrow> post_event heap EVENT_CONTROL [(0, le_word wControlID), (2, xs)] (2 + n) e;
        Some (True, e)
      })"

definition PostNetworkAcceptEvent :: "heap \<Rightarrow> uint32 \<Rightarrow> uint32 \<Rightarrow> queue_event \<Rightarrow> (bool \<times> queue_event) option" where
  "PostNetworkAcceptEvent heap dwSocketID dwClientAddr e =
     map_option (\<lambda>(_, e). (True, e)) (post_event heap EVENT_TCP_NETWORK_ACCEPT [(0, le_word dwSocketID), (4, le_word dwClientAddr)] 8 e)"

definition PostNetworkReadEvent :: "heap \<Rightarrow> uint32 \<Rightarrow> TCP_Command \<Rightarrow> byte list \<Rightarrow> uint16 \<Rightarrow> queue_event \<Rightarrow> (bool \<times> queue_event) option" where
  "PostNetworkReadEvent heap dwSocketID Command pBuffer n e =
     (if unat n + 12 > MAX_ASYNCHRONISM_DATA then Some (False, e)
      else do {
        xs \<leftarrow> mem_read 0 (unat n) pBuffer;
        (_, e) \<leftarrow> post_event heap EVENT_TCP_NETWORK_READ
           [(4, le_word dwSocketID), (8, le_command Command), (0, le_word n), (12, xs)] (12 + n) e;
        Some (True, e)
      })"

definition PostNetworkShutEvent :: "heap \<Rightarrow> uint32 \<Rightarrow> uint32 \<Rightarrow> uint32 \<Rightarrow> queue_event \<Rightarrow> (bool \<times> queue_event) option" where
  "PostNetworkShutEvent heap dwSocketID dwClientAddr dwActiveTime e =
     map_option (\<lambda>(_, e). (True, e)) (post_event heap EVENT_TCP_NETWORK_SHUT
       [(0, le_word dwSocketID), (8, le_word dwActiveTime), (4, le_word dwClientAddr)] 12 e)"

definition PostTCPSocketShutEvent :: "heap \<Rightarrow> uint16 \<Rightarrow> byte \<Rightarrow> queue_event \<Rightarrow> (bool \<times> queue_event) option" where
  "PostTCPSocketShutEvent heap wServiceID cbShutReason e =
     post_event heap EVENT_TCP_SOCKET_SHUT [(0, le_word wServiceID), (2, le_word cbShutReason)] 4 e"

definition PostTCPSocketReadEvent :: "heap \<Rightarrow> uint16 \<Rightarrow> TCP_Command \<Rightarrow> byte list \<Rightarrow> uint16 \<Rightarrow> queue_event \<Rightarrow> (bool \<times> queue_event) option" where
  "PostTCPSocketReadEvent heap wServiceID Command pBuffer n e =
     (if unat n + 8 > MAX_ASYNCHRONISM_DATA then Some (False, e)
      else do {
        xs \<leftarrow> mem_read 0 (unat n) pBuffer;
        (_, e) \<leftarrow> post_event heap EVENT_TCP_SOCKET_READ
           [(0, le_word n), (2, le_word wServiceID), (4, le_command Command), (8, xs)] (8 + n) e;
        Some (True, e)
      })"

definition PostTCPSocketLinkEvent :: "heap \<Rightarrow> uint16 \<Rightarrow> uint32 \<Rightarrow> queue_event \<Rightarrow> (bool \<times> queue_event) option" where
  "PostTCPSocketLinkEvent heap wServiceID nErrorCode e =
     map_option (\<lambda>(_, e). (True, e)) (post_event heap EVENT_TCP_SOCKET_LINK [(4, le_word wServiceID), (0, le_word nErrorCode)] 8 e)"

section \<open>Unpacking\<close>

datatype handler_call =
    OnEventTimer uint32 uint32
  | OnEventDataBase uint16 uint32 "byte list"
  | OnEventTCPNetworkBind uint32 uint32
  | OnEventTCPNetworkRead TCP_Command "byte list" uint32
  | OnEventTCPNetworkShut uint32 uint32 uint32
  | OnEventTCPSocketRead uint16 TCP_Command "byte list"
  | OnEventTCPSocketShut uint16 byte
  | OnEventTCPSocketLink uint16 uint32
  | OnEventControl uint16 "byte list"
  | OnEventAttemperData uint16 "byte list"

datatype sink_action = Call handler_call | CloseNetworkSocket uint32 | CloseTCPSocket

text \<open>A call of a handler; when it returns \<open>false\<close> or throws, the connection is closed.\<close>

definition call_or_close :: "(handler_call \<Rightarrow> bool option) \<Rightarrow> handler_call \<Rightarrow> sink_action \<Rightarrow> sink_action list" where
  "call_or_close h c close = (if h c = Some True then [Call c] else [Call c, close])"

definition sink_timer :: "byte list \<Rightarrow> sink_action list option" where
  "sink_timer xs = (if length xs \<noteq> 8 then Some [] else do {
     i \<leftarrow> field 0 xs; p \<leftarrow> field 4 xs;
     Some [Call (OnEventTimer i p)]
   })"

definition sink_database :: "byte list \<Rightarrow> sink_action list option" where
  "sink_database xs = (if length xs < 8 then Some [] else do {
     i \<leftarrow> field 0 xs; c \<leftarrow> field 4 xs;
     d \<leftarrow> mem_read 8 (length xs - 8) xs;
     Some [Call (OnEventDataBase i c d)]
   })"

definition sink_network_accept :: "(handler_call \<Rightarrow> bool option) \<Rightarrow> byte list \<Rightarrow> sink_action list option" where
  "sink_network_accept h xs = (if length xs \<noteq> 8 then Some [] else do {
     i \<leftarrow> field 0 xs; a \<leftarrow> field 4 xs;
     Some (call_or_close h (OnEventTCPNetworkBind a i) (CloseNetworkSocket i))
   })"

definition sink_network_read :: "(handler_call \<Rightarrow> bool option) \<Rightarrow> byte list \<Rightarrow> sink_action list option" where
  "sink_network_read h xs = (if length xs < 12 then Some [] else do {
     n \<leftarrow> field 0 xs;
     if length xs \<noteq> 12 + unat (n :: uint16) then Some [] else do {
       i \<leftarrow> field 4 xs; c \<leftarrow> field_command 8 xs;
       d \<leftarrow> mem_read 12 (unat n) xs;
       Some (call_or_close h (OnEventTCPNetworkRead c d i) (CloseNetworkSocket i))
     }
   })"

definition sink_network_shut :: "(handler_call \<Rightarrow> bool option) \<Rightarrow> byte list \<Rightarrow> sink_action list option" where
  "sink_network_shut h xs = (if length xs \<noteq> 12 then Some [] else do {
     i \<leftarrow> field 0 xs; a \<leftarrow> field 4 xs; t \<leftarrow> field 8 xs;
     Some (call_or_close h (OnEventTCPNetworkShut a t i) (CloseNetworkSocket i))
   })"

definition sink_socket_read :: "(handler_call \<Rightarrow> bool option) \<Rightarrow> byte list \<Rightarrow> sink_action list option" where
  "sink_socket_read h xs = (if length xs < 8 then Some [] else do {
     n \<leftarrow> field 0 xs;
     if length xs \<noteq> 8 + unat (n :: uint16) then Some [] else do {
       i \<leftarrow> field 2 xs; c \<leftarrow> field_command 4 xs;
       d \<leftarrow> mem_read 8 (unat n) xs;
       Some (call_or_close h (OnEventTCPSocketRead i c d) CloseTCPSocket)
     }
   })"

definition sink_socket_shut :: "(handler_call \<Rightarrow> bool option) \<Rightarrow> byte list \<Rightarrow> sink_action list option" where
  "sink_socket_shut h xs = (if length xs \<noteq> 4 then Some [] else do {
     i \<leftarrow> field 0 xs; r \<leftarrow> field 2 xs;
     Some (call_or_close h (OnEventTCPSocketShut i r) CloseTCPSocket)
   })"

definition sink_socket_link :: "(handler_call \<Rightarrow> bool option) \<Rightarrow> byte list \<Rightarrow> sink_action list option" where
  "sink_socket_link h xs = (if length xs \<noteq> 8 then Some [] else do {
     r \<leftarrow> field 0 xs; i \<leftarrow> field 4 xs;
     Some (call_or_close h (OnEventTCPSocketLink i r) CloseTCPSocket)
   })"

definition sink_control :: "uint16 \<Rightarrow> byte list \<Rightarrow> sink_action list option" where
  "sink_control ident xs = Some (if length xs \<noteq> 2 then [] else [Call (OnEventControl ident xs)])"

definition OnQueueServiceSink :: "(handler_call \<Rightarrow> bool option) \<Rightarrow> bool \<Rightarrow> uint16 \<Rightarrow> byte list \<Rightarrow> sink_action list option" where
  "OnQueueServiceSink h has_sink ident xs =
     (if \<not> has_sink then Some []
      else if ident = EVENT_TIMER then sink_timer xs
      else if ident = EVENT_DATABASE then sink_database xs
      else if ident = EVENT_TCP_NETWORK_ACCEPT then sink_network_accept h xs
      else if ident = EVENT_TCP_NETWORK_READ then sink_network_read h xs
      else if ident = EVENT_TCP_NETWORK_SHUT then sink_network_shut h xs
      else if ident = EVENT_TCP_SOCKET_READ then sink_socket_read h xs
      else if ident = EVENT_TCP_SOCKET_SHUT then sink_socket_shut h xs
      else if ident = EVENT_TCP_SOCKET_LINK then sink_socket_link h xs
      else if ident = EVENT_CONTROL then sink_control ident xs
      else Some [Call (OnEventAttemperData ident xs)])"

text \<open>The database engine, with the number of its sinks; the calls are made on each of them in turn, until one
  throws an exception, which leaves the loop and is caught in \<open>OnQueueServiceThread\<close>.\<close>

datatype database_call =
    OnDataBaseEngineRequest uint16 uint32 "byte list"
  | OnDataBaseEngineTimer uint32 uint32
  | OnDataBaseEngineControl uint16 "byte list"

fun until_throw :: "(nat \<Rightarrow> bool) \<Rightarrow> (nat \<times> database_call) list \<Rightarrow> (nat \<times> database_call) list" where
  "until_throw throws [] = []"
| "until_throw throws ((i, c) # cs) = (i, c) # (if throws i then [] else until_throw throws cs)"

definition db_OnQueueServiceSink ::
    "(nat \<Rightarrow> database_call \<Rightarrow> bool) \<Rightarrow> bool \<Rightarrow> nat \<Rightarrow> uint16 \<Rightarrow> byte list \<Rightarrow> (nat \<times> database_call) list option" where
  "db_OnQueueServiceSink throws service sinks ident xs =
     (let to_all = (\<lambda>c. until_throw (\<lambda>i. throws i c) (map (\<lambda>i. (i, c)) [0..<sinks])) in
      if \<not> service then Some []
      else if ident = EVENT_DATABASE then
        if length xs < 8 then Some [] else do {
          i \<leftarrow> field 0 xs; c \<leftarrow> field 4 xs; d \<leftarrow> mem_read 8 (length xs - 8) xs;
          Some (to_all (OnDataBaseEngineRequest i c d)) }
      else if ident = EVENT_TIMER then
        if length xs < 8 then Some [] else do {
          i \<leftarrow> field 0 xs; p \<leftarrow> field 4 xs;
          Some (to_all (OnDataBaseEngineTimer i p)) }
      else if ident = EVENT_CONTROL then
        if length xs < 2 then Some [] else do {
          i \<leftarrow> field 0 xs; d \<leftarrow> mem_read 2 (length xs - 2) xs;
          Some (to_all (OnDataBaseEngineControl i d)) }
      else Some [])"

section \<open>Events and the calls they stand for\<close>

datatype kernel_event =
    TimerEvent uint32 uint32
  | DataBaseEvent uint16 uint32 "byte list"
  | NetworkAcceptEvent uint32 uint32
  | NetworkReadEvent uint32 TCP_Command "byte list"
  | NetworkShutEvent uint32 uint32 uint32
  | TCPSocketReadEvent uint16 TCP_Command "byte list"
  | TCPSocketShutEvent uint16 byte
  | TCPSocketLinkEvent uint16 uint32

fun post :: "heap \<Rightarrow> kernel_event \<Rightarrow> queue_event \<Rightarrow> (bool \<times> queue_event) option" where
  "post heap (TimerEvent i p) e = PostTimerEvent heap i p e"
| "post heap (DataBaseEvent i c xs) e = PostDataBaseEvent heap i c xs (of_nat (length xs)) e"
| "post heap (NetworkAcceptEvent i a) e = PostNetworkAcceptEvent heap i a e"
| "post heap (NetworkReadEvent i c xs) e = PostNetworkReadEvent heap i c xs (of_nat (length xs)) e"
| "post heap (NetworkShutEvent i a t) e = PostNetworkShutEvent heap i a t e"
| "post heap (TCPSocketReadEvent i c xs) e = PostTCPSocketReadEvent heap i c xs (of_nat (length xs)) e"
| "post heap (TCPSocketShutEvent i r) e = PostTCPSocketShutEvent heap i r e"
| "post heap (TCPSocketLinkEvent i r) e = PostTCPSocketLinkEvent heap i r e"

fun event_call :: "kernel_event \<Rightarrow> handler_call" where
  "event_call (TimerEvent i p) = OnEventTimer i p"
| "event_call (DataBaseEvent i c xs) = OnEventDataBase i c xs"
| "event_call (NetworkAcceptEvent i a) = OnEventTCPNetworkBind a i"
| "event_call (NetworkReadEvent i c xs) = OnEventTCPNetworkRead c xs i"
| "event_call (NetworkShutEvent i a t) = OnEventTCPNetworkShut a t i"
| "event_call (TCPSocketReadEvent i c xs) = OnEventTCPSocketRead i c xs"
| "event_call (TCPSocketShutEvent i r) = OnEventTCPSocketShut i r"
| "event_call (TCPSocketLinkEvent i r) = OnEventTCPSocketLink i r"

fun event_ident :: "kernel_event \<Rightarrow> uint16" where
  "event_ident (TimerEvent i p) = EVENT_TIMER"
| "event_ident (DataBaseEvent i c xs) = EVENT_DATABASE"
| "event_ident (NetworkAcceptEvent i a) = EVENT_TCP_NETWORK_ACCEPT"
| "event_ident (NetworkReadEvent i c xs) = EVENT_TCP_NETWORK_READ"
| "event_ident (NetworkShutEvent i a t) = EVENT_TCP_NETWORK_SHUT"
| "event_ident (TCPSocketReadEvent i c xs) = EVENT_TCP_SOCKET_READ"
| "event_ident (TCPSocketShutEvent i r) = EVENT_TCP_SOCKET_SHUT"
| "event_ident (TCPSocketLinkEvent i r) = EVENT_TCP_SOCKET_LINK"

text \<open>The connection that is closed when the handler fails, if any.\<close>

fun event_close :: "kernel_event \<Rightarrow> sink_action list" where
  "event_close (TimerEvent i p) = []"
| "event_close (DataBaseEvent i c xs) = []"
| "event_close (NetworkAcceptEvent i a) = [CloseNetworkSocket i]"
| "event_close (NetworkReadEvent i c xs) = [CloseNetworkSocket i]"
| "event_close (NetworkShutEvent i a t) = [CloseNetworkSocket i]"
| "event_close (TCPSocketReadEvent i c xs) = [CloseTCPSocket]"
| "event_close (TCPSocketShutEvent i r) = [CloseTCPSocket]"
| "event_close (TCPSocketLinkEvent i r) = [CloseTCPSocket]"

definition event_actions :: "(handler_call \<Rightarrow> bool option) \<Rightarrow> kernel_event \<Rightarrow> sink_action list" where
  "event_actions h ev = Call (event_call ev) # (if h (event_call ev) = Some True then [] else event_close ev)"

text \<open>The data leaves room for the structure in the buffer.\<close>

fun event_ok :: "kernel_event \<Rightarrow> bool" where
  "event_ok (DataBaseEvent i c xs) = (length xs + 8 \<le> MAX_ASYNCHRONISM_DATA)"
| "event_ok (NetworkReadEvent i c xs) = (length xs + 12 \<le> MAX_ASYNCHRONISM_DATA)"
| "event_ok (TCPSocketReadEvent i c xs) = (length xs + 8 \<le> MAX_ASYNCHRONISM_DATA)"
| "event_ok _ = True"

lemma length_le_word [simp]: "length (le_word (w :: 'a::len word)) = LENGTH('a) div 8"
  by (simp add: le_word_def)

lemma word_of_le_uint [simp]:
  "word_of_int (le_uint (le_word (a :: byte))) = a"
  "word_of_int (le_uint (le_word (b :: uint16))) = b"
  "word_of_int (le_uint (le_word (c :: uint32))) = c"
  using uint_lt2p [of a] uint_lt2p [of b] uint_lt2p [of c]
  by (simp_all add: le_word_def le_uint_le_bytes)

lemma TCP_Command_eta [simp]: "\<lparr>wMainCmdID = wMainCmdID c, wSubCmdID = wSubCmdID c\<rparr> = c"
  by (cases c) simp

lemma block_split:
  assumes "12 \<le> length b"
  obtains a0 a1 a2 a3 a4 a5 rest where "b = a0 @ a1 @ a2 @ a3 @ a4 @ a5 @ rest"
    "length a0 = 2" "length a1 = 2" "length a2 = 2" "length a3 = 2" "length a4 = 2" "length a5 = 2"
proof -
  have s: "drop k b = take 2 (drop k b) @ drop (k + 2) b" for k
    by (metis append_take_drop_id drop_drop add.commute)
  have "b = take 2 (drop 0 b) @ take 2 (drop 2 b) @ take 2 (drop 4 b) @ take 2 (drop 6 b) @ take 2 (drop 8 b) @ take 2 (drop 10 b) @ drop 12 b"
    using s [of 0] s [of 2] s [of 4] s [of 6] s [of 8] s [of 10] by simp
  then show thesis by (rule that) (use assms in simp_all)
qed

text \<open>The packet of an event, given the bytes that were in the buffer before.\<close>

fun event_bytes :: "byte list \<Rightarrow> kernel_event \<Rightarrow> byte list" where
  "event_bytes pad (TimerEvent i p) = le_word i @ le_word p"
| "event_bytes pad (DataBaseEvent i c xs) = le_word i @ take 2 (drop 2 pad) @ le_word c @ xs"
| "event_bytes pad (NetworkAcceptEvent i a) = le_word i @ le_word a"
| "event_bytes pad (NetworkReadEvent i c xs) = le_word (of_nat (length xs) :: uint16) @ take 2 (drop 2 pad) @ le_word i @ le_command c @ xs"
| "event_bytes pad (NetworkShutEvent i a t) = le_word i @ le_word a @ le_word t"
| "event_bytes pad (TCPSocketReadEvent i c xs) = le_word (of_nat (length xs) :: uint16) @ le_word i @ le_command c @ xs"
| "event_bytes pad (TCPSocketShutEvent i r) = le_word i @ le_word r @ take 1 (drop 3 pad)"
| "event_bytes pad (TCPSocketLinkEvent i r) = le_word r @ le_word i @ take 2 (drop 6 pad)"

lemma sink_event_bytes:
  assumes "event_ok ev" "12 \<le> length pad"
  shows "OnQueueServiceSink h True (event_ident ev) (event_bytes pad ev) = Some (event_actions h ev)"
  using assms
  by (cases ev) (simp_all add: OnQueueServiceSink_def event_ids sink_timer_def sink_database_def sink_network_accept_def
      sink_network_read_def sink_network_shut_def sink_socket_read_def sink_socket_shut_def sink_socket_link_def
      call_or_close_def event_actions_def field_def field_command_def le_command_def mem_read_def MAX_ASYNCHRONISM_DATA_def unat_of_nat)

lemma AddToQueue_prefix:
  assumes "unat n \<le> length b"
  shows "AddToQueue heap ident b n s = AddToQueue heap ident (take (unat n) b) n s"
proof -
  have "mem_read 0 (unat n) b = mem_read 0 (unat n) (take (unat n) b)" using assms by (simp add: mem_read_def)
  then show ?thesis unfolding AddToQueue_def InsertData_def by (simp only:)
qed

lemma post_event_adds:
  assumes "write_fields ws (m_cbBuffer e) = Some (xs @ rest)" "unat n = length xs"
  shows "post_event heap ident ws n e = do {
    (r, s) \<leftarrow> AddToQueue heap ident xs n (m_pIQueueService e);
    Some (r, e\<lparr>m_cbBuffer := xs @ rest, m_pIQueueService := s\<rparr>) }"
  using assms AddToQueue_prefix [of n "xs @ rest" heap ident "m_pIQueueService e"] by (simp add: post_event_def)

fun event_fields :: "kernel_event \<Rightarrow> (nat \<times> byte list) list" where
  "event_fields (TimerEvent i p) = [(0, le_word i), (4, le_word p)]"
| "event_fields (DataBaseEvent i c xs) = [(0, le_word i), (4, le_word c), (8, xs)]"
| "event_fields (NetworkAcceptEvent i a) = [(0, le_word i), (4, le_word a)]"
| "event_fields (NetworkReadEvent i c xs) = [(4, le_word i), (8, le_command c), (0, le_word (of_nat (length xs) :: uint16)), (12, xs)]"
| "event_fields (NetworkShutEvent i a t) = [(0, le_word i), (8, le_word t), (4, le_word a)]"
| "event_fields (TCPSocketReadEvent i c xs) = [(0, le_word (of_nat (length xs) :: uint16)), (2, le_word i), (4, le_command c), (8, xs)]"
| "event_fields (TCPSocketShutEvent i r) = [(0, le_word i), (2, le_word r)]"
| "event_fields (TCPSocketLinkEvent i r) = [(4, le_word i), (0, le_word r)]"

lemma write_event_fields:
  assumes "event_ok ev" "length pad = MAX_ASYNCHRONISM_DATA"
  shows "\<exists>rest. write_fields (event_fields ev) pad = Some (event_bytes pad ev @ rest) \<and>
    length (event_bytes pad ev @ rest) = MAX_ASYNCHRONISM_DATA"
proof -
  obtain a0 a1 a2 a3 a4 a5 rest where b: "pad = a0 @ a1 @ a2 @ a3 @ a4 @ a5 @ rest"
    and l: "length a0 = 2" "length a1 = 2" "length a2 = 2" "length a3 = 2" "length a4 = 2" "length a5 = 2"
    using block_split [of pad thesis] assms(2) by (simp add: MAX_ASYNCHRONISM_DATA_def)
  then show ?thesis using assms by (cases ev) (simp_all add: mem_write_def le_command_def MAX_ASYNCHRONISM_DATA_def)
qed

lemma event_bytes_fits: "event_ok ev \<Longrightarrow> 12 \<le> length pad \<Longrightarrow> length (event_bytes pad ev) \<le> MAX_ASYNCHRONISM_DATA"
  by (cases ev) (simp_all add: le_command_def MAX_ASYNCHRONISM_DATA_def)

lemma post_form:
  assumes "event_ok ev" "12 \<le> length pad"
  shows "post heap ev e = map_option (\<lambda>(_, e). (True, e))
    (post_event heap (event_ident ev) (event_fields ev) (of_nat (length (event_bytes pad ev))) e)"
proof -
  have r: "map_option (\<lambda>(_, e). (True, e)) (post_event heap ident ws n e) = post_event heap ident ws n e" for ident ws n
    by (cases "post_event heap ident ws n e") (auto simp: post_event_def AddToQueue_def split: bind_splits)
  have b: "Option.bind x (\<lambda>(_, e). Some (True, e)) = map_option (\<lambda>(_, e). (True, e)) x" for x :: "(bool \<times> queue_event) option"
    by (cases x) auto
  show ?thesis using assms
    by (cases ev) (simp_all add: PostTimerEvent_def PostDataBaseEvent_def PostNetworkAcceptEvent_def PostNetworkReadEvent_def
      PostNetworkShutEvent_def PostTCPSocketReadEvent_def PostTCPSocketShutEvent_def PostTCPSocketLinkEvent_def
      mem_read_def le_command_def MAX_ASYNCHRONISM_DATA_def unat_of_nat r b)
qed

text \<open>Posting an event is adding its packet to the queue.\<close>

lemma post_adds:
  assumes ok: "event_ok ev" and len: "length (m_cbBuffer e) = MAX_ASYNCHRONISM_DATA"
  shows "\<exists>b. length b = MAX_ASYNCHRONISM_DATA \<and>
    post heap ev e = do {
      (r, s) \<leftarrow> AddToQueue heap (event_ident ev) (event_bytes (m_cbBuffer e) ev) (of_nat (length (event_bytes (m_cbBuffer e) ev))) (m_pIQueueService e);
      Some (True, e\<lparr>m_cbBuffer := b, m_pIQueueService := s\<rparr>) }"
proof -
  let ?xs = "event_bytes (m_cbBuffer e) ev"
  have l: "12 \<le> length (m_cbBuffer e)" using len by (simp add: MAX_ASYNCHRONISM_DATA_def)
  obtain rest where rest: "write_fields (event_fields ev) (m_cbBuffer e) = Some (?xs @ rest)" "length (?xs @ rest) = MAX_ASYNCHRONISM_DATA"
    using write_event_fields [OF ok len] by blast
  have "unat (of_nat (length ?xs) :: uint16) = length ?xs"
    using event_bytes_fits [OF ok l] by (simp add: unat_of_nat MAX_ASYNCHRONISM_DATA_def)
  from post_event_adds [OF rest(1) this, of heap "event_ident ev"] show ?thesis
    using post_form [OF ok l, of heap e] rest(2) by (intro exI [of _ "?xs @ rest"]) (auto split: bind_splits)
qed

section \<open>From the poster to the handler\<close>

text \<open>The sizes are WORDs.\<close>

fun event_typed :: "kernel_event \<Rightarrow> bool" where
  "event_typed (DataBaseEvent i c xs) = (length xs < 2 ^ 16)"
| "event_typed (NetworkReadEvent i c xs) = (length xs < 2 ^ 16)"
| "event_typed (TCPSocketReadEvent i c xs) = (length xs < 2 ^ 16)"
| "event_typed _ = True"

text \<open>An event that does not fit the buffer is refused without effect.\<close>

lemma post_refused: "\<not> event_ok ev \<Longrightarrow> event_typed ev \<Longrightarrow> post heap ev e = Some (False, e)"
  by (cases ev) (auto simp: PostDataBaseEvent_def PostNetworkReadEvent_def PostTCPSocketReadEvent_def unat_of_nat)

text \<open>The queue takes the packet of the event. The poster does not see a failed insertion.\<close>

definition event_accepted :: "heap \<Rightarrow> kernel_event \<Rightarrow> queue_event \<Rightarrow> bool" where
  "event_accepted heap ev e \<longleftrightarrow> event_ok ev \<and>
     map_option fst (put_packet heap (m_DataQueue (m_pIQueueService e)) (event_ident ev, event_bytes (m_cbBuffer e) ev)) = Some True"

text \<open>A schedule of the posters and the service thread: which events are posted, and when the thread makes a
  step. The result are the accepted events in order.\<close>

datatype ev_action = Post kernel_event | SinkStep

fun ev_run :: "heap \<Rightarrow> ev_action list \<Rightarrow> queue_event \<Rightarrow> (kernel_event list \<times> queue_event) option" where
  "ev_run heap [] e = Some ([], e)"
| "ev_run heap (Post ev # as) e = do {
     (_, e') \<leftarrow> post heap ev e;
     (evs, e'') \<leftarrow> ev_run heap as e';
     Some (if event_accepted heap ev e then ev # evs else evs, e'')
   }"
| "ev_run heap (SinkStep # as) e = do { s \<leftarrow> thread_step (m_pIQueueService e); ev_run heap as (e\<lparr>m_pIQueueService := s\<rparr>) }"

text \<open>No event is posted while the positions of the queue coincide with packets in it.\<close>

fun ev_ready :: "heap \<Rightarrow> ev_action list \<Rightarrow> queue_event \<Rightarrow> bool" where
  "ev_ready heap [] e = True"
| "ev_ready heap (Post ev # as) e = (event_typed ev \<and> \<not> queue_ambiguous (m_DataQueue (m_pIQueueService e)) \<and>
     (case post heap ev e of None \<Rightarrow> True | Some (_, e) \<Rightarrow> ev_ready heap as e))"
| "ev_ready heap (SinkStep # as) e = (case thread_step (m_pIQueueService e) of None \<Rightarrow> True
     | Some s \<Rightarrow> ev_ready heap as (e\<lparr>m_pIQueueService := s\<rparr>))"

definition carries :: "packet \<Rightarrow> kernel_event \<Rightarrow> bool" where
  "carries p ev \<longleftrightarrow> (\<forall>h. OnQueueServiceSink h True (fst p) (snd p) = Some (event_actions h ev))"

lemma post_carries:
  assumes "event_ok ev" "length (m_cbBuffer e) = MAX_ASYNCHRONISM_DATA"
  shows "event_fits (event_ident ev, event_bytes (m_cbBuffer e) ev)" "carries (event_ident ev, event_bytes (m_cbBuffer e) ev) ev"
proof -
  have l: "12 \<le> length (m_cbBuffer e)" using assms(2) by (simp add: MAX_ASYNCHRONISM_DATA_def)
  show "event_fits (event_ident ev, event_bytes (m_cbBuffer e) ev)" using event_bytes_fits [OF assms(1) l] by (simp add: event_fits_def)
  show "carries (event_ident ev, event_bytes (m_cbBuffer e) ev) ev" using sink_event_bytes [OF assms(1) l] by (simp add: carries_def)
qed

text \<open>The invariant of the queue service, with the events that its packets carry.\<close>

definition ev_inv :: "kernel_event list \<Rightarrow> queue_event \<Rightarrow> bool" where
  "ev_inv evs e \<longleftrightarrow> length (m_cbBuffer e) = MAX_ASYNCHRONISM_DATA \<and>
     (\<exists>ps qs. qs_inv ps qs (m_pIQueueService e) \<and> list_all2 carries ps evs)"

lemma ev_inv_post:
  assumes "ev_inv evs e" "event_typed ev" "\<not> queue_ambiguous (m_DataQueue (m_pIQueueService e))"
  shows "\<exists>r e'. post heap ev e = Some (r, e') \<and> ev_inv (if event_accepted heap ev e then evs @ [ev] else evs) e'"
proof (cases "event_ok ev")
  case False
  then show ?thesis using post_refused [OF False assms(2)] assms(1) by (auto simp: event_accepted_def intro: exI [of _ False])
next
  case True
  let ?p = "(event_ident ev, event_bytes (m_cbBuffer e) ev)"
  have len: "length (m_cbBuffer e) = MAX_ASYNCHRONISM_DATA" using assms(1) by (simp add: ev_inv_def)
  obtain ps qs where i: "qs_inv ps qs (m_pIQueueService e)" "list_all2 carries ps evs" using assms(1) by (auto simp: ev_inv_def)
  note pc = post_carries [OF True len]
  obtain ok q s where s: "put_packet heap (m_DataQueue (m_pIQueueService e)) ?p = Some (ok, q)"
    "AddToQueue heap (fst ?p) (snd ?p) (of_nat (length (snd ?p))) (m_pIQueueService e) = Some (True, s)"
    "qs_inv (if ok then ps @ [?p] else ps) (if ok then qs @ [?p] else qs) s"
    using qs_inv_add [OF i(1) pc(1) assms(3), of heap] by blast
  obtain b where b: "length b = MAX_ASYNCHRONISM_DATA" "post heap ev e = Some (True, e\<lparr>m_cbBuffer := b, m_pIQueueService := s\<rparr>)"
    using post_adds [OF True len, of heap] s(2) by auto
  have ok: "event_accepted heap ev e = ok" using True s(1) by (simp add: event_accepted_def)
  have "list_all2 carries (if ok then ps @ [?p] else ps) (if ok then evs @ [ev] else evs)"
    using i(2) pc(2) by (simp add: list_all2_appendI)
  then have "ev_inv (if ok then evs @ [ev] else evs) (e\<lparr>m_cbBuffer := b, m_pIQueueService := s\<rparr>)"
    using b(1) s(3) unfolding ev_inv_def by auto
  then show ?thesis using b(2) ok by auto
qed

lemma ev_run_inv:
  "ev_inv evs e \<Longrightarrow> ev_ready heap as e \<Longrightarrow> \<exists>evs' e'. ev_run heap as e = Some (evs', e') \<and> ev_inv (evs @ evs') e'"
proof (induction as arbitrary: evs e)
  case (Cons a as)
  show ?case
  proof (cases a)
    case (Post ev)
    then obtain r e1 where e1: "post heap ev e = Some (r, e1)" "ev_inv (if event_accepted heap ev e then evs @ [ev] else evs) e1"
      using ev_inv_post [OF Cons.prems(1), of ev heap] Cons.prems(2) by auto
    have "ev_ready heap as e1" using Cons.prems(2) Post e1(1) by simp
    then obtain evs' e' where "ev_run heap as e1 = Some (evs', e')" "ev_inv ((if event_accepted heap ev e then evs @ [ev] else evs) @ evs') e'"
      using Cons.IH [OF e1(2)] by blast
    then show ?thesis using Post e1(1) by auto
  next
    case SinkStep
    obtain ps qs where i: "qs_inv ps qs (m_pIQueueService e)" "list_all2 carries ps evs" "length (m_cbBuffer e) = MAX_ASYNCHRONISM_DATA"
      using Cons.prems(1) by (auto simp: ev_inv_def)
    obtain s qs' where s: "thread_step (m_pIQueueService e) = Some s" "qs_inv ps qs' s" using thread_step_delivers [OF i(1)] by blast
    then have "ev_inv evs (e\<lparr>m_pIQueueService := s\<rparr>)" using i(2,3) by (auto simp: ev_inv_def)
    then show ?thesis using Cons.IH [of evs "e\<lparr>m_pIQueueService := s\<rparr>"] Cons.prems(2) SinkStep s(1) by simp
  qed
qed simp

lemma ev_inv_start: "length b = MAX_ASYNCHRONISM_DATA \<Longrightarrow> ev_inv [] \<lparr>m_cbBuffer = b, m_pIQueueService = qs_started\<rparr>"
  using qs_inv_start by (fastforce simp: ev_inv_def)

text \<open>Property C3: from the poster to the handler. For every schedule of posters and service thread in which no event is
  posted while the positions of the queue coincide with packets in it, nothing fails, and the attemper
  engine performs, for a prefix of the accepted events and in their order, exactly the call of the
  handler that belongs to the event, with the arguments that were posted, and closes the connection
  of the event when the handler fails. No read of the sink leaves the packet.\<close>
theorem events_reach_handlers:
  assumes "length b = MAX_ASYNCHRONISM_DATA" "ev_ready heap acts \<lparr>m_cbBuffer = b, m_pIQueueService = qs_started\<rparr>"
  shows "\<exists>evs e. ev_run heap acts \<lparr>m_cbBuffer = b, m_pIQueueService = qs_started\<rparr> = Some (evs, e) \<and>
    (\<exists>n \<le> length evs. map (\<lambda>(ident, xs). OnQueueServiceSink h True ident xs) (sink_log (m_pIQueueService e)) =
      map (\<lambda>ev. Some (event_actions h ev)) (take n evs))"
proof -
  obtain evs e where r: "ev_run heap acts \<lparr>m_cbBuffer = b, m_pIQueueService = qs_started\<rparr> = Some (evs, e)" "ev_inv evs e"
    using ev_run_inv [OF ev_inv_start [OF assms(1)] assms(2)] by auto
  then obtain ps qs where i: "qs_inv ps qs (m_pIQueueService e)" "list_all2 carries ps evs" by (auto simp: ev_inv_def)
  let ?log = "sink_log (m_pIQueueService e)"
  have ps: "ps = ?log @ in_flight (m_pIQueueService e) @ qs" using i(1) by (simp add: qs_inv_def)
  then have "list_all2 carries ?log (take (length ?log) evs)" using i(2) list_all2_takeI [of carries ps evs "length ?log"] by simp
  then have "map (\<lambda>(ident, xs). OnQueueServiceSink h True ident xs) ?log = map (\<lambda>ev. Some (event_actions h ev)) (take (length ?log) evs)"
    by (induction rule: list_all2_induct) (auto simp: carries_def)
  moreover have "length ?log \<le> length evs" using ps i(2) by (auto dest: list_all2_lengthD)
  ultimately show ?thesis using r(1) by blast
qed

theorem events_reach_handlers_witness:
  "\<exists>evs e. ev_run (\<lambda>n. Some (\<lambda>_. 0)) [Post (TimerEvent 7 9), SinkStep]
      \<lparr>m_cbBuffer = replicate MAX_ASYNCHRONISM_DATA 0, m_pIQueueService = qs_started\<rparr> = Some (evs, e) \<and>
    (\<exists>n \<le> length evs. map (\<lambda>(ident, xs). OnQueueServiceSink (\<lambda>c. Some True) True ident xs) (sink_log (m_pIQueueService e)) =
      map (\<lambda>ev. Some (event_actions (\<lambda>c. Some True) ev)) (take n evs))"
proof (rule events_reach_handlers)
  have "m_DataQueue qs_started = CYSDataQueue" by (simp add: qs_started_def qs_StartService_def SetQueueServiceSink_def CQueueService_def Let_def)
  then have "\<not> queue_ambiguous (m_DataQueue qs_started)" by (simp add: queue_ambiguous_def CYSDataQueue_def)
  then show "ev_ready (\<lambda>n. Some (\<lambda>_. 0)) [Post (TimerEvent 7 9), SinkStep]
      \<lparr>m_cbBuffer = replicate MAX_ASYNCHRONISM_DATA 0, m_pIQueueService = qs_started\<rparr>"
    by (simp split: option.split)
qed simp

text \<open>A control request of the database engine carries its identifier and data, and a request whose data
  does not leave room for the identifier is refused without effect.\<close>

lemma control_request_packet:
  assumes "length (m_cbBuffer e) = MAX_ASYNCHRONISM_DATA" "length xs < 2 ^ 16"
  shows "length xs + 2 > MAX_ASYNCHRONISM_DATA \<Longrightarrow> PostControlEvent heap i xs (of_nat (length xs)) e = Some (False, e)"
    "db_OnQueueServiceSink throws True sinks EVENT_CONTROL (le_word i @ xs) =
       Some (until_throw (\<lambda>k. throws k (OnDataBaseEngineControl i xs)) (map (\<lambda>k. (k, OnDataBaseEngineControl i xs)) [0..<sinks]))"
  using assms by (simp_all add: PostControlEvent_def unat_of_nat db_OnQueueServiceSink_def Let_def event_ids field_def mem_read_def)

end
