(* ===== verification/Timer_Engine.thy ===== *)
theory Timer_Engine
  imports Kernel_Events
begin

text \<open>
  The timer engine \<open>CTimerEngine\<close> of the kernel engine (\<open>TimerEngine.cpp\<close>). Times are the 32-bit
  millisecond counter of \<open>GetTickCount\<close>, which wraps after 49.7 days, and the arithmetic on them wraps
  as in the source. A timer item belongs to exactly one of the two arrays, so the arrays hold the
  items themselves. The timer thread posts a kernel event for every timer that is due; the events of
  one tick are returned in the order in which they are posted.
\<close>

section \<open>The engine\<close>

record tagTimerItem =
  wTimerID :: uint32
  dwElapse :: uint32
  dwDestTime :: uint32
  dwRepeatTimes :: uint32
  wBindParam :: uint32

record timer_engine =
  te_bService :: bool
  m_TimerItemFree :: "tagTimerItem list"
  m_TimerItemActive :: "tagTimerItem list"

definition TIMER_SPACE :: uint32 where "TIMER_SPACE = 25"
definition TIMER_LEAD :: uint32 where "TIMER_LEAD = TIMER_SPACE * 20"
definition TIMES_INFINITY :: uint32 where "TIMES_INFINITY = - 1"

definition CTimerEngine :: timer_engine where
  "CTimerEngine = \<lparr>te_bService = False, m_TimerItemFree = [], m_TimerItemActive = []\<rparr>"

text \<open>The search from the end of the active array.\<close>

fun find_timer :: "uint32 \<Rightarrow> tagTimerItem list \<Rightarrow> nat \<Rightarrow> nat option" where
  "find_timer i items 0 = None"
| "find_timer i items (Suc k) = (if wTimerID (items ! k) = i then Some k else find_timer i items k)"

text \<open>How far the next notification is away: the last one comes 20 grains early.\<close>

definition next_delay :: "tagTimerItem \<Rightarrow> uint32" where
  "next_delay it =
     (if dwRepeatTimes it = 1 then
        if dwElapse it > TIMER_SPACE + TIMER_LEAD then dwElapse it - TIMER_LEAD else TIMER_SPACE
      else dwElapse it)"

definition set_item :: "uint32 \<Rightarrow> uint32 \<Rightarrow> uint32 \<Rightarrow> uint32 \<Rightarrow> uint32 \<Rightarrow> tagTimerItem" where
  "set_item i elapse rep param now =
     (let it = \<lparr>wTimerID = i, dwElapse = elapse - elapse mod TIMER_SPACE, dwDestTime = now, dwRepeatTimes = rep, wBindParam = param\<rparr>
      in it\<lparr>dwDestTime := dwDestTime it + next_delay it\<rparr>)"

text \<open>\<open>SetTimer\<close> at time \<open>now\<close>; \<open>new_ok\<close> is the outcome of \<open>new\<close>, when it is needed.\<close>

definition SetTimer :: "uint32 \<Rightarrow> bool \<Rightarrow> uint32 \<Rightarrow> uint32 \<Rightarrow> uint32 \<Rightarrow> uint32 \<Rightarrow> timer_engine \<Rightarrow> bool \<times> timer_engine" where
  "SetTimer now new_ok i elapse rep param e =
     (if rep = 0 then (False, e)
      else let it = set_item i elapse rep param now in
        case find_timer i (m_TimerItemActive e) (length (m_TimerItemActive e)) of
          Some k \<Rightarrow> (True, e\<lparr>m_TimerItemActive := (m_TimerItemActive e)[k := it]\<rparr>)
        | None \<Rightarrow>
            if m_TimerItemFree e \<noteq> [] then
              (True, e\<lparr>m_TimerItemFree := butlast (m_TimerItemFree e), m_TimerItemActive := m_TimerItemActive e @ [it]\<rparr>)
            else if new_ok then (True, e\<lparr>m_TimerItemActive := m_TimerItemActive e @ [it]\<rparr>)
            else (False, e))"

definition KillTimer :: "uint32 \<Rightarrow> timer_engine \<Rightarrow> bool \<times> timer_engine" where
  "KillTimer i e = (case find_timer i (m_TimerItemActive e) (length (m_TimerItemActive e)) of
     Some k \<Rightarrow> (True, e\<lparr>m_TimerItemActive := remove_at k (m_TimerItemActive e), m_TimerItemFree := m_TimerItemFree e @ [m_TimerItemActive e ! k]\<rparr>)
   | None \<Rightarrow> (False, e))"

definition KillAllTimer :: "timer_engine \<Rightarrow> bool \<times> timer_engine" where
  "KillAllTimer e = (True, e\<lparr>m_TimerItemFree := m_TimerItemFree e @ m_TimerItemActive e, m_TimerItemActive := []\<rparr>)"

text \<open>\<open>StartService\<close> and \<open>ConcludeService\<close>; the flags are the outcomes of preparing and starting the thread.\<close>

definition te_StartService :: "bool \<Rightarrow> bool \<Rightarrow> timer_engine \<Rightarrow> bool \<times> timer_engine" where
  "te_StartService init_ok start_ok e =
     (if te_bService e then (True, e)
      else if \<not> init_ok then (False, e)
      else if \<not> start_ok then (False, e)
      else (True, e\<lparr>te_bService := True\<rparr>))"

definition te_ConcludeService :: "timer_engine \<Rightarrow> bool \<times> timer_engine" where
  "te_ConcludeService e = (True, e\<lparr>te_bService := False, m_TimerItemFree := m_TimerItemFree e @ m_TimerItemActive e, m_TimerItemActive := []\<rparr>)"

text \<open>One tick of the timer thread: the loop runs over the active array from its end and removes a timer
  whose last notification has been posted.\<close>

fun tick_loop :: "uint32 \<Rightarrow> nat \<Rightarrow> timer_engine \<Rightarrow> kernel_event list \<times> timer_engine" where
  "tick_loop now 0 e = ([], e)"
| "tick_loop now (Suc k) e =
     (let it = m_TimerItemActive e ! k in
      if now \<ge> dwDestTime it then
        let ev = TimerEvent (wTimerID it) (wBindParam it);
            it' = (if dwRepeatTimes it \<noteq> TIMES_INFINITY then it\<lparr>dwRepeatTimes := dwRepeatTimes it - 1\<rparr> else it);
            e' = (if dwRepeatTimes it \<noteq> TIMES_INFINITY \<and> dwRepeatTimes it' = 0
                  then e\<lparr>m_TimerItemActive := remove_at k (m_TimerItemActive e), m_TimerItemFree := m_TimerItemFree e @ [it']\<rparr>
                  else e\<lparr>m_TimerItemActive := (m_TimerItemActive e)[k := it'\<lparr>dwDestTime := dwDestTime it' + next_delay it'\<rparr>]\<rparr>);
            (evs, e'') = tick_loop now k e'
        in (ev # evs, e'')
      else tick_loop now k e)"

definition OnTimerThreadSink :: "uint32 \<Rightarrow> timer_engine \<Rightarrow> kernel_event list \<times> timer_engine" where
  "OnTimerThreadSink now e = tick_loop now (length (m_TimerItemActive e)) e"

section \<open>What a tick does to one timer\<close>

definition due :: "uint32 \<Rightarrow> tagTimerItem \<Rightarrow> bool" where
  "due now it = (now \<ge> dwDestTime it)"

definition timer_event :: "tagTimerItem \<Rightarrow> kernel_event" where
  "timer_event it = TimerEvent (wTimerID it) (wBindParam it)"

definition count_down :: "tagTimerItem \<Rightarrow> tagTimerItem" where
  "count_down it = (if dwRepeatTimes it = TIMES_INFINITY then it else it\<lparr>dwRepeatTimes := dwRepeatTimes it - 1\<rparr>)"

definition expires :: "uint32 \<Rightarrow> tagTimerItem \<Rightarrow> bool" where
  "expires now it \<longleftrightarrow> due now it \<and> dwRepeatTimes it = 1"

definition after_tick :: "uint32 \<Rightarrow> tagTimerItem \<Rightarrow> tagTimerItem" where
  "after_tick now it = (if due now it then (count_down it)\<lparr>dwDestTime := dwDestTime it + next_delay (count_down it)\<rparr> else it)"

lemma tick_loop_spec:
  assumes "k \<le> length (m_TimerItemActive e)"
  shows "tick_loop now k e =
    (map timer_event (filter (due now) (rev (take k (m_TimerItemActive e)))),
     e\<lparr>m_TimerItemActive := map (after_tick now) (filter (\<lambda>it. \<not> expires now it) (take k (m_TimerItemActive e))) @ drop k (m_TimerItemActive e),
       m_TimerItemFree := m_TimerItemFree e @ map count_down (rev (filter (expires now) (take k (m_TimerItemActive e))))\<rparr>)"
  using assms
proof (induction k arbitrary: e)
  case (Suc k)
  let ?A = "m_TimerItemActive e"
  define it where "it = ?A ! k"
  have k: "k < length ?A" using Suc.prems by simp
  have t: "take (Suc k) ?A = take k ?A @ [it]" "drop k ?A = it # drop (Suc k) ?A"
    using k by (simp_all add: it_def take_Suc_conv_app_nth Cons_nth_drop_Suc)
  consider (idle) "\<not> due now it" | (last) "due now it" "dwRepeatTimes it = 1" | (more) "due now it" "dwRepeatTimes it \<noteq> 1" by blast
  then show ?case
  proof cases
    case idle
    then have "tick_loop now (Suc k) e = tick_loop now k e" by (simp add: due_def Let_def it_def)
    then show ?thesis using Suc.IH [of e] k t idle by (simp add: expires_def after_tick_def)
  next
    case last
    let ?e = "e\<lparr>m_TimerItemActive := remove_at k ?A, m_TimerItemFree := m_TimerItemFree e @ [count_down it]\<rparr>"
    have "tick_loop now (Suc k) e = (let (evs, e') = tick_loop now k ?e in (timer_event it # evs, e'))"
      using last by (simp add: due_def Let_def it_def [symmetric] timer_event_def count_down_def TIMES_INFINITY_def)
    moreover have "take k (remove_at k ?A) = take k ?A" "drop k (remove_at k ?A) = drop (Suc k) ?A" "k \<le> length (remove_at k ?A)"
      using k by (simp_all add: remove_at_def)
    ultimately show ?thesis using Suc.IH [of ?e] t last by (simp add: expires_def)
  next
    case more
    let ?e = "e\<lparr>m_TimerItemActive := ?A[k := after_tick now it]\<rparr>"
    have "dwRepeatTimes (it\<lparr>dwRepeatTimes := dwRepeatTimes it - 1\<rparr>) \<noteq> 0" using more by simp
    then have "tick_loop now (Suc k) e = (let (evs, e') = tick_loop now k ?e in (timer_event it # evs, e'))"
      using more by (simp add: due_def Let_def it_def [symmetric] timer_event_def count_down_def after_tick_def)
    moreover have "drop k (?A[k := after_tick now it]) = after_tick now it # drop (Suc k) ?A"
      using k by (simp add: upd_conv_take_nth_drop)
    ultimately show ?thesis using Suc.IH [of ?e] k t more by (simp add: expires_def)
  qed
qed simp

lemma OnTimerThreadSink_spec:
  "OnTimerThreadSink now e =
    (map timer_event (filter (due now) (rev (m_TimerItemActive e))),
     e\<lparr>m_TimerItemActive := map (after_tick now) (filter (\<lambda>it. \<not> expires now it) (m_TimerItemActive e)),
       m_TimerItemFree := m_TimerItemFree e @ map count_down (rev (filter (expires now) (m_TimerItemActive e)))\<rparr>)"
  by (simp add: OnTimerThreadSink_def tick_loop_spec)

section \<open>The invariant\<close>

definition timer_inv :: "timer_engine \<Rightarrow> bool" where
  "timer_inv e \<longleftrightarrow> distinct (map wTimerID (m_TimerItemActive e)) \<and>
     list_all (\<lambda>it. dwRepeatTimes it \<noteq> 0 \<and> dwElapse it mod TIMER_SPACE = 0) (m_TimerItemActive e)"

lemma find_timer_spec:
  "k \<le> length items \<Longrightarrow> case find_timer i items k of
     None \<Rightarrow> i \<notin> wTimerID ` set (take k items)
   | Some j \<Rightarrow> j < k \<and> wTimerID (items ! j) = i"
proof (induction k)
  case (Suc k)
  then have "take (Suc k) items = take k items @ [items ! k]" by (simp add: take_Suc_conv_app_nth)
  then show ?case using Suc by (auto split: option.splits)
qed simp

lemmas find_timer_None = find_timer_spec [OF order_refl, unfolded take_all [OF order_refl]]

lemma set_item_fields [simp]: "wTimerID (set_item i el rep p now) = i" "dwRepeatTimes (set_item i el rep p now) = rep"
  "dwElapse (set_item i el rep p now) = el - el mod TIMER_SPACE" "wBindParam (set_item i el rep p now) = p"
  by (simp_all add: set_item_def Let_def)

lemma unat_elapse: "unat (el - el mod TIMER_SPACE) = unat el - unat el mod 25"
proof -
  have "unat (el mod TIMER_SPACE) = unat el mod 25" by (simp add: TIMER_SPACE_def unat_mod)
  then show ?thesis by (subst unat_sub) (simp_all add: word_le_nat_alt)
qed

lemma elapse_grain: "(el - el mod TIMER_SPACE) mod TIMER_SPACE = (0 :: uint32)"
proof -
  have "unat ((el - el mod TIMER_SPACE) mod TIMER_SPACE) = (unat el - unat el mod 25) mod 25"
    using unat_elapse [of el] by (simp add: unat_mod TIMER_SPACE_def)
  then show ?thesis by (simp add: word_unat_eq_iff minus_mod_eq_mult_div)
qed

lemma after_tick_fields [simp]: "wTimerID (after_tick now it) = wTimerID it" "dwElapse (after_tick now it) = dwElapse it"
  "wBindParam (after_tick now it) = wBindParam it"
  by (simp_all add: after_tick_def count_down_def)

lemma after_tick_repeats: "dwRepeatTimes it \<noteq> 0 \<Longrightarrow> \<not> expires now it \<Longrightarrow> dwRepeatTimes (after_tick now it) \<noteq> 0"
  by (auto simp: after_tick_def count_down_def expires_def TIMES_INFINITY_def)

lemma SetTimer_inv:
  assumes "timer_inv e"
  shows "timer_inv (snd (SetTimer now new_ok i el rep p e))"
proof (cases "rep = 0 \<or> (\<exists>k. find_timer i (m_TimerItemActive e) (length (m_TimerItemActive e)) = Some k)")
  case True
  then show ?thesis
  proof (elim disjE exE)
    fix k assume k: "find_timer i (m_TimerItemActive e) (length (m_TimerItemActive e)) = Some k"
    then have "k < length (m_TimerItemActive e)" "wTimerID (m_TimerItemActive e ! k) = i"
      using find_timer_None [of i "m_TimerItemActive e"] by simp_all
    then have "map wTimerID ((m_TimerItemActive e)[k := set_item i el rep p now]) = map wTimerID (m_TimerItemActive e)"
      by (simp add: map_update list_update_same_conv)
    moreover have "list_all (\<lambda>it. dwRepeatTimes it \<noteq> 0 \<and> dwElapse it mod TIMER_SPACE = 0) ((m_TimerItemActive e)[k := set_item i el rep p now])" if "rep \<noteq> 0"
      using assms that by (auto simp: timer_inv_def list_all_iff elapse_grain dest!: set_update_subset_insert [THEN subsetD])
    ultimately show ?thesis using assms k by (simp add: SetTimer_def timer_inv_def)
  qed (use assms in \<open>simp add: SetTimer_def\<close>)
next
  case False
  then have "i \<notin> wTimerID ` set (m_TimerItemActive e)" using find_timer_None [of i "m_TimerItemActive e"] by auto
  then show ?thesis using assms False by (auto simp: SetTimer_def timer_inv_def elapse_grain Let_def)
qed

lemma KillTimer_inv: "timer_inv e \<Longrightarrow> timer_inv (snd (KillTimer i e))"
  using set_remove_at [of _ "m_TimerItemActive e"]
  by (cases "find_timer i (m_TimerItemActive e) (length (m_TimerItemActive e))")
     (auto simp: KillTimer_def timer_inv_def distinct_remove_at list_all_iff dest!: subsetD)

lemma OnTimerThreadSink_inv:
  assumes "timer_inv e"
  shows "timer_inv (snd (OnTimerThreadSink now e))"
proof -
  have "map wTimerID (map (after_tick now) xs) = map wTimerID xs" for xs by (induction xs) simp_all
  then show ?thesis using assms
    by (auto simp: OnTimerThreadSink_spec timer_inv_def distinct_map_filter list_all_iff after_tick_repeats simp del: map_map)
qed

section \<open>Sequences of operations\<close>

datatype timer_op =
    OpSet uint32 bool uint32 uint32 uint32 uint32
  | OpKill uint32
  | OpKillAll
  | OpConclude
  | OpTick uint32

fun timer_step :: "timer_op \<Rightarrow> timer_engine \<Rightarrow> kernel_event list \<times> timer_engine" where
  "timer_step (OpSet now new_ok i el rep p) e = ([], snd (SetTimer now new_ok i el rep p e))"
| "timer_step (OpKill i) e = ([], snd (KillTimer i e))"
| "timer_step OpKillAll e = ([], snd (KillAllTimer e))"
| "timer_step OpConclude e = ([], snd (te_ConcludeService e))"
| "timer_step (OpTick now) e = OnTimerThreadSink now e"

fun timer_run :: "timer_op list \<Rightarrow> timer_engine \<Rightarrow> kernel_event list \<times> timer_engine" where
  "timer_run [] e = ([], e)"
| "timer_run (x # xs) e = (let (evs, e') = timer_step x e; (evs', e'') = timer_run xs e' in (evs @ evs', e''))"

lemma timer_step_inv: "timer_inv e \<Longrightarrow> timer_inv (snd (timer_step x e))"
  by (cases x) (simp_all add: SetTimer_inv KillTimer_inv OnTimerThreadSink_inv,
    simp_all add: KillAllTimer_def te_ConcludeService_def timer_inv_def)

lemma timer_run_inv: "timer_inv e \<Longrightarrow> timer_inv (snd (timer_run xs e))"
proof (induction xs arbitrary: e)
  case (Cons x xs)
  then show ?case using timer_step_inv [of e x] by (simp add: case_prod_beta Let_def)
qed simp

text \<open>The notifications of one timer.\<close>

definition events_of :: "uint32 \<Rightarrow> kernel_event list \<Rightarrow> kernel_event list" where
  "events_of i evs = filter (\<lambda>ev. case ev of TimerEvent j p \<Rightarrow> j = i | _ \<Rightarrow> False) evs"

lemma events_of_append [simp]: "events_of i (xs @ ys) = events_of i xs @ events_of i ys"
  by (simp add: events_of_def)

abbreviation ticks :: "uint32 list \<Rightarrow> timer_op list" where
  "ticks ts \<equiv> map OpTick ts"

lemma tick_silent:
  assumes "i \<notin> wTimerID ` set (m_TimerItemActive e)"
  shows "events_of i (fst (OnTimerThreadSink now e)) = []" "i \<notin> wTimerID ` set (m_TimerItemActive (snd (OnTimerThreadSink now e)))"
  using assms by (auto simp: OnTimerThreadSink_spec events_of_def timer_event_def filter_empty_conv)

lemma ticks_silent: "i \<notin> wTimerID ` set (m_TimerItemActive e) \<Longrightarrow> events_of i (fst (timer_run (ticks ts) e)) = []"
proof (induction ts arbitrary: e)
  case (Cons t ts)
  then show ?case using tick_silent [OF Cons.prems, of t] by (simp add: case_prod_beta Let_def)
qed (simp add: events_of_def)

lemma tick_events_of:
  assumes "timer_inv e" "it \<in> set (m_TimerItemActive e)"
  shows "events_of (wTimerID it) (fst (OnTimerThreadSink now e)) = (if due now it then [timer_event it] else [])"
proof -
  obtain xs ys where s: "m_TimerItemActive e = xs @ it # ys" using assms(2) by (meson split_list)
  then have n: "wTimerID it \<notin> wTimerID ` set xs" "wTimerID it \<notin> wTimerID ` set ys" using assms(1) by (auto simp: timer_inv_def)
  have "events_of (wTimerID it) (map timer_event (filter (due now) (rev zs))) = []" if "wTimerID it \<notin> wTimerID ` set zs" for zs
    using that by (auto simp: events_of_def timer_event_def filter_empty_conv) (metis imageI)
  then show ?thesis using n s by (simp add: OnTimerThreadSink_spec) (simp add: events_of_def timer_event_def)
qed

lemma timer_unique:
  "timer_inv e \<Longrightarrow> x \<in> set (m_TimerItemActive e) \<Longrightarrow> y \<in> set (m_TimerItemActive e) \<Longrightarrow> wTimerID y = wTimerID x \<Longrightarrow> y = x"
  by (auto simp: timer_inv_def distinct_map dest: inj_onD)

lemma repeat_counts:
  assumes "dwRepeatTimes it \<noteq> TIMES_INFINITY" "dwRepeatTimes it \<noteq> 0"
  shows "dwRepeatTimes (after_tick t it) \<noteq> TIMES_INFINITY \<and>
    unat (dwRepeatTimes (after_tick t it)) + (if due t it then 1 else 0) = unat (dwRepeatTimes it)"
proof -
  have "unat (dwRepeatTimes it) > 0" using assms(2) by (simp add: unat_gt_0)
  then show ?thesis using assms unat_minus_one [OF assms(2)]
    by (auto simp: after_tick_def count_down_def TIMES_INFINITY_def)
qed

lemma ticks_at_most:
  "timer_inv e \<Longrightarrow> it \<in> set (m_TimerItemActive e) \<Longrightarrow> dwRepeatTimes it \<noteq> TIMES_INFINITY \<Longrightarrow>
   length (events_of (wTimerID it) (fst (timer_run (ticks ts) e))) \<le> unat (dwRepeatTimes it)"
proof (induction ts arbitrary: e it)
  case (Cons t ts)
  let ?e = "snd (OnTimerThreadSink t e)"
  have inv: "timer_inv ?e" by (rule OnTimerThreadSink_inv [OF Cons.prems(1)])
  have r0: "dwRepeatTimes it \<noteq> 0" using Cons.prems(1,2) by (auto simp: timer_inv_def list_all_iff)
  have ev: "events_of (wTimerID it) (fst (timer_run (ticks (t # ts)) e)) =
      (if due t it then [timer_event it] else []) @ events_of (wTimerID it) (fst (timer_run (ticks ts) ?e))"
    using tick_events_of [OF Cons.prems(1,2), of t] by (simp add: case_prod_beta Let_def)
  show ?case
  proof (cases "expires t it")
    case True
    have "wTimerID it \<notin> wTimerID ` set (m_TimerItemActive ?e)"
    proof
      assume "wTimerID it \<in> wTimerID ` set (m_TimerItemActive ?e)"
      then obtain x where "x \<in> set (m_TimerItemActive e)" "\<not> expires t x" "wTimerID x = wTimerID it"
        by (auto simp: OnTimerThreadSink_spec)
      then show False using timer_unique [OF Cons.prems(1,2)] True by auto
    qed
    then show ?thesis using ticks_silent ev True by (simp add: expires_def)
  next
    case False
    have m: "after_tick t it \<in> set (m_TimerItemActive ?e)" using False Cons.prems(2) by (simp add: OnTimerThreadSink_spec)
    show ?thesis using Cons.IH [OF inv m] ev repeat_counts [OF Cons.prems(3) r0, of t] by (auto split: if_splits)
  qed
qed (simp add: events_of_def)

lemma KillTimer_removes:
  assumes "timer_inv e"
  shows "i \<notin> wTimerID ` set (m_TimerItemActive (snd (KillTimer i e)))"
proof (cases "find_timer i (m_TimerItemActive e) (length (m_TimerItemActive e))")
  case None
  then show ?thesis using find_timer_None [of i "m_TimerItemActive e"] by (simp add: KillTimer_def)
next
  case (Some k)
  let ?A = "m_TimerItemActive e"
  have k: "k < length ?A" "wTimerID (?A ! k) = i" using find_timer_None [of i ?A] Some by simp_all
  have "distinct (map wTimerID (take k ?A @ ?A ! k # drop (Suc k) ?A))"
    using assms k(1) by (simp add: timer_inv_def id_take_nth_drop [symmetric])
  then show ?thesis using Some k(2) by (auto simp: KillTimer_def remove_at_def)
qed

lemma SetTimer_item:
  assumes "SetTimer now new_ok i el rep p e = (True, e')"
  shows "set_item i el rep p now \<in> set (m_TimerItemActive e')"
  using assms find_timer_None [of i "m_TimerItemActive e"]
  by (auto simp: SetTimer_def Let_def set_update_memI split: if_splits option.splits)

text \<open>The delay of the first notification, in milliseconds.\<close>

definition first_delay :: "nat \<Rightarrow> bool \<Rightarrow> nat" where
  "first_delay el once = (let g = el - el mod 25 in if once then if g > 525 then g - 500 else 25 else g)"

lemma set_item_dest:
  assumes "unat now + unat el + 25 < 2 ^ 32"
  shows "unat (dwDestTime (set_item i el rep p now)) = unat now + first_delay (unat el) (rep = 1)"
proof -
  let ?g = "el - el mod TIMER_SPACE"
  have g: "unat ?g = unat el - unat el mod 25" by (rule unat_elapse)
  have c: "unat (TIMER_SPACE + TIMER_LEAD) = 525" "unat TIMER_LEAD = 500" "unat TIMER_SPACE = 25"
    by (simp_all add: TIMER_SPACE_def TIMER_LEAD_def)
  define d where "d = (if rep = 1 then if ?g > TIMER_SPACE + TIMER_LEAD then ?g - TIMER_LEAD else TIMER_SPACE else ?g)"
  have "dwDestTime (set_item i el rep p now) = now + d" by (simp add: set_item_def next_delay_def Let_def d_def)
  moreover have "unat d = first_delay (unat el) (rep = 1)"
    using c g by (auto simp: d_def first_delay_def Let_def unat_less_iff unat_sub word_le_nat_alt)
  moreover have "first_delay (unat el) (rep = 1) \<le> unat el + 25" by (auto simp: first_delay_def Let_def)
  ultimately show ?thesis using assms by (simp add: unat_add32)
qed

section \<open>The properties\<close>

text \<open>Property C26: a tick of the timer thread posts exactly one event for every timer that is due, in the reverse order of
  the array; timers on their last repetition leave the active array, in order, for the free one, the
  others count down and move on to their next time, and timers that are not due are untouched. The
  loop removes items from the array it runs over without missing or repeating one.\<close>
theorem tick_posts_due_timers:
  "OnTimerThreadSink now e =
    (map timer_event (filter (due now) (rev (m_TimerItemActive e))),
     e\<lparr>m_TimerItemActive := map (after_tick now) (filter (\<lambda>it. \<not> expires now it) (m_TimerItemActive e)),
       m_TimerItemFree := m_TimerItemFree e @ map count_down (rev (filter (expires now) (m_TimerItemActive e)))\<rparr>)"
  by (rule OnTimerThreadSink_spec)

text \<open>Property C28: whatever operations and ticks happen from the creation of the engine on, the active timers have pairwise
  different identifiers, a repeat count that is not zero, and an interval that is a multiple of the
  grain.\<close>
theorem timer_engine_invariant: "timer_inv (snd (timer_run ops CTimerEngine))"
  by (rule timer_run_inv) (simp add: timer_inv_def CTimerEngine_def)

text \<open>Property C24: the deadline. As long as the 32-bit clock does not wrap within the interval, a timer set at time \<open>now\<close>
  is notified by a tick at \<open>t\<close> if and only if its delay has passed: the interval rounded down to the
  grain, or 500 ms less (but at least one grain) for a timer that fires once.\<close>
theorem timer_deadline:
  assumes "timer_inv e" "SetTimer now new_ok i el rep p e = (True, e')" "unat now + unat el + 25 < 2 ^ 32"
  shows "events_of i (fst (OnTimerThreadSink t e')) =
    (if unat now + first_delay (unat el) (rep = 1) \<le> unat t then [TimerEvent i p] else [])"
proof -
  let ?it = "set_item i el rep p now"
  have "timer_inv e'" using SetTimer_inv [OF assms(1), of now new_ok i el rep p] assms(2) by simp
  from tick_events_of [OF this SetTimer_item [OF assms(2)], of t]
  show ?thesis using set_item_dest [OF assms(3), of i rep p] by (simp add: due_def word_le_nat_alt timer_event_def)
qed

theorem timer_deadline_witness:
  "events_of 7 (fst (OnTimerThreadSink 3000 (snd (SetTimer 1000 True 7 2510 1 0 CTimerEngine)))) =
    (if unat (1000 :: uint32) + first_delay (unat (2510 :: uint32)) ((1 :: uint32) = 1) \<le> unat (3000 :: uint32) then [TimerEvent 7 0] else [])"
  by (rule timer_deadline [where new_ok = True and e = CTimerEngine])
     (simp_all add: timer_inv_def CTimerEngine_def SetTimer_def Let_def)

text \<open>Property C30: a timer that is set to fire \<open>dwRepeat\<close> times is notified at most that often, however many ticks follow and
  at whatever times, and a timer that was killed is never notified again.\<close>
theorem timer_notifications_bounded:
  assumes "timer_inv e" "SetTimer now new_ok i el rep p e = (True, e')" "rep \<noteq> TIMES_INFINITY"
  shows "length (events_of i (fst (timer_run (ticks ts) e'))) \<le> unat rep \<and>
    events_of i (fst (timer_run (OpKill i # ticks ts) e')) = []"
proof -
  have inv: "timer_inv e'" using SetTimer_inv [OF assms(1), of now new_ok i el rep p] assms(2) by simp
  from ticks_at_most [OF inv SetTimer_item [OF assms(2)], of ts] have "length (events_of i (fst (timer_run (ticks ts) e'))) \<le> unat rep"
    using assms(3) by simp
  then show ?thesis using ticks_silent [OF KillTimer_removes [OF inv]] by (simp add: case_prod_beta Let_def)
qed

theorem timer_notifications_bounded_witness:
  "length (events_of 7 (fst (timer_run (ticks [900, 3000, 9000, 12000]) (snd (SetTimer 1000 True 7 2510 2 0 CTimerEngine))))) \<le> unat (2 :: uint32) \<and>
    events_of 7 (fst (timer_run (OpKill 7 # ticks [900, 3000, 9000, 12000]) (snd (SetTimer 1000 True 7 2510 2 0 CTimerEngine)))) = []"
  by (rule timer_notifications_bounded [where e = CTimerEngine and now = 1000 and new_ok = True and el = 2510 and p = 0])
     (simp_all add: timer_inv_def CTimerEngine_def SetTimer_def Let_def TIMES_INFINITY_def)

text \<open>When the clock wraps within the interval the deadline is lost: a timer of one minute that is set one second
  before \<open>GetTickCount\<close> wraps is notified at once.\<close>

lemma timer_fires_early_at_wrap:
  "fst (OnTimerThreadSink (- 1000) (snd (SetTimer (- 1000) True 7 60000 2 0 CTimerEngine))) = [TimerEvent 7 0]"
  by code_simp

end
