(* ===== verification/Alloc_ID.thy ===== *)
theory Alloc_ID
  imports Redis_Prelude
begin

text \<open>
  The identifier pool \<open>YSAllocationID\<close> of the service core (\<open>YSAllocationID.cpp\<close>), from which private
  rooms get their numbers: the identifiers from 1 below the maximum in a random order, a queue of the
  free ones and a map that says of every identifier whether it is free. The values of \<open>rand\<close> are a
  parameter, one for each turn of the loop that fills the queue.
\<close>

record id_pool =
  m_allocationIDQueue :: "int list"
  m_allocationIDMap :: "int \<rightharpoonup> bool"

text \<open>The \<open>do\<close> loop of \<open>ReAllocate\<close>: draw a random element of the vector, until enough are drawn.\<close>

function draw_loop :: "(nat \<Rightarrow> nat) \<Rightarrow> nat \<Rightarrow> nat \<Rightarrow> int list \<Rightarrow> id_pool \<Rightarrow> id_pool option" where
  "draw_loop rnd nMaxSize nSize vec p =
     (if vec = [] then None
      else let k = rnd nSize mod length vec;
               v = vec ! k;
               p = \<lparr>m_allocationIDQueue = m_allocationIDQueue p @ [v], m_allocationIDMap = (m_allocationIDMap p)(v \<mapsto> True)\<rparr>;
               vec = remove_at k vec
           in if nSize + 1 + 1 < nMaxSize then draw_loop rnd nMaxSize (nSize + 1) vec p else Some p)"
  by pat_completeness auto
termination
  by (relation "measure (\<lambda>(rnd, nMaxSize, nSize, vec, p). nMaxSize - nSize)") auto

declare draw_loop.simps [simp del]

text \<open>An empty vector would be a division by zero. The map has as many entries as \<open>size\<close> says.\<close>

definition ReAllocate :: "(nat \<Rightarrow> nat) \<Rightarrow> int \<Rightarrow> id_pool \<Rightarrow> id_pool option" where
  "ReAllocate rnd nMaxSize p =
     (if int (card (dom (m_allocationIDMap p))) + 1 \<ge> nMaxSize then Some p
      else draw_loop rnd (nat nMaxSize) 0 [1..nMaxSize - 1] \<lparr>m_allocationIDQueue = [], m_allocationIDMap = Map.empty\<rparr>)"

definition YSAllocationID :: "(nat \<Rightarrow> nat) \<Rightarrow> int \<Rightarrow> id_pool option" where
  "YSAllocationID rnd nMaxSize = ReAllocate rnd nMaxSize \<lparr>m_allocationIDQueue = [], m_allocationIDMap = Map.empty\<rparr>"

definition PopValue :: "id_pool \<Rightarrow> int \<times> id_pool" where
  "PopValue p = (case m_allocationIDQueue p of
     [] \<Rightarrow> (0, p)
   | v # q \<Rightarrow> (v, \<lparr>m_allocationIDQueue = q,
       m_allocationIDMap = (if m_allocationIDMap p v \<noteq> None then (m_allocationIDMap p)(v \<mapsto> False) else m_allocationIDMap p)\<rparr>))"

definition PushValue :: "int \<Rightarrow> id_pool \<Rightarrow> id_pool" where
  "PushValue v p = (case m_allocationIDMap p v of
     None \<Rightarrow> p
   | Some free \<Rightarrow> if free then p
       else \<lparr>m_allocationIDQueue = m_allocationIDQueue p @ [v], m_allocationIDMap = (m_allocationIDMap p)(v \<mapsto> True)\<rparr>)"

section \<open>The pool as a set of identifiers in use\<close>

definition pool_inv :: "int \<Rightarrow> int set \<Rightarrow> id_pool \<Rightarrow> bool" where
  "pool_inv n used p \<longleftrightarrow> distinct (m_allocationIDQueue p) \<and> used \<subseteq> {1..<n} \<and>
     set (m_allocationIDQueue p) = {1..<n} - used \<and>
     m_allocationIDMap p = (\<lambda>v. if v \<in> {1..<n} then Some (v \<notin> used) else None)"

lemma draw_loop_pool:
  assumes "distinct vec" "length vec = n - (s + 1)" "s + 1 < n" "set vec \<subseteq> {1..<int n}"
    "distinct (m_allocationIDQueue p)" "set (m_allocationIDQueue p) = {1..<int n} - set vec"
    "m_allocationIDMap p = (\<lambda>v. if v \<in> {1..<int n} - set vec then Some True else None)"
  shows "\<exists>p'. draw_loop rnd n s vec p = Some p' \<and> pool_inv (int n) {} p'"
  using assms
proof (induction rnd n s vec p rule: draw_loop.induct)
  case (1 rnd n s vec p)
  define k where "k = rnd s mod length vec"
  define v where "v = vec ! k"
  define p1 where "p1 = \<lparr>m_allocationIDQueue = m_allocationIDQueue p @ [v], m_allocationIDMap = (m_allocationIDMap p)(v \<mapsto> True)\<rparr>"
  have ne: "vec \<noteq> []" using 1(3,4) by auto
  then have k: "k < length vec" by (simp add: k_def)
  note r = remove_at_props [OF k 1(2)]
  have v: "v \<in> set vec" using k by (simp add: v_def)
  have p1: "distinct (m_allocationIDQueue p1)" "set (m_allocationIDQueue p1) = {1..<int n} - set (remove_at k vec)"
    "m_allocationIDMap p1 = (\<lambda>x. if x \<in> {1..<int n} - set (remove_at k vec) then Some True else None)"
    using 1(5-8) v r(2) by (auto simp: p1_def v_def [symmetric] fun_eq_iff)
  have d: "draw_loop rnd n s vec p = (if s + 1 + 1 < n then draw_loop rnd n (s + 1) (remove_at k vec) p1 else Some p1)"
    using ne by (subst draw_loop.simps) (simp add: k_def v_def p1_def Let_def)
  show ?case
  proof (cases "s + 1 + 1 < n")
    case True
    have "\<exists>p'. draw_loop rnd n (s + 1) (remove_at k vec) p1 = Some p' \<and> pool_inv (int n) {} p'"
      by (rule 1(1)) (use ne True r p1 1(3,5) k in \<open>auto simp: k_def v_def p1_def\<close>)
    then show ?thesis using d True by simp
  next
    case False
    then have "remove_at k vec = []" using r(3) 1(3,4) by simp
    then show ?thesis using d False p1 by (auto simp: pool_inv_def)
  qed
qed

lemma YSAllocationID_pool:
  assumes "2 \<le> n"
  shows "\<exists>p. YSAllocationID rnd n = Some p \<and> pool_inv n {} p"
proof -
  have "\<exists>p'. draw_loop rnd (nat n) 0 [1..n - 1] \<lparr>m_allocationIDQueue = [], m_allocationIDMap = Map.empty\<rparr> = Some p' \<and> pool_inv (int (nat n)) {} p'"
    using assms by (intro draw_loop_pool) auto
  then show ?thesis using assms by (simp add: YSAllocationID_def ReAllocate_def)
qed

lemma PopValue_law:
  assumes "pool_inv n used p"
  shows "if used = {1..<n} then PopValue p = (0, p)
    else \<exists>v p'. PopValue p = (v, p') \<and> v \<in> {1..<n} - used \<and> pool_inv n (insert v used) p'"
proof (cases "m_allocationIDQueue p")
  case Nil
  then have "used = {1..<n}" using assms by (auto simp: pool_inv_def)
  then show ?thesis using Nil by (simp add: PopValue_def)
next
  case (Cons v q)
  then have "v \<in> {1..<n} - used" using assms by (auto simp: pool_inv_def)
  moreover from this have "pool_inv n (insert v used) (snd (PopValue p))"
    using assms Cons by (auto simp: pool_inv_def PopValue_def fun_eq_iff)
  ultimately show ?thesis using Cons by (auto simp: PopValue_def)
qed

lemma PushValue_law:
  assumes "pool_inv n used p"
  shows "pool_inv n (used - {v}) (PushValue v p)"
proof (cases "v \<in> used")
  case True
  then have "m_allocationIDMap p v = Some False" using assms by (auto simp: pool_inv_def)
  then show ?thesis using assms True by (auto simp: pool_inv_def PushValue_def fun_eq_iff)
next
  case False
  then have "PushValue v p = p" using assms by (auto simp: pool_inv_def PushValue_def)
  then show ?thesis using assms False by simp
qed

section \<open>Sequences of operations\<close>

datatype id_op = Pop | Push int

fun id_run :: "id_op list \<Rightarrow> id_pool \<Rightarrow> int list \<times> id_pool" where
  "id_run [] p = ([], p)"
| "id_run (Pop # ops) p = (let (v, p) = PopValue p; (vs, p) = id_run ops p in (v # vs, p))"
| "id_run (Push v # ops) p = id_run ops (PushValue v p)"

text \<open>The identifiers in use after a sequence of operations with the given results, if these are legal: an
  identifier is handed out only when it is not in use, and 0 only when all are.\<close>

fun id_trace :: "int \<Rightarrow> int set \<Rightarrow> id_op list \<Rightarrow> int list \<Rightarrow> int set option" where
  "id_trace n used [] [] = Some used"
| "id_trace n used (Pop # ops) (v # vs) =
     (if v = 0 then if used = {1..<n} then id_trace n used ops vs else None
      else if v \<in> {1..<n} \<and> v \<notin> used then id_trace n (insert v used) ops vs else None)"
| "id_trace n used (Push v # ops) vs = id_trace n (used - {v}) ops vs"
| "id_trace n used _ _ = None"

lemma id_run_legal:
  "pool_inv n used p \<Longrightarrow> \<exists>used'. id_trace n used ops (fst (id_run ops p)) = Some used' \<and> pool_inv n used' (snd (id_run ops p))"
proof (induction ops arbitrary: used p)
  case (Cons x ops)
  show ?case
  proof (cases x)
    case Pop
    show ?thesis
    proof (cases "used = {1..<n}")
      case True
      then show ?thesis using PopValue_law [OF Cons.prems] Cons.IH [OF Cons.prems] Pop by (simp add: case_prod_beta Let_def)
    next
      case False
      then obtain v p' where v: "PopValue p = (v, p')" "v \<in> {1..<n} - used" "pool_inv n (insert v used) p'"
        using PopValue_law [OF Cons.prems] by auto
      then show ?thesis using Cons.IH [OF v(3)] Pop by (simp add: case_prod_beta Let_def)
    qed
  next
    case (Push v)
    then show ?thesis using Cons.IH [OF PushValue_law [OF Cons.prems]] by simp
  qed
qed simp

text \<open>Property C22: from its construction on, whatever the values of \<open>rand\<close>, the pool never hands out an identifier that is in
  use: over any sequence of \<open>PopValue\<close> and \<open>PushValue\<close>, also of identifiers that were not handed out,
  every identifier popped is between 1 and the maximum and not in use, and 0 is returned only
  when all of them are.\<close>
theorem id_pool_never_duplicates:
  assumes "2 \<le> n"
  shows "\<exists>p used. YSAllocationID rnd n = Some p \<and> id_trace n {} ops (fst (id_run ops p)) = Some used \<and> pool_inv n used (snd (id_run ops p))"
  using YSAllocationID_pool [OF assms, of rnd] id_run_legal by blast

theorem id_pool_never_duplicates_witness:
  "\<exists>p used. YSAllocationID (\<lambda>k. 7 * k) 4 = Some p \<and> id_trace 4 {} [Pop, Pop, Push 2, Pop, Pop, Pop] (fst (id_run [Pop, Pop, Push 2, Pop, Pop, Pop] p)) = Some used
    \<and> pool_inv 4 used (snd (id_run [Pop, Pop, Push 2, Pop, Pop, Pop] p))"
  by (rule id_pool_never_duplicates) simp

end
