(* ===== verification/Base64.thy ===== *)
theory Base64
  imports Redis_Prelude
begin

text \<open>
  The Base64 codec of the service core (\<open>base64.cpp\<close>). The two working arrays of the functions are the
  groups of three bytes and of four characters; the characters of a string are bytes. The decoder
  stops at the first character that is not of the alphabet.
\<close>

definition base64_chars :: "byte list" where
  "base64_chars = map of_nat ([65..<91] @ [97..<123] @ [48..<58] @ [43, 47])"

definition is_base64 :: "byte \<Rightarrow> bool" where
  "is_base64 c = (48 \<le> c \<and> c \<le> 57 \<or> 65 \<le> c \<and> c \<le> 90 \<or> 97 \<le> c \<and> c \<le> 122 \<or> c = 43 \<or> c = 47)"

text \<open>The four indices of a group of three bytes.\<close>

definition split3 :: "byte \<Rightarrow> byte \<Rightarrow> byte \<Rightarrow> byte list" where
  "split3 a b c =
     [drop_bit 2 (a AND 0xfc),
      push_bit 4 (a AND 0x03) + drop_bit 4 (b AND 0xf0),
      push_bit 2 (b AND 0x0f) + drop_bit 6 (c AND 0xc0),
      c AND 0x3f]"

definition char_at :: "byte \<Rightarrow> byte" where
  "char_at i = base64_chars ! unat i"

text \<open>The loop over the bytes, with the full groups, and the last group of one or two bytes, which is filled
  up with zeros and padded with \<open>=\<close>.\<close>

fun base64_encode :: "byte list \<Rightarrow> byte list" where
  "base64_encode (a # b # c # xs) = map char_at (split3 a b c) @ base64_encode xs"
| "base64_encode [a, b] = map char_at (take 3 (split3 a b 0)) @ [61]"
| "base64_encode [a] = map char_at (take 2 (split3 a 0 0)) @ [61, 61]"
| "base64_encode [] = []"

text \<open>\<open>base64_chars.find\<close>, whose result \<open>npos\<close> becomes 255 in an \<open>unsigned char\<close>.\<close>

definition find_char :: "byte \<Rightarrow> byte" where
  "find_char c = (case List.find (\<lambda>k. base64_chars ! k = c) [0..<length base64_chars] of Some k \<Rightarrow> of_nat k | None \<Rightarrow> - 1)"

definition join4 :: "byte \<Rightarrow> byte \<Rightarrow> byte \<Rightarrow> byte \<Rightarrow> byte list" where
  "join4 a b c d =
     [push_bit 2 a + drop_bit 4 (b AND 0x30),
      push_bit 4 (b AND 0xf) + drop_bit 2 (c AND 0x3c),
      push_bit 6 (c AND 0x3) + d]"

text \<open>What a last group of fewer than four characters yields.\<close>

definition decode_tail :: "byte list \<Rightarrow> byte list" where
  "decode_tail g = (if g = [] then []
     else let h = map find_char (g @ replicate (4 - length g) 0)
          in take (length g - 1) (join4 (h ! 0) (h ! 1) (h ! 2) (h ! 3)))"

text \<open>The loop of the decoder: \<open>g\<close> is the group that is being read.\<close>

fun decode_loop :: "byte list \<Rightarrow> byte list \<Rightarrow> byte list \<Rightarrow> byte list" where
  "decode_loop g ret [] = ret @ decode_tail g"
| "decode_loop g ret (x # xs) =
     (if x \<noteq> 61 \<and> is_base64 x then
        if length g = 3
        then decode_loop [] (ret @ join4 (find_char (g ! 0)) (find_char (g ! 1)) (find_char (g ! 2)) (find_char x)) xs
        else decode_loop (g @ [x]) ret xs
      else ret @ decode_tail g)"

definition base64_decode :: "byte list \<Rightarrow> byte list" where
  "base64_decode s = decode_loop [] [] s"

section \<open>Round trip\<close>


lemma byte_eqI:
  assumes "\<And>n. n \<in> {0, 1, 2, 3, 4, 5, 6, 7} \<Longrightarrow> bit a n = bit (b :: byte) n"
  shows "a = b"
proof (rule bit_word_eqI)
  fix n assume "n < LENGTH(8)"
  then have "n \<in> {0, 1, 2, 3, 4, 5, 6, 7}" by auto
  then show "bit a n = bit b n" by (rule assms)
qed

lemma bits_lt: "bit (w :: byte) n \<Longrightarrow> n \<in> {0, 1, 2, 3, 4, 5, 6, 7}"
  using bit_imp_le_length [of w n] by auto


text \<open>The additions put together bits at different positions.\<close>

lemma add_as_or:
  "push_bit 4 (a AND 0x03) + drop_bit 4 (b AND 0xf0) = (push_bit 4 (a AND 0x03) OR drop_bit 4 (b AND 0xf0) :: byte)"
  "push_bit 2 (a AND 0x0f) + drop_bit 6 (b AND 0xc0) = (push_bit 2 (a AND 0x0f) OR drop_bit 6 (b AND 0xc0) :: byte)"
  "push_bit 2 a + drop_bit 4 (b AND 0x30) = (push_bit 2 a OR drop_bit 4 (b AND 0x30) :: byte)"
  "push_bit 4 (a AND 0xf) + drop_bit 2 (b AND 0x3c) = (push_bit 4 (a AND 0xf) OR drop_bit 2 (b AND 0x3c) :: byte)"
  "push_bit 6 (a AND 0x3) + (b AND 0x3f) = (push_bit 6 (a AND 0x3) OR (b AND 0x3f) :: byte)"
  by (rule disjunctive_add; auto simp: bit_simps dest!: bits_lt)+

lemma split3_or: "split3 a b c = [drop_bit 2 (a AND 0xfc), push_bit 4 (a AND 0x03) OR drop_bit 4 (b AND 0xf0),
    push_bit 2 (b AND 0x0f) OR drop_bit 6 (c AND 0xc0), c AND 0x3f]"
  by (simp only: split3_def add_as_or)

lemma join4_or: "join4 a b c (d AND 0x3f) = [push_bit 2 a OR drop_bit 4 (b AND 0x30),
    push_bit 4 (b AND 0xf) OR drop_bit 2 (c AND 0x3c), push_bit 6 (c AND 0x3) OR (d AND 0x3f)]"
  by (simp only: join4_def add_as_or)

lemma join_split: "split3 a b c = [i, j, k, l] \<Longrightarrow> join4 i j k l = [a, b, c]"
proof -
  assume s: "split3 a b c = [i, j, k, l]"
  have "(push_bit 2 (drop_bit 2 (a AND 0xfc)) OR drop_bit 4 ((push_bit 4 (a AND 0x03) OR drop_bit 4 (b AND 0xf0)) AND 0x30)) = a"
    by (rule byte_eqI) (auto simp: bit_simps simp flip: numeral_2_eq_2 numeral_3_eq_3)
  moreover have "(push_bit 4 ((push_bit 4 (a AND 0x03) OR drop_bit 4 (b AND 0xf0)) AND 0xf) OR drop_bit 2 ((push_bit 2 (b AND 0x0f) OR drop_bit 6 (c AND 0xc0)) AND 0x3c)) = b"
    by (rule byte_eqI) (auto simp: bit_simps)
  moreover have "(push_bit 6 ((push_bit 2 (b AND 0x0f) OR drop_bit 6 (c AND 0xc0)) AND 0x3) OR (c AND 0x3f)) = c"
    by (rule byte_eqI) (auto simp: bit_simps)
  moreover have eqs: "i = drop_bit 2 (a AND 0xfc)" "j = push_bit 4 (a AND 0x03) OR drop_bit 4 (b AND 0xf0)"
    "k = push_bit 2 (b AND 0x0f) OR drop_bit 6 (c AND 0xc0)" "l = c AND 0x3f"
    using s unfolding split3_or by (simp_all only: list.inject)
  ultimately show ?thesis unfolding eqs join4_or by (simp only:)
qed

abbreviation char_codes :: "nat list" where
  "char_codes \<equiv> [65..<91] @ [97..<123] @ [48..<58] @ [43, 47]"

lemma base64_chars_props: "distinct base64_chars" "length base64_chars = 64"
proof -
  have "distinct char_codes" by auto
  moreover have "inj_on (of_nat :: nat \<Rightarrow> byte) (set char_codes)"
    by (rule inj_on_inverseI [where g = unat]) (auto simp: unat_of_nat)
  ultimately show "distinct base64_chars" unfolding base64_chars_def distinct_map by blast
qed (simp add: base64_chars_def)

lemma alphabet:
  assumes "unat i < 64"
  shows "find_char (char_at i) = i" "is_base64 (char_at i)" "char_at i \<noteq> 61"
proof -
  have "List.find (\<lambda>k. base64_chars ! k = base64_chars ! unat i) [0..<length base64_chars] = Some (unat i)"
    unfolding find_Some_iff using assms base64_chars_props by (intro exI [of _ "unat i"]) (auto simp: nth_eq_iff_index_eq)
  then show "find_char (char_at i) = i" by (simp add: find_char_def char_at_def)
  have "char_at i \<in> of_nat ` set char_codes"
    unfolding char_at_def base64_chars_def set_map [symmetric] using assms by (intro nth_mem) simp
  then show "is_base64 (char_at i)" "char_at i \<noteq> 61"
    by (auto simp: is_base64_def word_le_nat_alt unat_of_nat word_unat_eq_iff)
qed

lemma below_64: "\<not> bit w 6 \<Longrightarrow> \<not> bit w 7 \<Longrightarrow> unat (w :: byte) < 64"
proof -
  assume "\<not> bit w 6" "\<not> bit w 7"
  then have "take_bit 6 w = w" by (intro byte_eqI) (auto simp: bit_simps)
  then have "unat w = take_bit 6 (unat w)" by (metis unsigned_take_bit_eq)
  then show ?thesis using take_bit_nat_less_exp [of 6 "unat w"] by simp
qed

lemma split3_below: "i \<in> set (split3 a b c) \<Longrightarrow> unat i < 64"
  unfolding split3_or by (auto intro!: below_64 simp: bit_simps)

text \<open>A group of four characters, and the last group.\<close>

lemma decode_group:
  "decode_loop [] ret (map char_at (split3 a b c) @ xs) = decode_loop [] (ret @ [a, b, c]) xs"
proof -
  obtain i j k l where s: "split3 a b c = [i, j, k, l]" by (simp add: split3_def)
  have "unat i < 64" "unat j < 64" "unat k < 64" "unat l < 64" using split3_below [of _ a b c] s by simp_all
  then show ?thesis using join_split [OF s] s by (simp add: alphabet)
qed

lemma decode_encode_loop: "decode_loop [] ret (base64_encode xs) = ret @ xs"
proof (induction xs arbitrary: ret rule: base64_encode.induct)
  case (1 a b c xs)
  then show ?case by (simp add: decode_group)
next
  case (2 a b)
  obtain i j k l where s: "split3 a b 0 = [i, j, k, l]" by (simp add: split3_def)
  have "unat i < 64" "unat j < 64" "unat k < 64" using split3_below [of _ a b 0] s by simp_all
  then show ?case using join_split [OF s] s by (simp add: alphabet decode_tail_def join4_def)
next
  case (3 a)
  obtain i j k l where s: "split3 a 0 0 = [i, j, k, l]" by (simp add: split3_def)
  have "unat i < 64" "unat j < 64" using split3_below [of _ a 0 0] s by simp_all
  then show ?case using join_split [OF s] s by (simp add: alphabet decode_tail_def join4_def)
qed (simp add: decode_tail_def)

text \<open>Property C23: decoding what was encoded gives the bytes back, for every input, and the encoding has four characters for
  every group of three bytes begun.\<close>
theorem base64_roundtrip:
  "base64_decode (base64_encode xs) = xs \<and> length (base64_encode xs) = 4 * ((length xs + 2) div 3)"
proof -
  have "length (base64_encode xs) = 4 * ((length xs + 2) div 3)"
    by (induction xs rule: base64_encode.induct) (simp_all add: split3_def, presburger)
  then show ?thesis using decode_encode_loop [of "[]" xs] by (simp add: base64_decode_def)
qed

end
