(* ===== verification/Niuniu.thy ===== *)
theory Niuniu
  imports Redis_Prelude
begin

text \<open>
  The game logic of the card game Niuniu (\<open>CGameLogic\<close> in \<open>GameLogic.cpp\<close> of the game server): the rank of a
  hand of five cards, its multiplier, the comparison of two hands, sorting, and dealing. A card is a byte
  with the value in the low and the suit in the high nibble. A hand is the array the functions
  get, so that \<open>cbCardCount\<close> is its length; an access outside an array of five makes the result
  \<^const>\<open>None\<close>. The values of \<open>rand\<close> are a parameter.
\<close>

section \<open>The code\<close>

definition MAX_COUNT :: nat where "MAX_COUNT = 5"
definition OX_VALUE0 :: byte where "OX_VALUE0 = 0"
definition OX_THREE_SAME :: byte where "OX_THREE_SAME = 102"
definition OX_FOUR_SAME :: byte where "OX_FOUR_SAME = 103"
definition OX_FOURKING :: byte where "OX_FOURKING = 104"
definition OX_FIVEKING :: byte where "OX_FIVEKING = 105"

lemmas ox_types = MAX_COUNT_def OX_VALUE0_def OX_THREE_SAME_def OX_FOUR_SAME_def OX_FOURKING_def OX_FIVEKING_def

definition m_cbCardListData :: "byte list" where
  "m_cbCardListData = [
     0x01,0x02,0x03,0x04,0x05,0x06,0x07,0x08,0x09,0x0A,0x0B,0x0C,0x0D,
     0x11,0x12,0x13,0x14,0x15,0x16,0x17,0x18,0x19,0x1A,0x1B,0x1C,0x1D,
     0x21,0x22,0x23,0x24,0x25,0x26,0x27,0x28,0x29,0x2A,0x2B,0x2C,0x2D,
     0x31,0x32,0x33,0x34,0x35,0x36,0x37,0x38,0x39,0x3A,0x3B,0x3C,0x3D]"

definition GetCardValue :: "byte \<Rightarrow> byte" where "GetCardValue c = c AND 0x0F"
definition GetCardColor :: "byte \<Rightarrow> byte" where "GetCardColor c = c AND 0xF0"

definition GetCardLogicValue :: "byte \<Rightarrow> byte" where
  "GetCardLogicValue c = (if GetCardValue c > 10 then 10 else GetCardValue c)"

text \<open>The two nested loops over the pairs of cards: the first pair whose removal leaves a multiple of ten.\<close>

definition index_pairs :: "nat \<Rightarrow> (nat \<times> nat) list" where
  "index_pairs n = concat (map (\<lambda>i. map (Pair i) [Suc i..<n]) [0..<n - 1])"

definition find_ox :: "byte list \<Rightarrow> (nat \<times> nat) option" where
  "find_ox cards =
     (let t = map GetCardLogicValue cards; bSum = sum_list t
      in List.find (\<lambda>(i, j). (uint bSum - uint (t ! i) - uint (t ! j)) mod 10 = 0) (index_pairs (length cards)))"

definition GetCardType :: "byte list \<Rightarrow> byte option" where
  "GetCardType cards =
     (if length cards > MAX_COUNT then None
      else let king = length (filter (\<lambda>c. GetCardValue c > 10) cards);
               ten = length (filter (\<lambda>c. GetCardValue c = 10) cards);
               t = map GetCardLogicValue cards
           in if king = MAX_COUNT then Some OX_FIVEKING
              else if king = MAX_COUNT - 1 \<and> ten = 1 then Some OX_FOURKING
              else case find_ox cards of
                Some (i, j) \<Rightarrow> Some (let s = uint (t ! i) + uint (t ! j) in word_of_int (if s > 10 then s - 10 else s))
              | None \<Rightarrow> Some OX_VALUE0)"

definition GetTimes :: "byte list \<Rightarrow> byte option" where
  "GetTimes cards =
     (if length cards \<noteq> MAX_COUNT then Some 0
      else map_option (\<lambda>t. if t < 7 then 1 else if t = 7 then 2 else if t = 8 then 3 else if t = 9 then 4
        else if t = 10 then 5 else if t = OX_THREE_SAME then 5 else if t = OX_FOUR_SAME then 5
        else if t = OX_FOURKING then 5 else if t = OX_FIVEKING then 5 else 0) (GetCardType cards))"

text \<open>\<open>GetOxCard\<close> moves the pair to the end of the hand.\<close>

definition GetOxCard :: "byte list \<Rightarrow> (bool \<times> byte list) option" where
  "GetOxCard cards =
     (if length cards > MAX_COUNT then None
      else case find_ox cards of
        Some (i, j) \<Rightarrow> Some (True, map ((!) cards) (filter (\<lambda>k. k \<noteq> i \<and> k \<noteq> j) [0..<length cards]) @ [cards ! i, cards ! j])
      | None \<Rightarrow> Some (False, cards))"

definition IsIntValue :: "byte list \<Rightarrow> bool" where
  "IsIntValue cards = (sum_list (map GetCardLogicValue cards) mod 10 = 0)"

text \<open>One pass of the bubble sort over the first \<open>bLast\<close> pairs of neighbours; the logic values move with
  the cards. The flag is \<open>bSorted\<close>.\<close>

definition out_of_order :: "byte \<times> byte \<Rightarrow> byte \<times> byte \<Rightarrow> bool" where
  "out_of_order x y \<longleftrightarrow> fst x < fst y \<or> fst x = fst y \<and> snd x < snd y"

fun sort_pass :: "nat \<Rightarrow> (byte \<times> byte) list \<Rightarrow> bool \<times> (byte \<times> byte) list" where
  "sort_pass 0 xs = (True, xs)"
| "sort_pass (Suc n) (x # y # zs) =
     (if out_of_order x y then let (s, r) = sort_pass n (x # zs) in (False, y # r)
      else let (s, r) = sort_pass n (y # zs) in (s, x # r))"
| "sort_pass (Suc n) xs = (True, xs)"

fun sort_loop :: "nat \<Rightarrow> (byte \<times> byte) list \<Rightarrow> (byte \<times> byte) list" where
  "sort_loop bLast xs =
     (case bLast of 0 \<Rightarrow> xs
      | Suc l \<Rightarrow> let (s, ys) = sort_pass bLast xs in if s then ys else sort_loop l ys)"

declare sort_loop.simps [simp del]

text \<open>With no card \<open>bLast\<close> would wrap to 255.\<close>

definition SortCardList :: "byte list \<Rightarrow> byte list option" where
  "SortCardList cards =
     (if cards = [] \<or> length cards > MAX_COUNT then None
      else Some (map snd (sort_loop (length cards - 1) (map (\<lambda>c. (GetCardValue c, c)) cards))))"

text \<open>The draw of cards: \<open>n\<close> turns of the \<open>do\<close> loop, which runs at least once.\<close>

fun rand_loop :: "(nat \<Rightarrow> nat) \<Rightarrow> nat \<Rightarrow> byte list \<Rightarrow> byte list \<Rightarrow> nat \<Rightarrow> byte list option" where
  "rand_loop rnd cnt buf data 0 = Some buf"
| "rand_loop rnd cnt buf data (Suc n) =
     (if cnt \<ge> length data then None
      else let pos = rnd cnt mod (length data - cnt)
           in rand_loop rnd (cnt + 1) (buf @ [data ! pos]) (data[pos := data ! (length data - (cnt + 1))]) n)"

definition RandCardList :: "(nat \<Rightarrow> nat) \<Rightarrow> nat \<Rightarrow> byte list option" where
  "RandCardList rnd cbBufferCount = rand_loop rnd 0 [] m_cbCardListData (max 1 cbBufferCount)"

text \<open>The comparison of the highest cards.\<close>

definition compare_max :: "byte list \<Rightarrow> byte list \<Rightarrow> bool option" where
  "compare_max a b = do {
     a \<leftarrow> SortCardList a;
     b \<leftarrow> SortCardList b;
     Some (if GetCardValue (b ! 0) \<noteq> GetCardValue (a ! 0) then GetCardValue (a ! 0) > GetCardValue (b ! 0)
           else GetCardColor (a ! 0) > GetCardColor (b ! 0))
   }"

definition CompareCard :: "byte list \<Rightarrow> byte list \<Rightarrow> int \<Rightarrow> int \<Rightarrow> bool option" where
  "CompareCard a b FirstOX NextOX =
     (if FirstOX \<noteq> NextOX then Some (FirstOX > NextOX)
      else if FirstOX = 1 then do {
        nt \<leftarrow> GetCardType b;
        ft \<leftarrow> GetCardType a;
        if ft \<noteq> nt then Some (ft > nt)
        else if nt = OX_FOUR_SAME \<or> nt = OX_THREE_SAME then do {
          a \<leftarrow> SortCardList a;
          b \<leftarrow> SortCardList b;
          Some (GetCardValue (a ! (MAX_COUNT div 2)) > GetCardValue (b ! (MAX_COUNT div 2)))
        }
        else compare_max a b
      }
      else compare_max a b)"

section \<open>Dealing\<close>

lemma rand_loop_deals:
  assumes "length data = d" "cnt + n \<le> d" "mset buf + mset (take (d - cnt) data) = M"
  shows "\<exists>buf'. rand_loop rnd cnt buf data n = Some (buf @ buf') \<and> length buf' = n \<and> mset (buf @ buf') \<subseteq># M"
  using assms
proof (induction n arbitrary: cnt buf data)
  case 0
  then show ?case by (auto intro: mset_subset_eq_add_left)
next
  case (Suc n)
  define m where "m = d - (cnt + 1)"
  have m: "d - cnt = Suc m" "m < d" using Suc.prems(2) by (simp_all add: m_def)
  define pos where "pos = rnd cnt mod Suc m"
  have pos: "pos \<le> m" by (simp add: pos_def less_Suc_eq_le [symmetric])
  define data' where "data' = data[pos := data ! m]"
  have t: "take (Suc m) data = take m data @ [data ! m]" using m Suc.prems(1) by (simp add: take_Suc_conv_app_nth)
  have "mset (take m data') + {#data ! pos#} = mset (take (Suc m) data)"
  proof (cases "pos = m")
    case True
    then show ?thesis using t by (simp add: data'_def)
  next
    case False
    then have p: "pos < length (take m data)" using pos m Suc.prems(1) by simp
    have "take m data' = (take m data)[pos := data ! m]" by (simp add: data'_def take_update_swap)
    then show ?thesis using t mset_update [OF p, of "data ! m"] p nth_mem [OF p] by simp
  qed
  then have inv: "mset (buf @ [data ! pos]) + mset (take (d - (cnt + 1)) data') = M"
    unfolding m_def [symmetric] Suc.prems(3) [symmetric] m(1) by (simp add: union_assoc [symmetric] flip: \<open>_ = mset (take (Suc m) data)\<close>)
  have "rand_loop rnd cnt buf data (Suc n) = rand_loop rnd (cnt + 1) (buf @ [data ! pos]) data' n"
    using Suc.prems(1,2) m by (simp add: Let_def pos_def data'_def m_def)
  moreover obtain buf' where "rand_loop rnd (cnt + 1) (buf @ [data ! pos]) data' n = Some ((buf @ [data ! pos]) @ buf')"
    "length buf' = n" "mset ((buf @ [data ! pos]) @ buf') \<subseteq># M"
    using Suc.IH [OF _ _ inv] Suc.prems(1,2) by (auto simp: data'_def)
  ultimately show ?case by (intro exI [of _ "data ! pos # buf'"]) simp
qed

lemma deck: "distinct m_cbCardListData" "length m_cbCardListData = 52"
  by (simp_all add: m_cbCardListData_def)

section \<open>Sorting\<close>

abbreviation before :: "byte \<times> byte \<Rightarrow> byte \<times> byte \<Rightarrow> bool" where
  "before x y \<equiv> \<not> out_of_order x y"

lemma before_iff: "before x y \<longleftrightarrow> fst y < fst x \<or> fst y = fst x \<and> snd y \<le> snd x"
  using linorder_less_linear [of "fst x" "fst y"] by (auto simp: out_of_order_def not_less)

lemma before_trans: "before x y \<Longrightarrow> before y z \<Longrightarrow> before x z"
  unfolding before_iff by (elim disjE conjE) (auto intro: less_trans order_trans)

lemma out_before: "out_of_order x y \<Longrightarrow> before y x"
  unfolding before_iff by (auto simp: out_of_order_def order_le_less)

text \<open>A pass keeps the cards, leaves what lies behind its range alone and brings the last card of its range
  into place; a pass without a swap changes nothing and finds its range in order.\<close>

lemma sort_pass_props:
  "n < length xs \<Longrightarrow> sort_pass n xs = (s, ys) \<Longrightarrow>
   mset ys = mset xs \<and> drop (Suc n) ys = drop (Suc n) xs \<and> (\<forall>x \<in> set (take (Suc n) ys). before x (ys ! n)) \<and>
   (s \<longrightarrow> ys = xs \<and> sorted_wrt before (take (Suc n) xs))"
proof (induction n xs arbitrary: s ys rule: sort_pass.induct)
  case (1 xs)
  then show ?case by (cases xs) (auto simp: out_of_order_def)
next
  case (2 n x y zs)
  show ?case
  proof (cases "out_of_order x y")
    case True
    obtain s' r where r: "sort_pass n (x # zs) = (s', r)" by fastforce
    then have ys: "ys = y # r" "\<not> s" using 2(4) True by auto
    note IH = 2(1) [OF True _ r]
    have "before y (r ! n)"
    proof -
      have "mset (take (Suc n) r) = mset (take (Suc n) (x # zs))"
        using IH 2(3) by (metis Suc_less_eq append_take_drop_id length_Cons mset_append union_right_cancel)
      then have "x \<in> set (take (Suc n) r)" by (metis list.set_intros(1) mset_eq_setD take_Suc_Cons)
      then have "before x (r ! n)" using IH 2(3) by simp
      then show ?thesis using before_trans out_before [OF True] by blast
    qed
    then show ?thesis using IH 2(3) ys by auto
  next
    case False
    obtain s' r where r: "sort_pass n (y # zs) = (s', r)" by fastforce
    then have ys: "ys = x # r" "s = s'" using 2(4) False by auto
    note IH = 2(2) [OF False _ r]
    have "mset (take (Suc n) r) = mset (take (Suc n) (y # zs))"
      using IH 2(3) by (metis Suc_less_eq append_take_drop_id length_Cons mset_append union_right_cancel)
    then have "y \<in> set (take (Suc n) r)" by (metis list.set_intros(1) mset_eq_setD take_Suc_Cons)
    then have "before y (r ! n)" using IH 2(3) by simp
    then have b: "before x (r ! n)" using before_trans False by blast
    have "sorted_wrt before (x # take (Suc n) (y # zs))" if "sorted_wrt before (take (Suc n) (y # zs))"
      using that False before_trans by auto
    then show ?thesis using IH 2(3) ys b by auto
  qed
qed auto

lemma sort_pass_set:
  assumes "n < length xs" "sort_pass n xs = (s, ys)"
  shows "set (take (Suc n) ys) = set (take (Suc n) xs)"
proof -
  have "mset ys = mset xs" "drop (Suc n) ys = drop (Suc n) xs" using sort_pass_props [OF assms] by blast+
  then have "mset (take (Suc n) ys) = mset (take (Suc n) xs)"
    by (metis append_take_drop_id mset_append union_right_cancel)
  then show ?thesis by (rule mset_eq_setD)
qed

lemma sort_loop_sorts:
  "n < length xs \<Longrightarrow> sorted_wrt before (drop (Suc n) xs) \<Longrightarrow>
   (\<forall>x \<in> set (take (Suc n) xs). \<forall>y \<in> set (drop (Suc n) xs). before x y) \<Longrightarrow>
   mset (sort_loop n xs) = mset xs \<and> sorted_wrt before (sort_loop n xs)"
proof (induction n arbitrary: xs)
  case 0
  then show ?case by (cases xs) (simp_all add: sort_loop.simps)
next
  case (Suc l)
  obtain s ys where p: "sort_pass (Suc l) xs = (s, ys)" by fastforce
  note pp = sort_pass_props [OF Suc.prems(1) p]
  have d: "drop (Suc (Suc l)) ys = drop (Suc (Suc l)) xs" and m: "mset ys = mset xs" using pp by blast+
  have len: "length ys = length xs" using m by (rule mset_eq_length)
  note st = sort_pass_set [OF Suc.prems(1) p]
  show ?case
  proof (cases s)
    case True
    then have "sorted_wrt before (take (Suc (Suc l)) xs @ drop (Suc (Suc l)) xs)"
      using pp Suc.prems(2,3) unfolding sorted_wrt_append by blast
    then show ?thesis using p True pp by (simp add: sort_loop.simps)
  next
    case False
    let ?m = "ys ! Suc l"
    have dl: "drop (Suc l) ys = ?m # drop (Suc (Suc l)) xs" and tl: "take (Suc (Suc l)) ys = take (Suc l) ys @ [?m]"
      using Suc.prems(1) len d by (simp_all add: Cons_nth_drop_Suc [symmetric] take_Suc_conv_app_nth)
    have cross: "before x y" if "x \<in> set (take (Suc (Suc l)) ys)" "y \<in> set (drop (Suc (Suc l)) xs)" for x y
      using that Suc.prems(3) st by blast
    have "sorted_wrt before (drop (Suc l) ys)" using dl Suc.prems(2) cross tl by simp
    moreover have "\<forall>x \<in> set (take (Suc l) ys). \<forall>y \<in> set (drop (Suc l) ys). before x y"
      using dl cross tl pp by auto
    ultimately have "mset (sort_loop l ys) = mset ys \<and> sorted_wrt before (sort_loop l ys)"
      using Suc.IH [of ys] Suc.prems(1) len by simp
    then show ?thesis using p False m sort_loop.simps [of "Suc l" xs] by simp
  qed
qed

lemma SortCardList_sorts:
  assumes "cards \<noteq> []" "length cards \<le> MAX_COUNT"
  shows "\<exists>ys. SortCardList cards = Some ys \<and> mset ys = mset cards \<and> sorted_wrt (\<lambda>a b. before (GetCardValue a, a) (GetCardValue b, b)) ys"
proof -
  let ?f = "\<lambda>c. (GetCardValue c, c)" and ?r = "sort_loop (length cards - 1) (map (\<lambda>c. (GetCardValue c, c)) cards)"
  have r: "mset ?r = mset (map ?f cards)" "sorted_wrt before ?r"
    using sort_loop_sorts [of "length cards - 1" "map ?f cards"] assms(1) by simp_all
  have "set ?r = set (map ?f cards)" using r(1) by (rule mset_eq_setD)
  then have "\<forall>x \<in> set ?r. x = ?f (snd x)" by auto
  then have "?r = map ?f (map snd ?r)" by (simp add: map_idI [symmetric])
  then have "sorted_wrt before (map ?f (map snd ?r))" using r(2) by simp
  then have "sorted_wrt (\<lambda>a b. before (?f a) (?f b)) (map snd ?r)" by (simp only: sorted_wrt_map)
  moreover have "mset (map snd ?r) = mset cards" using arg_cong [OF r(1), of "image_mset snd"] by (simp add: multiset.map_comp comp_def)
  ultimately show ?thesis using assms by (simp add: SortCardList_def not_less)
qed

section \<open>The rank of a hand\<close>

definition points :: "byte \<Rightarrow> nat" where
  "points c = unat (GetCardLogicValue c)"

lemma points_le: "points c \<le> 10"
  by (auto simp: points_def GetCardLogicValue_def word_less_nat_alt)

lemma unat_sum_points: "length cards \<le> 5 \<Longrightarrow> unat (sum_list (map GetCardLogicValue cards)) = sum_list (map points cards)"
proof -
  have le: "sum_list (map points cs) \<le> 10 * length cs" for cs
    by (induction cs) (simp_all add: add_mono points_le)
  have "sum_list (map points cs) < 256 \<Longrightarrow> unat (sum_list (map GetCardLogicValue cs)) = sum_list (map points cs)" for cs
    by (induction cs) (simp_all add: unat_word_ariths points_def)
  then show "length cards \<le> 5 \<Longrightarrow> ?thesis" using le [of cards] by simp
qed

lemma set_index_pairs: "set (index_pairs n) = {(i, j). i < j \<and> j < n}"
  by (force simp: index_pairs_def)

text \<open>The condition of the search in natural numbers: the other cards add up to a multiple of ten.\<close>

definition ox_pair :: "byte list \<Rightarrow> nat \<Rightarrow> nat \<Rightarrow> bool" where
  "ox_pair cards i j \<longleftrightarrow> i < j \<and> j < length cards \<and>
     (sum_list (map points cards) - points (cards ! i) - points (cards ! j)) mod 10 = 0"

lemma split_pair:
  assumes "i < j" "j < length xs"
  shows "mset xs = {#xs ! i, xs ! j#} + mset (remove_at i (remove_at j xs))"
proof -
  have "mset xs = add_mset (xs ! j) (mset (remove_at j xs))"
    using id_take_nth_drop [OF assms(2)] by (metis add.left_commute mset.simps(2) mset_append remove_at_def union_mset_add_mset_right)
  moreover have "remove_at j xs ! i = xs ! i" "i < length (remove_at j xs)"
    using assms by (simp_all add: remove_at_def nth_append)
  moreover have "mset ys = add_mset (ys ! i) (mset (remove_at i ys))" if "i < length ys" for ys :: "'a list"
    using id_take_nth_drop [OF that] by (metis mset.simps(2) mset_append remove_at_def union_mset_add_mset_right)
  ultimately show ?thesis by (metis add_mset_add_single add_mset_commute empty_neutral(1) union_mset_add_mset_left)
qed

lemma sum_points_mset: "sum_list (map points xs) = sum_mset (image_mset points (mset xs))"
  by (metis mset_map sum_mset_sum_list)

lemma find_ox_spec:
  assumes "length cards \<le> 5"
  shows "case find_ox cards of None \<Rightarrow> \<forall>i j. \<not> ox_pair cards i j | Some (i, j) \<Rightarrow> ox_pair cards i j"
proof -
  let ?t = "map GetCardLogicValue cards"
  define P where "P = (\<lambda>(i, j). (uint (sum_list ?t) - uint (?t ! i) - uint (?t ! j)) mod 10 = 0)"
  have f: "find_ox cards = List.find P (index_pairs (length cards))" by (simp add: find_ox_def Let_def P_def)
  have S: "int (sum_list (map points cards)) = uint (sum_list ?t)" by (simp flip: unat_sum_points [OF assms])
  have "((uint (sum_list ?t) - uint (?t ! i) - uint (?t ! j)) mod 10 = 0) = ox_pair cards i j" if "i < j" "j < length cards" for i j
  proof -
    have "points (cards ! i) + points (cards ! j) \<le> sum_list (map points cards)"
      unfolding sum_points_mset split_pair [OF that] by simp
    then have eq: "uint (sum_list ?t) - uint (?t ! i) - uint (?t ! j) = int (sum_list (map points cards) - points (cards ! i) - points (cards ! j))"
      using that by (simp add: S of_nat_diff) (simp add: points_def)
    have "(int n mod 10 = 0) = (n mod 10 = 0)" for n by presburger
    then show ?thesis unfolding eq using that by (simp only: ox_pair_def simp_thms)
  qed
  then have c: "P (i, j) = ox_pair cards i j" if "i < j" "j < length cards" for i j using that by (simp add: P_def)
  show ?thesis
  proof (cases "find_ox cards")
    case None
    then have "\<forall>x \<in> set (index_pairs (length cards)). \<not> P x" by (auto simp: f find_None_iff)
    then show ?thesis using None c by (auto simp: set_index_pairs ox_pair_def)
  next
    case (Some ij)
    then obtain k where k: "k < length (index_pairs (length cards))" "P ij" "ij = index_pairs (length cards) ! k"
      by (auto simp: f find_Some_iff)
    obtain i j where ij: "ij = (i, j)" by fastforce
    have "ij \<in> set (index_pairs (length cards))" using k by simp
    then show ?thesis using Some c k(2) ij by (simp add: set_index_pairs)
  qed
qed

text \<open>A hand has an ox when three of its five cards add up to a multiple of ten, that is, when it splits
  into a pair and a rest whose points do.\<close>

definition has_ox :: "byte multiset \<Rightarrow> bool" where
  "has_ox M \<longleftrightarrow> (\<exists>x y A. M = {#x, y#} + A \<and> 10 dvd sum_mset (image_mset points A))"

definition hand_points :: "byte multiset \<Rightarrow> nat" where
  "hand_points M = (let r = sum_mset (image_mset points M) mod 10 in if r = 0 then 10 else r)"

definition kings :: "byte multiset \<Rightarrow> nat" where
  "kings M = size (filter_mset (\<lambda>c. GetCardValue c > 10) M)"

definition hand_rank :: "byte multiset \<Rightarrow> byte" where
  "hand_rank M =
     (if kings M = 5 then OX_FIVEKING
      else if kings M = 4 \<and> size (filter_mset (\<lambda>c. GetCardValue c = 10) M) = 1 then OX_FOURKING
      else if has_ox M then of_nat (hand_points M) else OX_VALUE0)"

lemma pair_positions:
  assumes "mset xs = {#x, y#} + A"
  shows "\<exists>i j. i < j \<and> j < length xs \<and> {#xs ! i, xs ! j#} = {#x, y#}"
proof -
  have "x \<in> set xs" using assms by (metis add_mset_add_single set_mset_mset union_commute union_single_eq_member union_assoc)
  then obtain k where k: "k < length xs" "xs ! k = x" by (auto simp: in_set_conv_nth)
  have "mset xs = add_mset x (mset (remove_at k xs))"
    using id_take_nth_drop [OF k(1)] k(2) by (metis mset.simps(2) mset_append remove_at_def union_mset_add_mset_right)
  then have "y \<in> set (remove_at k xs)" using assms by (metis add_mset_add_single add_mset_remove_trivial set_mset_mset union_assoc union_commute union_single_eq_member)
  then obtain l where l: "l < length (remove_at k xs)" "remove_at k xs ! l = y" by (auto simp: in_set_conv_nth)
  show ?thesis
  proof (cases "l < k")
    case True
    then have "xs ! l = y" using l k(1) by (simp add: remove_at_def nth_append)
    then show ?thesis using True k by (intro exI [of _ l] exI [of _ k]) (simp add: add_mset_commute)
  next
    case False
    then have "xs ! Suc l = y" "Suc l < length xs" using l k(1) by (auto simp: remove_at_def nth_append)
    then show ?thesis using False k by (intro exI [of _ k] exI [of _ "Suc l"]) simp
  qed
qed

lemma ox_pair_iff_has_ox:
  "(\<exists>i j. ox_pair cards i j) \<longleftrightarrow> has_ox (mset cards)"
proof
  assume "\<exists>i j. ox_pair cards i j"
  then obtain i j where ij: "i < j" "j < length cards" "(sum_list (map points cards) - points (cards ! i) - points (cards ! j)) mod 10 = 0"
    by (auto simp: ox_pair_def)
  have "sum_list (map points cards) - points (cards ! i) - points (cards ! j) = sum_mset (image_mset points (mset (remove_at i (remove_at j cards))))"
    unfolding sum_points_mset split_pair [OF ij(1,2)] by simp
  then have "10 dvd sum_mset (image_mset points (mset (remove_at i (remove_at j cards))))" using ij(3) by auto
  then show "has_ox (mset cards)" using split_pair [OF ij(1,2)] unfolding has_ox_def by blast
next
  assume "has_ox (mset cards)"
  then obtain x y A where A: "mset cards = {#x, y#} + A" "10 dvd sum_mset (image_mset points A)" by (auto simp: has_ox_def)
  obtain i j where ij: "i < j" "j < length cards" "{#cards ! i, cards ! j#} = {#x, y#}" using pair_positions [OF A(1)] by blast
  have "sum_list (map points cards) = points (cards ! i) + points (cards ! j) + sum_mset (image_mset points A)"
    unfolding sum_points_mset A(1) ij(3) [symmetric] by simp
  then show "\<exists>i j. ox_pair cards i j" using ij(1,2) A(2) unfolding ox_pair_def by (intro exI [of _ i] exI [of _ j]) auto
qed

lemma points_of_pair:
  assumes "S mod 10 = s mod 10" "0 < s" "s \<le> (20 :: nat)"
  shows "(if s > 10 then s - 10 else s) = (if S mod 10 = 0 then 10 else S mod 10)"
proof (cases "s < 10")
  case False
  then have "s mod 10 = (s - 10) mod 10" by (simp add: le_mod_geq)
  moreover have "s = 20 \<or> s - 10 < 10" using assms(3) by linarith
  ultimately show ?thesis using assms False by auto
qed (use assms in simp)

lemma ox_pair_points:
  assumes "ox_pair cards i j" "\<forall>c \<in> set cards. GetCardValue c \<noteq> 0"
  shows "(let s = points (cards ! i) + points (cards ! j) in if s > 10 then s - 10 else s) = hand_points (mset cards)"
proof -
  let ?s = "points (cards ! i) + points (cards ! j)"
  have ij: "i < j" "j < length cards" using assms(1) by (simp_all add: ox_pair_def)
  define S where "S = sum_list (map points cards)"
  have "?s \<le> S" unfolding S_def sum_points_mset split_pair [OF ij] by simp
  moreover have "(S - ?s) mod 10 = 0" using assms(1) by (simp add: ox_pair_def S_def)
  ultimately have "S mod 10 = ?s mod 10" using mod_eq_dvd_iff_nat [of ?s S 10] by (simp add: dvd_eq_mod_eq_0)
  moreover have "points c > 0" if "c \<in> set cards" for c
    using assms(2) that by (auto simp: points_def GetCardLogicValue_def unat_gt_0)
  then have "?s > 0" "?s \<le> 20" using ij points_le [of "cards ! i"] points_le [of "cards ! j"] by simp_all
  moreover have "hand_points (mset cards) = (let r = S mod 10 in if r = 0 then 10 else r)"
    by (simp add: hand_points_def S_def sum_points_mset)
  ultimately show ?thesis using points_of_pair [of S ?s] by (simp add: Let_def)
qed

text \<open>What the search returns, for any cards: a number of at most ten.\<close>

lemma GetCardType_cases:
  assumes "length cards = 5"
  shows "GetCardType cards = Some (if kings (mset cards) = 5 then OX_FIVEKING
    else if kings (mset cards) = 4 \<and> size (filter_mset (\<lambda>c. GetCardValue c = 10) (mset cards)) = 1 then OX_FOURKING
    else case find_ox cards of None \<Rightarrow> OX_VALUE0
      | Some (i, j) \<Rightarrow> of_nat (let s = points (cards ! i) + points (cards ! j) in if s > 10 then s - 10 else s))"
proof -
  have l: "length (filter P cards) = size (filter_mset P (mset cards))" for P by (metis mset_filter size_mset)
  have "(let s = uint (GetCardLogicValue c) + uint (GetCardLogicValue d) in word_of_int (if s > 10 then s - 10 else s)) =
      (of_nat (let s = points c + points d in if s > 10 then s - 10 else s) :: byte)" for c d
  proof -
    have "uint (GetCardLogicValue c) + uint (GetCardLogicValue d) = int (points c + points d)" by (simp add: points_def)
    then show ?thesis by (simp only: Let_def) (auto simp: of_nat_diff)
  qed
  moreover have "i < 5 \<and> j < 5" if "find_ox cards = Some (i, j)" for i j
    using find_ox_spec [of cards] that assms by (simp add: ox_pair_def)
  ultimately show ?thesis using assms l
    by (cases "find_ox cards") (auto simp: GetCardType_def ox_types kings_def)
qed

lemma GetCardType_not_same:
  assumes "length cards = 5"
  shows "\<exists>t. GetCardType cards = Some t \<and> t \<noteq> OX_THREE_SAME \<and> t \<noteq> OX_FOUR_SAME"
proof -
  have "of_nat n \<noteq> (102 :: byte) \<and> of_nat n \<noteq> (103 :: byte)" if "n \<le> 10" for n :: nat
    using that by (auto simp: word_unat_eq_iff unat_of_nat)
  moreover have "(let s = points c + points d in if s > 10 then s - 10 else s) \<le> 10" for c d
    using points_le [of c] points_le [of d] by (simp add: Let_def le_diff_conv)
  ultimately show ?thesis using GetCardType_cases [OF assms] by (auto simp: ox_types split: option.splits)
qed

lemma card_parts:
  assumes "GetCardValue a = GetCardValue b" "GetCardColor a = GetCardColor b"
  shows "a = b"
proof -
  have "(0x0F OR 0xF0 :: byte) = - 1" by code_simp
  then have "c = (GetCardValue c OR GetCardColor c)" for c
    unfolding GetCardValue_def GetCardColor_def by (simp only: bit.conj_disj_distrib [symmetric] bit.conj_one_right)
  then show ?thesis using assms by metis
qed

lemma compare_max_decides:
  assumes "length a = 5" "length b = 5" "set a \<inter> set b = {}"
  shows "\<exists>r. compare_max a b = Some r \<and> compare_max b a = Some (\<not> r)"
proof -
  have ne: "a \<noteq> []" "b \<noteq> []" "length a \<le> MAX_COUNT" "length b \<le> MAX_COUNT" using assms by (auto simp: MAX_COUNT_def)
  obtain x y where x: "SortCardList a = Some x" "mset x = mset a" and y: "SortCardList b = Some y" "mset y = mset b"
    using SortCardList_sorts [OF ne(1,3)] SortCardList_sorts [OF ne(2,4)] by auto
  have "length x = 5" "length y = 5" using mset_eq_length [OF x(2)] mset_eq_length [OF y(2)] assms by simp_all
  then have "x ! 0 \<in> set a" "y ! 0 \<in> set b" using mset_eq_setD [OF x(2)] mset_eq_setD [OF y(2)] nth_mem [of 0 x] nth_mem [of 0 y] by auto
  then have "x ! 0 \<noteq> y ! 0" using assms(3) by auto
  then have "GetCardValue (x ! 0) \<noteq> GetCardValue (y ! 0) \<or> GetCardColor (x ! 0) \<noteq> GetCardColor (y ! 0)" using card_parts by blast
  then show ?thesis using x(1) y(1) by (auto simp: compare_max_def not_less)
qed

section \<open>The properties\<close>

text \<open>Property C19: the rank of a hand is the one of the rules and does not depend on the order of the cards: five court
  cards, four court cards and a ten, or, when three cards add up to a multiple of ten, the
  points of the hand modulo ten (ten for none), whichever triple the search finds; and zero otherwise.\<close>
theorem GetCardType_rank:
  assumes "length cards = 5" "\<forall>c \<in> set cards. GetCardValue c \<noteq> 0"
  shows "GetCardType cards = Some (hand_rank (mset cards))"
proof (cases "find_ox cards")
  case None
  then have "\<not> has_ox (mset cards)" using find_ox_spec [of cards] assms(1) ox_pair_iff_has_ox [of cards] by simp
  then show ?thesis using GetCardType_cases [OF assms(1)] None by (simp add: hand_rank_def)
next
  case (Some ij)
  then obtain i j where ij: "find_ox cards = Some (i, j)" "ox_pair cards i j" using find_ox_spec [of cards] assms(1) by (cases ij) auto
  then have "has_ox (mset cards)" using ox_pair_iff_has_ox by blast
  then show ?thesis using GetCardType_cases [OF assms(1)] ij(1) ox_pair_points [OF ij(2) assms(2)] by (simp add: hand_rank_def)
qed

theorem GetCardType_rank_witness:
  "GetCardType [0x07, 0x18, 0x25, 0x3B, 0x02] = Some (hand_rank (mset [0x07, 0x18, 0x25, 0x3B, 0x02]))"
  by (rule GetCardType_rank) (simp_all add: GetCardValue_def)

text \<open>Property C20: two hands without a common card never tie: exactly one of the two comparisons \<open>CompareCard\<close> of the hands
  says that the first one wins.\<close>
theorem CompareCard_decides:
  assumes "length a = 5" "length b = 5" "set a \<inter> set b = {}"
  shows "\<exists>r. CompareCard a b FirstOX NextOX = Some r \<and> CompareCard b a NextOX FirstOX = Some (\<not> r)"
proof -
  obtain ta tb where t: "GetCardType a = Some ta" "GetCardType b = Some tb" "tb \<noteq> OX_THREE_SAME" "tb \<noteq> OX_FOUR_SAME"
    using GetCardType_not_same [OF assms(1)] GetCardType_not_same [OF assms(2)] by blast
  then show ?thesis using compare_max_decides [OF assms] linorder_less_linear [of ta tb]
    by (auto simp: CompareCard_def)
qed

theorem CompareCard_decides_witness:
  "\<exists>r. CompareCard [0x07, 0x18, 0x25, 0x3B, 0x02] [0x17, 0x28, 0x15, 0x3C, 0x12] 1 1 = Some r \<and>
    CompareCard [0x17, 0x28, 0x15, 0x3C, 0x12] [0x07, 0x18, 0x25, 0x3B, 0x02] 1 1 = Some (\<not> r)"
  by (rule CompareCard_decides) simp_all

text \<open>Property C21: dealing. Whatever the values of \<open>rand\<close>, asking for between 1 and 52 cards deals as many, all of the deck and no card
  twice, without leaving the array.\<close>
theorem RandCardList_deals:
  assumes "1 \<le> n" "n \<le> 52"
  shows "\<exists>buf. RandCardList rnd n = Some buf \<and> length buf = n \<and> distinct buf \<and> set buf \<subseteq> set m_cbCardListData"
proof -
  obtain buf where b: "rand_loop rnd 0 [] m_cbCardListData n = Some buf" "length buf = n" "mset buf \<subseteq># mset m_cbCardListData"
    using rand_loop_deals [of m_cbCardListData 52 0 n "[]" "mset m_cbCardListData" rnd] deck(2) assms(2) by auto
  obtain C where C: "mset m_cbCardListData = mset buf + C" using b(3) by (auto simp: subset_mset.le_iff_add)
  then have "mset m_cbCardListData = mset (buf @ sorted_list_of_multiset C)" by simp
  from mset_eq_imp_distinct_iff [OF this] have "distinct (buf @ sorted_list_of_multiset C)" using deck(1) by simp
  moreover have "set buf \<subseteq> set m_cbCardListData" using b(3) set_mset_mono by fastforce
  ultimately show ?thesis using b assms(1) by (auto simp: RandCardList_def max_def)
qed

theorem RandCardList_deals_witness:
  "\<exists>buf. RandCardList (\<lambda>k. 31 * k) 25 = Some buf \<and> length buf = 25 \<and> distinct buf \<and> set buf \<subseteq> set m_cbCardListData"
  by (rule RandCardList_deals) simp_all

end
