(* ===== verification/Packet_Codec.thy ===== *)
theory Packet_Codec
  imports Kernel_Events
begin

text \<open>
  The packets on the wire: the head \<open>TCP_Head\<close> of \<open>Packet.h\<close>, and the byte mapping with its check code in
  \<open>EncryptBuffer\<close> and \<open>CrevasseBuffer\<close> of \<open>YSEncrypt.cpp\<close>, with \<open>MapEncrypt\<close> and \<open>MapCrevasse\<close>, which
  apply the same maps to strings. Buffers are blocks of bytes; the assertions are those of a debug build and have no
  effect. An exception thrown is a value of \<open>packet_error\<close>.
\<close>

section \<open>Heads\<close>

definition SOCKET_TCP_VER :: byte where "SOCKET_TCP_VER = 1"
definition DK_MAPPED :: byte where "DK_MAPPED = 1"
definition SOCKET_TCP_BUFFER :: nat where "SOCKET_TCP_BUFFER = 16384"
definition MDM_KN_COMMAND :: uint16 where "MDM_KN_COMMAND = 0"
definition SUB_KN_DETECT_SOCKET :: uint16 where "SUB_KN_DETECT_SOCKET = 1"
definition SUB_KN_VALIDATE_SOCKET :: uint16 where "SUB_KN_VALIDATE_SOCKET = 2"

record TCP_Info =
  cbDataKind :: byte
  cbCheckCode :: byte
  wPacketSize :: uint16

record TCP_Head =
  TCPInfo :: TCP_Info
  CommandInfo :: TCP_Command

text \<open>The packed structures, in the layout of \<open>#pragma pack(1)\<close>: 4 and 8 bytes.\<close>

definition le_info :: "TCP_Info \<Rightarrow> byte list" where
  "le_info i = [cbDataKind i, cbCheckCode i] @ le_word (wPacketSize i)"

definition le_head :: "TCP_Head \<Rightarrow> byte list" where
  "le_head h = le_info (TCPInfo h) @ le_command (CommandInfo h)"

definition head_at :: "byte list \<Rightarrow> TCP_Head option" where
  "head_at b = do {
     k \<leftarrow> field 0 b;
     c \<leftarrow> field 1 b;
     n \<leftarrow> field 2 b;
     cmd \<leftarrow> field_command 4 b;
     Some \<lparr>TCPInfo = \<lparr>cbDataKind = k, cbCheckCode = c, wPacketSize = n\<rparr>, CommandInfo = cmd\<rparr>
   }"

datatype packet_error = PacketTooLong | PacketIllegal | PacketVersion | PacketCheckCode | IllegalCommand

section \<open>The byte maps\<close>

definition g_SendByteMap :: "byte list" where
  "g_SendByteMap =
    [0x70, 0x2F, 0x40, 0x5F, 0x44, 0x8E, 0x6E, 0x45, 0x7E, 0xAB, 0x2C, 0x1F, 0xB4, 0xAC, 0x9D, 0x91,
     0x0D, 0x36, 0x9B, 0x0B, 0xD4, 0xC4, 0x39, 0x74, 0xBF, 0x23, 0x16, 0x14, 0x06, 0xEB, 0x04, 0x3E,
     0x12, 0x5C, 0x8B, 0xBC, 0x61, 0x63, 0xF6, 0xA5, 0xE1, 0x65, 0xD8, 0xF5, 0x5A, 0x07, 0xF0, 0x13,
     0xF2, 0x20, 0x6B, 0x4A, 0x24, 0x59, 0x89, 0x64, 0xD7, 0x42, 0x6A, 0x5E, 0x3D, 0x0A, 0x77, 0xE0,
     0x80, 0x27, 0xB8, 0xC5, 0x8C, 0x0E, 0xFA, 0x8A, 0xD5, 0x29, 0x56, 0x57, 0x6C, 0x53, 0x67, 0x41,
     0xE8, 0x00, 0x1A, 0xCE, 0x86, 0x83, 0xB0, 0x22, 0x28, 0x4D, 0x3F, 0x26, 0x46, 0x4F, 0x6F, 0x2B,
     0x72, 0x3A, 0xF1, 0x8D, 0x97, 0x95, 0x49, 0x84, 0xE5, 0xE3, 0x79, 0x8F, 0x51, 0x10, 0xA8, 0x82,
     0xC6, 0xDD, 0xFF, 0xFC, 0xE4, 0xCF, 0xB3, 0x09, 0x5D, 0xEA, 0x9C, 0x34, 0xF9, 0x17, 0x9F, 0xDA,
     0x87, 0xF8, 0x15, 0x05, 0x3C, 0xD3, 0xA4, 0x85, 0x2E, 0xFB, 0xEE, 0x47, 0x3B, 0xEF, 0x37, 0x7F,
     0x93, 0xAF, 0x69, 0x0C, 0x71, 0x31, 0xDE, 0x21, 0x75, 0xA0, 0xAA, 0xBA, 0x7C, 0x38, 0x02, 0xB7,
     0x81, 0x01, 0xFD, 0xE7, 0x1D, 0xCC, 0xCD, 0xBD, 0x1B, 0x7A, 0x2A, 0xAD, 0x66, 0xBE, 0x55, 0x33,
     0x03, 0xDB, 0x88, 0xB2, 0x1E, 0x4E, 0xB9, 0xE6, 0xC2, 0xF7, 0xCB, 0x7D, 0xC9, 0x62, 0xC3, 0xA6,
     0xDC, 0xA7, 0x50, 0xB5, 0x4B, 0x94, 0xC0, 0x92, 0x4C, 0x11, 0x5B, 0x78, 0xD9, 0xB1, 0xED, 0x19,
     0xE9, 0xA1, 0x1C, 0xB6, 0x32, 0x99, 0xA3, 0x76, 0x9E, 0x7B, 0x6D, 0x9A, 0x30, 0xD6, 0xA9, 0x25,
     0xC7, 0xAE, 0x96, 0x35, 0xD0, 0xBB, 0xD2, 0xC8, 0xA2, 0x08, 0xF3, 0xD1, 0x73, 0xF4, 0x48, 0x2D,
     0x90, 0xCA, 0xE2, 0x58, 0xC1, 0x18, 0x52, 0xFE, 0xDF, 0x68, 0x98, 0x54, 0xEC, 0x60, 0x43, 0x0F]"

definition g_RecvByteMap :: "byte list" where
  "g_RecvByteMap =
    [0x51, 0xA1, 0x9E, 0xB0, 0x1E, 0x83, 0x1C, 0x2D, 0xE9, 0x77, 0x3D, 0x13, 0x93, 0x10, 0x45, 0xFF,
     0x6D, 0xC9, 0x20, 0x2F, 0x1B, 0x82, 0x1A, 0x7D, 0xF5, 0xCF, 0x52, 0xA8, 0xD2, 0xA4, 0xB4, 0x0B,
     0x31, 0x97, 0x57, 0x19, 0x34, 0xDF, 0x5B, 0x41, 0x58, 0x49, 0xAA, 0x5F, 0x0A, 0xEF, 0x88, 0x01,
     0xDC, 0x95, 0xD4, 0xAF, 0x7B, 0xE3, 0x11, 0x8E, 0x9D, 0x16, 0x61, 0x8C, 0x84, 0x3C, 0x1F, 0x5A,
     0x02, 0x4F, 0x39, 0xFE, 0x04, 0x07, 0x5C, 0x8B, 0xEE, 0x66, 0x33, 0xC4, 0xC8, 0x59, 0xB5, 0x5D,
     0xC2, 0x6C, 0xF6, 0x4D, 0xFB, 0xAE, 0x4A, 0x4B, 0xF3, 0x35, 0x2C, 0xCA, 0x21, 0x78, 0x3B, 0x03,
     0xFD, 0x24, 0xBD, 0x25, 0x37, 0x29, 0xAC, 0x4E, 0xF9, 0x92, 0x3A, 0x32, 0x4C, 0xDA, 0x06, 0x5E,
     0x00, 0x94, 0x60, 0xEC, 0x17, 0x98, 0xD7, 0x3E, 0xCB, 0x6A, 0xA9, 0xD9, 0x9C, 0xBB, 0x08, 0x8F,
     0x40, 0xA0, 0x6F, 0x55, 0x67, 0x87, 0x54, 0x80, 0xB2, 0x36, 0x47, 0x22, 0x44, 0x63, 0x05, 0x6B,
     0xF0, 0x0F, 0xC7, 0x90, 0xC5, 0x65, 0xE2, 0x64, 0xFA, 0xD5, 0xDB, 0x12, 0x7A, 0x0E, 0xD8, 0x7E,
     0x99, 0xD1, 0xE8, 0xD6, 0x86, 0x27, 0xBF, 0xC1, 0x6E, 0xDE, 0x9A, 0x09, 0x0D, 0xAB, 0xE1, 0x91,
     0x56, 0xCD, 0xB3, 0x76, 0x0C, 0xC3, 0xD3, 0x9F, 0x42, 0xB6, 0x9B, 0xE5, 0x23, 0xA7, 0xAD, 0x18,
     0xC6, 0xF4, 0xB8, 0xBE, 0x15, 0x43, 0x70, 0xE0, 0xE7, 0xBC, 0xF1, 0xBA, 0xA5, 0xA6, 0x53, 0x75,
     0xE4, 0xEB, 0xE6, 0x85, 0x14, 0x48, 0xDD, 0x38, 0x2A, 0xCC, 0x7F, 0xB1, 0xC0, 0x71, 0x96, 0xF8,
     0x3F, 0x28, 0xF2, 0x69, 0x74, 0x68, 0xB7, 0xA3, 0x50, 0xD0, 0x79, 0x1D, 0xFC, 0xCE, 0x8A, 0x8D,
     0x2E, 0x62, 0x30, 0xEA, 0xED, 0x2B, 0x26, 0xB9, 0x81, 0x7C, 0x46, 0x89, 0x73, 0xA2, 0xF7, 0x72]"

definition g_cbEncryptMap :: "byte list" where
  "g_cbEncryptMap =
    [0x70, 0x2F, 0x40, 0x5F, 0x44, 0x8E, 0x6E, 0x45, 0x7E, 0xAB, 0x2C, 0x1F, 0xB4, 0xAC, 0x9D, 0x91,
     0x0D, 0x36, 0x9B, 0x0B, 0xD4, 0xC4, 0x39, 0x74, 0xBF, 0x23, 0x16, 0x14, 0x06, 0xEB, 0x04, 0x3E,
     0x12, 0x5C, 0x8B, 0xBC, 0x61, 0x63, 0xF6, 0xA5, 0xE1, 0x65, 0xD8, 0xF5, 0x5A, 0x07, 0xF0, 0x13,
     0xF2, 0x20, 0x6B, 0x4A, 0x24, 0x59, 0x89, 0x64, 0xD7, 0x42, 0x6A, 0x5E, 0x3D, 0x0A, 0x77, 0xE0,
     0x80, 0x27, 0xB8, 0xC5, 0x8C, 0x0E, 0xFA, 0x8A, 0xD5, 0x29, 0x56, 0x57, 0x6C, 0x53, 0x67, 0x41,
     0xE8, 0x00, 0x1A, 0xCE, 0x86, 0x83, 0xB0, 0x22, 0x28, 0x4D, 0x3F, 0x26, 0x46, 0x4F, 0x6F, 0x2B,
     0x72, 0x3A, 0xF1, 0x8D, 0x97, 0x95, 0x49, 0x84, 0xE5, 0xE3, 0x79, 0x8F, 0x51, 0x10, 0xA8, 0x82,
     0xC6, 0xDD, 0xFF, 0xFC, 0xE4, 0xCF, 0xB3, 0x09, 0x5D, 0xEA, 0x9C, 0x34, 0xF9, 0x17, 0x9F, 0xDA,
     0x87, 0xF8, 0x15, 0x05, 0x3C, 0xD3, 0xA4, 0x85, 0x2E, 0xFB, 0xEE, 0x47, 0x3B, 0xEF, 0x37, 0x7F,
     0x93, 0xAF, 0x69, 0x0C, 0x71, 0x31, 0xDE, 0x21, 0x75, 0xA0, 0xAA, 0xBA, 0x7C, 0x38, 0x02, 0xB7,
     0x81, 0x01, 0xFD, 0xE7, 0x1D, 0xCC, 0xCD, 0xBD, 0x1B, 0x7A, 0x2A, 0xAD, 0x66, 0xBE, 0x55, 0x33,
     0x03, 0xDB, 0x88, 0xB2, 0x1E, 0x4E, 0xB9, 0xE6, 0xC2, 0xF7, 0xCB, 0x7D, 0xC9, 0x62, 0xC3, 0xA6,
     0xDC, 0xA7, 0x50, 0xB5, 0x4B, 0x94, 0xC0, 0x92, 0x4C, 0x11, 0x5B, 0x78, 0xD9, 0xB1, 0xED, 0x19,
     0xE9, 0xA1, 0x1C, 0xB6, 0x32, 0x99, 0xA3, 0x76, 0x9E, 0x7B, 0x6D, 0x9A, 0x30, 0xD6, 0xA9, 0x25,
     0xC7, 0xAE, 0x96, 0x35, 0xD0, 0xBB, 0xD2, 0xC8, 0xA2, 0x08, 0xF3, 0xD1, 0x73, 0xF4, 0x48, 0x2D,
     0x90, 0xCA, 0xE2, 0x58, 0xC1, 0x18, 0x52, 0xFE, 0xDF, 0x68, 0x98, 0x54, 0xEC, 0x60, 0x43, 0x0F]"

definition g_cbCrevasseMap :: "byte list" where
  "g_cbCrevasseMap =
    [0x51, 0xA1, 0x9E, 0xB0, 0x1E, 0x83, 0x1C, 0x2D, 0xE9, 0x77, 0x3D, 0x13, 0x93, 0x10, 0x45, 0xFF,
     0x6D, 0xC9, 0x20, 0x2F, 0x1B, 0x82, 0x1A, 0x7D, 0xF5, 0xCF, 0x52, 0xA8, 0xD2, 0xA4, 0xB4, 0x0B,
     0x31, 0x97, 0x57, 0x19, 0x34, 0xDF, 0x5B, 0x41, 0x58, 0x49, 0xAA, 0x5F, 0x0A, 0xEF, 0x88, 0x01,
     0xDC, 0x95, 0xD4, 0xAF, 0x7B, 0xE3, 0x11, 0x8E, 0x9D, 0x16, 0x61, 0x8C, 0x84, 0x3C, 0x1F, 0x5A,
     0x02, 0x4F, 0x39, 0xFE, 0x04, 0x07, 0x5C, 0x8B, 0xEE, 0x66, 0x33, 0xC4, 0xC8, 0x59, 0xB5, 0x5D,
     0xC2, 0x6C, 0xF6, 0x4D, 0xFB, 0xAE, 0x4A, 0x4B, 0xF3, 0x35, 0x2C, 0xCA, 0x21, 0x78, 0x3B, 0x03,
     0xFD, 0x24, 0xBD, 0x25, 0x37, 0x29, 0xAC, 0x4E, 0xF9, 0x92, 0x3A, 0x32, 0x4C, 0xDA, 0x06, 0x5E,
     0x00, 0x94, 0x60, 0xEC, 0x17, 0x98, 0xD7, 0x3E, 0xCB, 0x6A, 0xA9, 0xD9, 0x9C, 0xBB, 0x08, 0x8F,
     0x40, 0xA0, 0x6F, 0x55, 0x67, 0x87, 0x54, 0x80, 0xB2, 0x36, 0x47, 0x22, 0x44, 0x63, 0x05, 0x6B,
     0xF0, 0x0F, 0xC7, 0x90, 0xC5, 0x65, 0xE2, 0x64, 0xFA, 0xD5, 0xDB, 0x12, 0x7A, 0x0E, 0xD8, 0x7E,
     0x99, 0xD1, 0xE8, 0xD6, 0x86, 0x27, 0xBF, 0xC1, 0x6E, 0xDE, 0x9A, 0x09, 0x0D, 0xAB, 0xE1, 0x91,
     0x56, 0xCD, 0xB3, 0x76, 0x0C, 0xC3, 0xD3, 0x9F, 0x42, 0xB6, 0x9B, 0xE5, 0x23, 0xA7, 0xAD, 0x18,
     0xC6, 0xF4, 0xB8, 0xBE, 0x15, 0x43, 0x70, 0xE0, 0xE7, 0xBC, 0xF1, 0xBA, 0xA5, 0xA6, 0x53, 0x75,
     0xE4, 0xEB, 0xE6, 0x85, 0x14, 0x48, 0xDD, 0x38, 0x2A, 0xCC, 0x7F, 0xB1, 0xC0, 0x71, 0x96, 0xF8,
     0x3F, 0x28, 0xF2, 0x69, 0x74, 0x68, 0xB7, 0xA3, 0x50, 0xD0, 0x79, 0x1D, 0xFC, 0xCE, 0x8A, 0x8D,
     0x2E, 0x62, 0x30, 0xEA, 0xED, 0x2B, 0x26, 0xB9, 0x81, 0x7C, 0x46, 0x89, 0x73, 0xA2, 0xF7, 0x72]"

section \<open>Encryption and decryption of a packet\<close>

text \<open>The loop over the bytes from \<open>i\<close> to \<open>n\<close>: the code sums the plain bytes and maps them in place.\<close>

function encrypt_loop :: "nat \<Rightarrow> nat \<Rightarrow> byte \<Rightarrow> byte list \<Rightarrow> (byte \<times> byte list) option" where
  "encrypt_loop i n code b =
     (if i < n then
        if i < length b then encrypt_loop (Suc i) n (code + b ! i) (b[i := g_SendByteMap ! unat (b ! i)])
        else None
      else Some (code, b))"
  by pat_completeness auto
termination
  by (relation "measure (\<lambda>(i, n, c, b). n - i)") auto

function crevasse_loop :: "nat \<Rightarrow> nat \<Rightarrow> byte \<Rightarrow> byte list \<Rightarrow> (byte \<times> byte list) option" where
  "crevasse_loop i n code b =
     (if i < n then
        if i < length b then
          (let b = b[i := g_RecvByteMap ! unat (b ! i)] in crevasse_loop (Suc i) n (code + b ! i) b)
        else None
      else Some (code, b))"
  by pat_completeness auto
termination
  by (relation "measure (\<lambda>(i, n, c, b). n - i)") auto

declare encrypt_loop.simps [simp del] crevasse_loop.simps [simp del]

text \<open>The bytes up to the next multiple of four are cleared, behind the packet. \<open>TCP_Info\<close> and \<open>TCP_Command\<close>
  have the same size, so that the last argument of the source has no effect.\<close>

definition snap :: "nat \<Rightarrow> uint16 \<Rightarrow> byte list \<Rightarrow> byte list option" where
  "snap off n b = (if unat n mod 4 \<noteq> 0 then mem_write (off + unat n) (replicate (4 - unat n mod 4) 0) b else Some b)"

definition EncryptBuffer :: "byte list \<Rightarrow> uint16 \<Rightarrow> uint16 \<Rightarrow> bool \<Rightarrow> (uint16 \<times> byte list) option" where
  "EncryptBuffer pcbDataBuffer n wBufferSize bClient = do {
     let wEncryptSize = n - (if bClient then 4 else 4);
     b \<leftarrow> snap 4 wEncryptSize pcbDataBuffer;
     (code, b) \<leftarrow> encrypt_loop 4 (unat n) 0 b;
     b \<leftarrow> mem_write 1 (le_word (NOT code + 1)) b;
     b \<leftarrow> mem_write 2 (le_word n) b;
     b \<leftarrow> mem_write 0 (le_word SOCKET_TCP_VER) b;
     Some (n, b)
   }"

definition CrevasseBuffer :: "byte list \<Rightarrow> uint16 \<Rightarrow> (packet_error + (uint16 \<times> byte list)) option" where
  "CrevasseBuffer pcbDataBuffer n = do {
     b \<leftarrow> snap 0 n pcbDataBuffer;
     c \<leftarrow> field 1 b;
     (code, b) \<leftarrow> crevasse_loop 4 (unat n) c b;
     Some (if code \<noteq> 0 then Inl PacketCheckCode else Inr (n, b))
   }"

text \<open>The maps on strings of two-byte characters (the build is Unicode): \<open>lstrlen\<close> counts up to the terminator, and
  the loop maps that many characters from one block to another.\<close>

fun lstrlen :: "byte list \<Rightarrow> nat option" where
  "lstrlen (a # b # bs) = (if a = 0 \<and> b = 0 then Some 0 else map_option Suc (lstrlen bs))"
| "lstrlen _ = None"

definition map_string :: "byte list \<Rightarrow> byte list \<Rightarrow> byte list \<Rightarrow> byte list option" where
  "map_string tab src dst = do {
     nLength \<leftarrow> lstrlen src;
     xs \<leftarrow> mem_read 0 (nLength * 2) src;
     dst \<leftarrow> mem_write 0 (map (\<lambda>cbIndex. tab ! unat cbIndex) xs) dst;
     mem_write (nLength * 2) [0, 0] dst
   }"

definition MapEncrypt :: "byte list \<Rightarrow> byte list \<Rightarrow> byte list option" where
  "MapEncrypt pszSourceData pszEncrypData = map_string g_cbEncryptMap pszSourceData pszEncrypData"

definition MapCrevasse :: "byte list \<Rightarrow> byte list \<Rightarrow> byte list option" where
  "MapCrevasse pszEncrypData pszSourceData = map_string g_cbCrevasseMap pszEncrypData pszSourceData"

section \<open>The maps are inverse permutations\<close>

abbreviation send_byte :: "byte \<Rightarrow> byte" where "send_byte x \<equiv> g_SendByteMap ! unat x"
abbreviation recv_byte :: "byte \<Rightarrow> byte" where "recv_byte x \<equiv> g_RecvByteMap ! unat x"

lemma byte_maps_same: "g_cbEncryptMap = g_SendByteMap" "g_cbCrevasseMap = g_RecvByteMap"
  by (simp_all add: g_cbEncryptMap_def g_SendByteMap_def g_cbCrevasseMap_def g_RecvByteMap_def)

lemma recv_map_table: "map (\<lambda>x. recv_byte x) g_SendByteMap = map of_nat [0..<256]"
  by code_simp

lemma length_byte_map: "length g_SendByteMap = 256"
  by (simp add: g_SendByteMap_def)

lemma recv_send_byte: "recv_byte (send_byte x) = x"
proof -
  have l: "unat x < 256" using unsigned_less [of x] by simp
  then have "recv_byte (send_byte x) = map (\<lambda>x. recv_byte x) g_SendByteMap ! unat x"
    by (simp add: length_byte_map)
  also have "\<dots> = x" using l by (simp add: recv_map_table)
  finally show ?thesis .
qed

lemma send_byte_inj: "send_byte x = send_byte y \<longleftrightarrow> x = y"
  by (metis recv_send_byte)

lemma send_recv_byte: "send_byte (recv_byte x) = x"
proof -
  have "inj send_byte" by (simp add: inj_def send_byte_inj)
  then have "surj send_byte" using finite_UNIV_inj_surj [of send_byte] by simp
  then obtain y where "x = send_byte y" by (meson surjD)
  then show ?thesis by (simp add: recv_send_byte)
qed

section \<open>What the loops compute\<close>

lemma encrypt_loop_form:
  assumes "i + length xs \<le> length b" "n = i + length xs" "take (length xs) (drop i b) = xs"
  shows "encrypt_loop i n c b = Some (c + sum_list xs, take i b @ map (\<lambda>x. send_byte x) xs @ drop n b)"
  using assms
proof (induction xs arbitrary: i b c)
  case Nil
  then show ?case by (simp add: encrypt_loop.simps)
next
  case (Cons x xs)
  have i: "i < n" "i < length b" using Cons.prems by auto
  have d: "drop i b = b ! i # drop (Suc i) b" using i(2) by (simp add: Cons_nth_drop_Suc)
  then have x: "b ! i = x" and xs: "take (length xs) (drop (Suc i) b) = xs" using Cons.prems(3) by auto
  have "encrypt_loop i n c b = encrypt_loop (Suc i) n (c + x) (b[i := send_byte x])"
    using i x by (subst encrypt_loop.simps) simp
  also have "\<dots> = Some (c + x + sum_list xs, take (Suc i) (b[i := send_byte x]) @ map (\<lambda>x. send_byte x) xs @ drop n (b[i := send_byte x]))"
    by (rule Cons.IH) (use Cons.prems xs in auto)
  also have "take (Suc i) (b[i := send_byte x]) = take i b @ [send_byte x]"
    using i(2) by (simp add: take_Suc_conv_app_nth)
  finally show ?case using i by (simp add: add.assoc)
qed

lemma crevasse_loop_form:
  assumes "i + length xs \<le> length b" "n = i + length xs" "take (length xs) (drop i b) = xs"
  shows "crevasse_loop i n c b = Some (c + sum_list (map (\<lambda>x. recv_byte x) xs), take i b @ map (\<lambda>x. recv_byte x) xs @ drop n b)"
  using assms
proof (induction xs arbitrary: i b c)
  case Nil
  then show ?case by (simp add: crevasse_loop.simps)
next
  case (Cons x xs)
  have i: "i < n" "i < length b" using Cons.prems by auto
  have d: "drop i b = b ! i # drop (Suc i) b" using i(2) by (simp add: Cons_nth_drop_Suc)
  then have x: "b ! i = x" and xs: "take (length xs) (drop (Suc i) b) = xs" using Cons.prems(3) by auto
  have "crevasse_loop i n c b = crevasse_loop (Suc i) n (c + recv_byte x) (b[i := recv_byte x])"
    using i x by (subst crevasse_loop.simps) (simp add: Let_def)
  also have "\<dots> = Some (c + recv_byte x + sum_list (map (\<lambda>x. recv_byte x) xs), take (Suc i) (b[i := recv_byte x]) @ map (\<lambda>x. recv_byte x) xs @ drop n (b[i := recv_byte x]))"
    by (rule Cons.IH) (use Cons.prems xs in auto)
  also have "take (Suc i) (b[i := recv_byte x]) = take i b @ [recv_byte x]"
    using i(2) by (simp add: take_Suc_conv_app_nth)
  finally show ?case using i by (simp add: add.assoc)
qed

section \<open>Packets as they are on the wire\<close>

text \<open>The body of a packet is its command and its data. On the wire the body is mapped, and the check code makes the
  sum of the plain body and of the code zero.\<close>

definition body :: "TCP_Command \<Rightarrow> byte list \<Rightarrow> byte list" where
  "body c xs = le_command c @ xs"

definition wire_head :: "byte list \<Rightarrow> byte list" where
  "wire_head ys = [SOCKET_TCP_VER, - sum_list ys] @ le_word (of_nat (4 + length ys) :: uint16)"

definition wire :: "TCP_Command \<Rightarrow> byte list \<Rightarrow> byte list" where
  "wire c xs = wire_head (body c xs) @ map (\<lambda>x. send_byte x) (body c xs)"

lemma le_word_byte [simp]: "le_word (x :: byte) = [x]"
  by (simp add: le_word_def)

lemma le_bytes_2: "le_bytes 2 v = [word_of_int v, word_of_int (v div 256)]"
  by (simp add: numeral_2_eq_2)

lemma length_le_command [simp]: "length (le_command c) = 4"
  by (simp add: le_command_def)

lemma length_body [simp]: "length (body c xs) = 4 + length xs"
  by (simp add: body_def)

lemma length_wire_head [simp]: "length (wire_head ys) = 4"
  by (simp add: wire_head_def)

lemma length_wire [simp]: "length (wire c xs) = 8 + length xs"
  by (simp add: wire_def)

lemma wire_head_byte: "wire_head ys ! 0 = SOCKET_TCP_VER" "wire_head ys ! 1 = - sum_list ys"
  by (simp_all add: wire_head_def)

lemma drop_wire_head: "drop 2 (wire_head ys) = le_word (of_nat (4 + length ys) :: uint16)"
  by (simp add: wire_head_def)

definition pad4 :: "nat \<Rightarrow> nat" where
  "pad4 n = (if n mod 4 = 0 then 0 else 4 - n mod 4)"

lemma pad4_fits: "n \<le> 4 * m \<Longrightarrow> n + pad4 n \<le> 4 * m"
  unfolding pad4_def by presburger

lemma pad4_add4: "pad4 (4 + n) = pad4 n"
  by (simp add: pad4_def)

lemma snap_form:
  assumes "unat n = length xs" "length pre = off" "pad4 (length xs) \<le> length rest"
  shows "snap off n (pre @ xs @ rest) = Some (pre @ xs @ replicate (pad4 (length xs)) 0 @ drop (pad4 (length xs)) rest)"
proof (cases "length xs mod 4 = 0")
  case False
  then have "4 - length xs mod 4 \<le> length rest" using assms(3) by (simp add: pad4_def)
  moreover have "length pre + length xs + (4 - length xs mod 4) \<le> length (pre @ xs @ rest)" using calculation by simp
  ultimately show ?thesis using False assms(1,2) by (simp add: snap_def mem_write_def pad4_def)
qed (use assms in \<open>simp add: snap_def pad4_def\<close>)

lemma unat_packet_size: "8 + k \<le> SOCKET_TCP_BUFFER \<Longrightarrow> unat (of_nat (8 + k) :: uint16) = 8 + k"
  by (simp only: unat_of_nat) (simp add: SOCKET_TCP_BUFFER_def)

lemma EncryptBuffer_form:
  assumes b: "b = h @ ys @ rest" "length h = 4" and n: "unat n = 4 + length ys"
    and fits: "pad4 (length ys) \<le> length rest"
  shows "EncryptBuffer b n m cl =
    Some (n, wire_head ys @ map (\<lambda>x. send_byte x) ys @ replicate (pad4 (length ys)) 0 @ drop (pad4 (length ys)) rest)"
proof -
  obtain h0 h1 h2 h3 where h: "h = [h0, h1, h2, h3]"
    using b(2) by (auto simp: eval_nat_numeral length_Suc_conv)
  have sub: "unat (n - 4) = length ys"
    using n by (simp add: unat_sub word_le_nat_alt)
  let ?z = "replicate (pad4 (length ys)) 0 @ drop (pad4 (length ys)) rest"
  have snap: "snap 4 (n - 4) b = Some (h @ ys @ ?z)"
    unfolding b(1) using snap_form [OF sub b(2) fits] by simp
  have loop: "encrypt_loop 4 (unat n) 0 (h @ ys @ ?z) = Some (sum_list ys, h @ map (\<lambda>x. send_byte x) ys @ ?z)"
    using encrypt_loop_form [of 4 ys "h @ ys @ ?z" "unat n" 0] n b(2) by simp
  have nn: "(of_nat (4 + length ys) :: uint16) = n" using n by (metis of_nat_unat ucast_id)
  show ?thesis
    unfolding EncryptBuffer_def Let_def if_cancel
    by (simp add: snap loop) (simp add: h mem_write_def wire_head_def nn [simplified] minus_eq_not_plus_1)
qed

lemma CrevasseBuffer_form:
  assumes b: "b = h @ map (\<lambda>x. send_byte x) ys @ rest" "length h = 4" "h ! 1 = c" and n: "unat n = 4 + length ys"
    and fits: "pad4 (4 + length ys) \<le> length rest"
  shows "CrevasseBuffer b n = Some (if c + sum_list ys = 0
    then Inr (n, h @ ys @ replicate (pad4 (4 + length ys)) 0 @ drop (pad4 (4 + length ys)) rest) else Inl PacketCheckCode)"
proof -
  let ?z = "replicate (pad4 (4 + length ys)) 0 @ drop (pad4 (4 + length ys)) rest"
  let ?m = "map (\<lambda>x. send_byte x) ys"
  have snap: "snap 0 n b = Some (h @ ?m @ ?z)"
    unfolding b(1) using snap_form [of n "h @ ?m" "[]" 0 rest] n b(2) fits by simp
  have loop: "crevasse_loop 4 (unat n) c (h @ ?m @ ?z) = Some (c + sum_list ys, h @ ys @ ?z)"
    using crevasse_loop_form [of 4 ?m "h @ ?m @ ?z" "unat n" c] n b(2) by (simp add: comp_def recv_send_byte)
  have "take 1 (drop 1 (h @ ?m @ ?z)) = [c]"
    using b(2,3) by (cases h; cases "tl h") auto
  then have "field 1 (h @ ?m @ ?z) = Some c"
    using b(2) by (simp add: field_def mem_read_def)
  then show ?thesis unfolding CrevasseBuffer_def by (simp add: snap loop)
qed

lemma field_command_at:
  assumes "length h = 4"
  shows "field_command 4 (h @ body c xs @ rest) = Some c"
  using assms by (simp add: field_command_def field_def mem_read_def body_def le_command_def)

text \<open>A packet of any command and any data that fits the network buffer survives the
  network: \<open>EncryptBuffer\<close> stays inside the buffer, and \<open>CrevasseBuffer\<close> on any buffer that received the bytes of the
  packet accepts the check code and restores the command and the data.\<close>

theorem packet_roundtrip:
  assumes "length b = SOCKET_TCP_BUFFER" "8 + length xs \<le> SOCKET_TCP_BUFFER"
    and "drop 4 b = le_command c @ xs @ rest"
    and "n = of_nat (8 + length xs)"
  shows "\<exists>b'. EncryptBuffer b n (of_nat SOCKET_TCP_BUFFER) True = Some (n, b') \<and> length b' = SOCKET_TCP_BUFFER \<and>
    (\<forall>r. length r = SOCKET_TCP_BUFFER \<and> take (unat n) r = take (unat n) b' \<longrightarrow>
      (\<exists>r'. CrevasseBuffer r n = Some (Inr (n, r')) \<and> field_command 4 r' = Some c \<and> mem_read 8 (length xs) r' = Some xs))"
proof -
  have n: "unat n = 4 + length (body c xs)"
    unfolding assms(4) using unat_packet_size [OF assms(2)] by simp
  have b: "b = take 4 b @ body c xs @ rest" using assms(3) append_take_drop_id [of 4 b] by (simp add: body_def)
  have l4: "length (take 4 b) = 4" using assms(1) by (simp add: SOCKET_TCP_BUFFER_def)
  have lr: "length rest = SOCKET_TCP_BUFFER - (8 + length xs)"
    using arg_cong [OF b, of length] assms(1) l4 by simp
  have "4 + length (body c xs) + pad4 (length (body c xs)) \<le> SOCKET_TCP_BUFFER"
    using pad4_fits [of "4 + length (body c xs)" 4096] assms(2) pad4_add4 [of "length (body c xs)"] by (simp only: SOCKET_TCP_BUFFER_def length_body) simp
  then have fits: "pad4 (length (body c xs)) \<le> length rest" using lr by simp
  let ?b' = "wire c xs @ replicate (pad4 (length (body c xs))) 0 @ drop (pad4 (length (body c xs))) rest"
  have e: "EncryptBuffer b n (of_nat SOCKET_TCP_BUFFER) True = Some (n, ?b')"
    using EncryptBuffer_form [OF b l4 n fits] by (simp add: wire_def)
  have l: "length ?b' = SOCKET_TCP_BUFFER" using fits lr assms(2) by simp
  have "\<exists>r'. CrevasseBuffer r n = Some (Inr (n, r')) \<and> field_command 4 r' = Some c \<and> mem_read 8 (length xs) r' = Some xs"
    if r: "length r = SOCKET_TCP_BUFFER" "take (unat n) r = take (unat n) ?b'" for r
  proof -
    have "take (unat n) r = wire c xs" using r(2) n by simp
    then have w: "r = wire_head (body c xs) @ map (\<lambda>x. send_byte x) (body c xs) @ drop (unat n) r"
      using append_take_drop_id [of "unat n" r] by (simp add: wire_def)
    have "4 + length (body c xs) + pad4 (4 + length (body c xs)) \<le> SOCKET_TCP_BUFFER"
      using pad4_fits [of "4 + length (body c xs)" 4096] assms(2) by (simp only: SOCKET_TCP_BUFFER_def length_body) simp
    then have "pad4 (4 + length (body c xs)) \<le> length (drop (unat n) r)" using r(1) n by simp
    from CrevasseBuffer_form [OF w _ wire_head_byte(2) n this] show ?thesis
      by (simp add: field_command_at) (simp add: mem_read_def body_def)
  qed
  with e l show ?thesis by blast
qed

text \<open>The property at a packet with command (3, 100) and the data 1, 2, 3.\<close>

theorem packet_roundtrip_witness:
  "\<exists>b'. EncryptBuffer (replicate 4 0 @ le_command \<lparr>wMainCmdID = 3, wSubCmdID = 100\<rparr> @ [1, 2, 3] @ replicate 16373 0)
      (of_nat (8 + length [1, 2, 3 :: byte])) (of_nat SOCKET_TCP_BUFFER) True = Some (11, b')"
  using packet_roundtrip [of "replicate 4 0 @ le_command \<lparr>wMainCmdID = 3, wSubCmdID = 100\<rparr> @ [1, 2, 3] @ replicate 16373 0"
    "[1, 2, 3]" "\<lparr>wMainCmdID = 3, wSubCmdID = 100\<rparr>" "replicate 16373 0" "of_nat (8 + length [1, 2, 3 :: byte])"]
  by (auto simp: SOCKET_TCP_BUFFER_def)

lemma sum_list_update_swap: "k < length ys \<Longrightarrow> sum_list (ys[k := v]) + ys ! k = sum_list ys + (v :: 'a::comm_monoid_add)"
proof (induction ys arbitrary: k)
  case (Cons y ys)
  then show ?case by (cases k) (auto simp: ac_simps)
qed simp

lemma corruption_detected:
  assumes "length r = SOCKET_TCP_BUFFER" "8 + length xs \<le> SOCKET_TCP_BUFFER" "take (8 + length xs) r = wire c xs"
    and "4 \<le> i" "i < 8 + length xs" "y \<noteq> r ! i"
  shows "CrevasseBuffer (r[i := y]) (of_nat (8 + length xs)) = Some (Inl PacketCheckCode)"
proof -
  let ?n = "of_nat (8 + length xs) :: uint16" and ?k = "i - 4" and ?ys = "body c xs"
  let ?zs = "?ys[?k := recv_byte y]"
  have n: "unat ?n = 4 + length ?zs" using unat_packet_size [OF assms(2)] by simp
  have r: "r = wire_head ?ys @ map (\<lambda>x. send_byte x) ?ys @ drop (8 + length xs) r"
    using append_take_drop_id [of "8 + length xs" r] assms(3) by (simp add: wire_def)
  have k: "?k < length ?ys" using assms(4,5) by simp
  have "(map (\<lambda>x. send_byte x) ?ys)[?k := y] = map (\<lambda>x. send_byte x) ?zs"
    by (simp add: map_update send_recv_byte)
  moreover have "r[i := y] = wire_head ?ys @ (map (\<lambda>x. send_byte x) ?ys)[?k := y] @ drop (8 + length xs) r"
    using assms(4) k by (subst r) (simp add: list_update_append)
  ultimately have w: "r[i := y] = wire_head ?ys @ map (\<lambda>x. send_byte x) ?zs @ drop (8 + length xs) r" by simp
  have "r ! i = map (\<lambda>x. send_byte x) ?ys ! ?k" using assms(4) k by (subst r) (simp add: nth_append)
  then have ne: "recv_byte y \<noteq> ?ys ! ?k" using assms(6) k by (metis nth_map send_recv_byte)
  have "sum_list ?zs + ?ys ! ?k = sum_list ?ys + recv_byte y"
    using k by (rule sum_list_update_swap)
  then have s: "- sum_list ?ys + sum_list ?zs \<noteq> 0" using ne by (auto simp: algebra_simps)
  have "4 + length ?zs + pad4 (4 + length ?zs) \<le> SOCKET_TCP_BUFFER"
    using pad4_fits [of "4 + length ?zs" 4096] assms(2) by (simp only: SOCKET_TCP_BUFFER_def length_body length_list_update) simp
  then have f: "pad4 (4 + length ?zs) \<le> length (drop (8 + length xs) r)" using assms(1) by simp
  show ?thesis using CrevasseBuffer_form [OF w _ wire_head_byte(2) n f] s by simp
qed

text \<open>The check code detects every change of a single byte of the body of a packet: \<open>CrevasseBuffer\<close>
  reports the error for every byte position and every wrong value.\<close>

theorem single_corruption_detected:
  assumes "length r = SOCKET_TCP_BUFFER" "8 + length xs \<le> SOCKET_TCP_BUFFER" "take (8 + length xs) r = wire c xs"
    and "4 \<le> i" "i < 8 + length xs" "y \<noteq> r ! i"
  shows "CrevasseBuffer (r[i := y]) (of_nat (8 + length xs)) = Some (Inl PacketCheckCode)"
  using assms by (rule corruption_detected)

text \<open>The property at a packet without data whose first command byte is replaced.\<close>

theorem single_corruption_detected_witness:
  "CrevasseBuffer ((wire \<lparr>wMainCmdID = 3, wSubCmdID = 100\<rparr> [] @ replicate 16376 0)[4 := 0]) 8 = Some (Inl PacketCheckCode)"
proof -
  let ?r = "wire \<lparr>wMainCmdID = 3, wSubCmdID = 100\<rparr> [] @ replicate 16376 0"
  have "?r ! 4 = send_byte 3" by (simp add: wire_def wire_head_def body_def le_command_def le_word_def le_bytes_2 nth_append)
  also have "\<dots> \<noteq> 0" by (simp add: g_SendByteMap_def)
  finally show ?thesis
    using single_corruption_detected [of ?r "[]" "\<lparr>wMainCmdID = 3, wSubCmdID = 100\<rparr>" 4 0] by (simp add: SOCKET_TCP_BUFFER_def)
qed

section \<open>The maps on strings\<close>

lemma lstrlen_at:
  assumes "length xs = 2 * n" "\<And>i. i < n \<Longrightarrow> xs ! (2 * i) \<noteq> 0 \<or> xs ! (2 * i + 1) \<noteq> (0 :: byte)"
  shows "lstrlen (xs @ [0, 0] @ r) = Some n"
  using assms
proof (induction n arbitrary: xs)
  case (Suc n)
  then obtain a b ys where xs: "xs = a # b # ys" "length ys = 2 * n" by (auto simp: length_Suc_conv)
  have "lstrlen (ys @ [0, 0] @ r) = Some n"
    by (rule Suc.IH) (use xs Suc.prems(2) [of "Suc i" for i] in auto)
  then show ?case using xs Suc.prems(2) [of 0] by simp
qed simp

lemma map_string_form:
  assumes "length xs = 2 * n" "\<And>i. i < n \<Longrightarrow> xs ! (2 * i) \<noteq> 0 \<or> xs ! (2 * i + 1) \<noteq> 0" "2 * n + 2 \<le> length d"
  shows "map_string tab (xs @ [0, 0] @ r) d = Some (map (\<lambda>x. tab ! unat x) xs @ [0, 0] @ drop (2 * n + 2) d)"
  using lstrlen_at [OF assms(1,2), of r] assms(1,3) by (simp add: map_string_def mem_read_def mem_write_def)

text \<open>A character whose two bytes are both 0x51 (the Chinese character U+5151) is mapped to the terminator.\<close>

definition map_safe :: "byte list \<Rightarrow> bool" where
  "map_safe xs \<longleftrightarrow> even (length xs) \<and>
     (\<forall>i < length xs div 2. (xs ! (2 * i), xs ! (2 * i + 1)) \<noteq> (0, 0) \<and> (xs ! (2 * i), xs ! (2 * i + 1)) \<noteq> (0x51, 0x51))"

lemma send_byte_zero: "send_byte x = 0 \<longleftrightarrow> x = 0x51"
  using send_byte_inj [of x "0x51"] by (simp add: g_SendByteMap_def)

text \<open>\<open>MapCrevasse\<close> restores what \<open>MapEncrypt\<close> made of a string, for every string in which no
  character is U+5151, and both stay inside buffers with room for the string and its terminator.\<close>

theorem map_string_roundtrip:
  assumes "map_safe xs" "length xs + 2 \<le> length d" "length xs + 2 \<le> length d'"
  shows "\<exists>e. MapEncrypt (xs @ [0, 0] @ r) d = Some e \<and> MapCrevasse e d' = Some (xs @ [0, 0] @ drop (length xs + 2) d')"
proof -
  obtain n where n: "length xs = 2 * n" using assms(1) by (auto simp: map_safe_def)
  let ?e = "map (\<lambda>x. send_byte x) xs"
  have safe: "xs ! (2 * i) \<noteq> 0 \<or> xs ! (2 * i + 1) \<noteq> 0" "?e ! (2 * i) \<noteq> 0 \<or> ?e ! (2 * i + 1) \<noteq> 0" if "i < n" for i
    using assms(1) n that by (auto simp: map_safe_def send_byte_zero)
  have "MapEncrypt (xs @ [0, 0] @ r) d = Some (?e @ [0, 0] @ drop (length xs + 2) d)"
    using map_string_form [OF n safe(1), of d g_cbEncryptMap r] n assms(2) by (simp add: MapEncrypt_def byte_maps_same)
  moreover have "MapCrevasse (?e @ [0, 0] @ drop (length xs + 2) d) d' = Some (xs @ [0, 0] @ drop (length xs + 2) d')"
    using map_string_form [of ?e n d' g_cbCrevasseMap "drop (length xs + 2) d"] safe(2) n assms(3)
    by (simp add: MapCrevasse_def byte_maps_same comp_def recv_send_byte)
  ultimately show ?thesis by blast
qed

text \<open>The string \<open>Ab\<close>.\<close>

theorem map_string_roundtrip_witness:
  "\<exists>e. MapEncrypt [0x41, 0, 0x62, 0, 0, 0] (replicate 6 0) = Some e \<and>
     MapCrevasse e (replicate 6 1) = Some [0x41, 0, 0x62, 0, 0, 0]"
proof -
  have "map_safe [0x41, 0, 0x62, 0]" by (auto simp: map_safe_def less_Suc_eq)
  from map_string_roundtrip [OF this, of "replicate 6 0" "replicate 6 1" "[]"] show ?thesis by simp
qed

text \<open>The character U+5151 ends the encrypted string, so that the string behind it is lost.\<close>

lemma map_string_truncates:
  "\<exists>e. MapEncrypt [0x51, 0x51, 0x41, 0, 0, 0] (replicate 6 0) = Some e \<and>
     MapCrevasse e [1, 1, 1, 1, 1, 1] = Some [0, 0, 1, 1, 1, 1]"
  by (simp add: MapEncrypt_def MapCrevasse_def map_string_def mem_read_def mem_write_def byte_maps_same g_SendByteMap_def g_RecvByteMap_def)

end
