(* ===== verification/Packet_Stream.thy ===== *)
theory Packet_Stream
  imports Packet_Codec
begin

text \<open>
  Streams of packets. TCP delivers a sequence of packets as bytes, cut anywhere; the server (\<open>TCPNetworkEngine.cpp\<close>) and the client (\<open>TCPSocketService.cpp\<close>)
  both keep what has arrived in a buffer and run a loop that takes complete packets from its front. The locale states
  what one turn of such a loop has to do and shows what the loop does with a stream.
\<close>

section \<open>Building a packet\<close>

text \<open>The part that the functions \<open>SendData\<close> of the server and of the client have in common: command and data go into a buffer behind room for the head, and
  \<open>EncryptBuffer\<close> maps them and fills in the head.\<close>

definition build_packet :: "TCP_Command \<Rightarrow> byte list \<Rightarrow> uint16 \<Rightarrow> byte list \<Rightarrow> (uint16 \<times> byte list) option" where
  "build_packet c xs n b = do {
     b \<leftarrow> mem_write 4 (le_command c) b;
     b \<leftarrow> (if n > 0 then mem_write 8 xs b else Some b);
     EncryptBuffer b (8 + n) (of_nat SOCKET_TCP_BUFFER) True
   }"

lemma build_packet_wire:
  assumes "length b = SOCKET_TCP_BUFFER" "length xs = unat n" "8 + length xs \<le> SOCKET_TCP_BUFFER"
  shows "\<exists>r. build_packet c xs n b = Some (8 + n, wire c xs @ r) \<and> length (wire c xs @ r) = SOCKET_TCP_BUFFER \<and> unat (8 + n) = 8 + length xs"
proof -
  let ?b = "take 4 b @ body c xs @ drop (8 + length xs) b"
  have w: "Option.bind (mem_write 4 (le_command c) b) (\<lambda>b. if n > 0 then mem_write 8 xs b else Some b) = Some ?b"
  proof (cases "n > 0")
    case True
    then show ?thesis using assms by (simp add: mem_write_def body_def SOCKET_TCP_BUFFER_def add.commute)
  next
    case False
    then have "xs = []" using assms(2) by (simp add: word_gt_0)
    then show ?thesis using assms False by (simp add: mem_write_def body_def SOCKET_TCP_BUFFER_def)
  qed
  obtain N :: uint16 where N: "N = 8 + n" by blast
  have n: "unat N = 8 + length xs"
  proof -
    have "n = of_nat (length xs)" using assms(2) by (metis of_nat_unat ucast_id)
    then have "N = of_nat (8 + length xs)" by (simp add: N)
    then show ?thesis using unat_packet_size [OF assms(3)] by simp
  qed
  have "4 + length (body c xs) + pad4 (4 + length (body c xs)) \<le> SOCKET_TCP_BUFFER"
    using pad4_fits [of "4 + length (body c xs)" 4096] assms(3) by (simp only: SOCKET_TCP_BUFFER_def length_body) simp
  then have fits: "pad4 (length (body c xs)) \<le> length (drop (8 + length xs) b)"
    using assms(1) pad4_add4 [of "4 + length xs"] by (simp add: pad4_add4)
  let ?r = "replicate (pad4 (length (body c xs))) 0 @ drop (pad4 (length (body c xs))) (drop (8 + length xs) b)"
  have e: "EncryptBuffer ?b N (of_nat SOCKET_TCP_BUFFER) True = Some (N, wire c xs @ ?r)"
    using EncryptBuffer_form [of ?b "take 4 b" "body c xs" "drop (8 + length xs) b" N] n fits assms(1)
    by (simp add: wire_def SOCKET_TCP_BUFFER_def)
  have "build_packet c xs n b = Some (N, wire c xs @ ?r)"
    using w e unfolding build_packet_def N [symmetric] by (auto simp: bind_eq_Some_conv split: bind_splits)
  moreover have "length (wire c xs @ ?r) = SOCKET_TCP_BUFFER" using fits assms(1,3) by simp
  ultimately show ?thesis using n unfolding N by blast
qed

lemma build_packet_overflow:
  assumes "length b = SOCKET_TCP_BUFFER" "length xs = unat n" "8 + length xs > SOCKET_TCP_BUFFER"
  shows "build_packet c xs n b = None"
proof -
  have "n > 0" using assms(2,3) by (simp add: word_less_nat_alt SOCKET_TCP_BUFFER_def)
  then show ?thesis using assms by (simp add: build_packet_def mem_write_def SOCKET_TCP_BUFFER_def)
qed

section \<open>Streams\<close>

type_synonym message = "TCP_Command \<times> byte list"

definition wire_of :: "message \<Rightarrow> byte list" where
  "wire_of m = wire (fst m) (snd m)"

lemma wire_of_pair [simp]: "wire_of (c, xs) = wire c xs"
  by (simp add: wire_of_def)

definition wires :: "message list \<Rightarrow> byte list" where
  "wires ms = concat (map wire_of ms)"

lemma wires_simps [simp]: "wires [] = []" "wires (m # ms) = wire_of m @ wires ms" "wires (ms @ ms') = wires ms @ wires ms'"
  by (simp_all add: wires_def)

lemma length_wire_of [simp]: "length (wire_of m) = 8 + length (snd m)"
  by (simp add: wire_of_def)

text \<open>Bytes that are less than the next packet of a stream.\<close>

definition partial_packet :: "message list \<Rightarrow> byte list \<Rightarrow> bool" where
  "partial_packet ms p = (case ms of [] \<Rightarrow> p = [] | m # _ \<Rightarrow> length p < length (wire_of m))"

lemma partial_packet_all: "partial_packet ms p \<Longrightarrow> p = wires ms \<Longrightarrow> ms = []"
  by (cases ms) (auto simp: partial_packet_def)

text \<open>The turns of a loop for the messages \<open>ms\<close>: \<open>nxt\<close> gives the next state, or tells that the loop is over.\<close>

fun turns :: "('s \<Rightarrow> 's option option) \<Rightarrow> (message \<Rightarrow> 's \<Rightarrow> 's \<Rightarrow> bool) \<Rightarrow> message list \<Rightarrow> 's \<Rightarrow> 's \<Rightarrow> bool" where
  "turns nxt eff [] s s' = (s' = s)"
| "turns nxt eff (m # ms) s s' = (\<exists>t. nxt s = Some (Some t) \<and> eff m s t \<and> turns nxt eff ms t s')"

locale packet_stream =
  fixes ok :: "message \<Rightarrow> bool" and pend :: "byte list \<Rightarrow> 's \<Rightarrow> bool" and nxt :: "'s \<Rightarrow> 's option option"
    and eff :: "message \<Rightarrow> 's \<Rightarrow> 's \<Rightarrow> bool"
  assumes complete: "ok m \<Longrightarrow> pend (wire_of m @ r) s \<Longrightarrow> \<exists>s'. nxt s = Some (Some s') \<and> pend r s' \<and> eff m s s'"
    and incomplete: "ok m \<Longrightarrow> pend p s \<Longrightarrow> p @ q = wire_of m @ r \<Longrightarrow> length p < length (wire_of m) \<Longrightarrow> nxt s = Some None"
    and empty: "pend [] s \<Longrightarrow> nxt s = Some None"
begin

lemma loop_takes_packets:
  assumes "list_all ok ms" "pend p s" "p @ q = wires ms"
  shows "\<exists>k p' s'. k \<le> length ms \<and> turns nxt eff (take k ms) s s' \<and> nxt s' = Some None \<and> pend p' s' \<and> p' @ q = wires (drop k ms) \<and>
    partial_packet (drop k ms) p'"
  using assms
proof (induction ms arbitrary: p s)
  case Nil
  then show ?case using empty by (intro exI [of _ 0] exI [of _ p] exI [of _ s]) (simp add: partial_packet_def)
next
  case (Cons m ms)
  show ?case
  proof (cases "length p < length (wire_of m)")
    case True
    then show ?thesis using incomplete [of m p s q "wires ms"] Cons.prems
      by (intro exI [of _ 0] exI [of _ p] exI [of _ s]) (simp add: partial_packet_def)
  next
    case False
    define r where "r = drop (length (wire_of m)) p"
    have "take (length (wire_of m)) (p @ q) = wire_of m" using Cons.prems(3) by simp
    then have "take (length (wire_of m)) p = wire_of m" using False by simp
    then have p: "p = wire_of m @ r" unfolding r_def by (metis append_take_drop_id)
    obtain t where t: "nxt s = Some (Some t)" "pend r t" "eff m s t" using complete [of m r s] Cons.prems p by auto
    have rq: "r @ q = wires ms" using Cons.prems(3) p by simp
    obtain k p' s' where "k \<le> length ms" "turns nxt eff (take k ms) t s'" "nxt s' = Some None" "pend p' s'" "p' @ q = wires (drop k ms)"
        "partial_packet (drop k ms) p'"
      using Cons.IH [OF _ t(2) rq] Cons.prems(1) by auto
    then show ?thesis using t by (intro exI [of _ "Suc k"] exI [of _ p'] exI [of _ s']) auto
  qed
qed

end

end
