(* ===== verification/Block_Hash.thy ===== *)
theory Block_Hash
  imports Redis_Prelude
begin

text \<open>
  The streaming half of a hash function such as SHA-1 (\<open>sha1.cpp\<close>): a message is fed in pieces, blocks of 64
  bytes are compressed as soon as they are complete, and the end of the message is padded to a whole
  number of blocks. The locale \<open>block_hash\<close> is the contract of such an object; that the result does not depend
  on how the message is cut is proved once in it.
\<close>

section \<open>Absorbing a message block by block\<close>

function absorb :: "('h \<Rightarrow> byte list \<Rightarrow> 'h) \<Rightarrow> 'h \<Rightarrow> byte list \<Rightarrow> 'h \<times> byte list" where
  "absorb f h xs = (if length xs < 64 then (h, xs) else absorb f (f h (take 64 xs)) (drop 64 xs))"
  by pat_completeness auto
termination
  by (relation "measure (\<lambda>(f, h, xs). length xs)") auto

declare absorb.simps [simp del]

lemma absorb_short [simp]: "length xs < 64 \<Longrightarrow> absorb f h xs = (h, xs)"
  by (simp add: absorb.simps)

lemma absorb_block: "length xs = 64 \<Longrightarrow> absorb f h (xs @ ys) = absorb f (f h xs) ys"
  by (subst absorb.simps) simp

lemma absorb_length: "length (snd (absorb f h xs)) = length xs mod 64"
proof (induction f h xs rule: absorb.induct)
  case (1 f h xs)
  then show ?case by (subst absorb.simps) (simp add: le_mod_geq)
qed

lemma absorb_append: "absorb f h (xs @ ys) = (let (h', r) = absorb f h xs in absorb f h' (r @ ys))"
proof (induction f h xs rule: absorb.induct)
  case (1 f h xs)
  show ?case
  proof (cases "length xs < 64")
    case False
    then have "absorb f h (xs @ ys) = absorb f (f h (take 64 xs)) (drop 64 xs @ ys)"
      by (subst absorb.simps) simp
    moreover have "absorb f h xs = absorb f (f h (take 64 xs)) (drop 64 xs)"
      using False by (subst absorb.simps) simp
    ultimately show ?thesis using 1 [OF False] by simp
  qed simp
qed

text \<open>The hash of a padded message: all its blocks.\<close>

definition hash_blocks :: "('h \<Rightarrow> byte list \<Rightarrow> 'h) \<Rightarrow> 'h \<Rightarrow> byte list \<Rightarrow> 'h" where
  "hash_blocks f h xs = fst (absorb f h xs)"

text \<open>The padding of both functions, up to the length that \<open>len\<close> writes in 8 bytes.\<close>

definition pad_message :: "(nat \<Rightarrow> byte list) \<Rightarrow> byte list \<Rightarrow> byte list" where
  "pad_message len xs = xs @ [0x80] @ replicate ((119 - length xs mod 64) mod 64) 0 @ len (length xs)"

section \<open>The contract\<close>

locale block_hash =
  fixes compress :: "'h \<Rightarrow> byte list \<Rightarrow> 'h"
    and init :: 's
    and update :: "'s \<Rightarrow> byte list \<Rightarrow> 's"
    and final :: "'s \<Rightarrow> 'h"
    and rep :: "'s \<Rightarrow> 'h \<Rightarrow> byte list \<Rightarrow> nat \<Rightarrow> bool"
    and h0 :: 'h
    and len :: "nat \<Rightarrow> byte list"
    and valid :: "byte list \<Rightarrow> bool"
  assumes init_law: "rep init h0 [] 0"
    and update_law: "rep s h r n \<Longrightarrow> length r < 64 \<Longrightarrow> valid xs \<Longrightarrow> absorb compress h (r @ xs) = (h', r') \<Longrightarrow>
      rep (update s xs) h' r' (n + length xs)"
    and final_law: "rep s h r n \<Longrightarrow> length r < 64 \<Longrightarrow>
      final s = hash_blocks compress h (r @ [0x80] @ replicate ((119 - n mod 64) mod 64) 0 @ len n)"
begin

lemma updates:
  assumes "rep s h r n" "absorb compress h0 xs = (h, r)" "length xs = n" "list_all valid xss"
  shows "\<exists>h' r'. rep (foldl update s xss) h' r' (n + length (concat xss)) \<and>
    absorb compress h0 (xs @ concat xss) = (h', r')"
  using assms
proof (induction xss arbitrary: s h r n xs)
  case (Cons ys xss)
  have r: "length r < 64" using absorb_length [of compress h0 xs] Cons.prems(2) by simp
  obtain h' r' where a: "absorb compress h (r @ ys) = (h', r')" by (cases "absorb compress h (r @ ys)") auto
  have "absorb compress h0 (xs @ ys) = (h', r')" using Cons.prems(2) a absorb_append [of compress h0 xs ys] by simp
  moreover have "rep (update s ys) h' r' (n + length ys)"
    by (rule update_law [OF Cons.prems(1) r _ a]) (use Cons.prems(4) in simp)
  ultimately show ?case using Cons.IH [of "update s ys" h' r' "n + length ys" "xs @ ys"] Cons.prems(3,4) by (simp add: add.assoc)
qed auto

text \<open>The digest of a message fed in any pieces is that of the padded message, block after block.\<close>

lemma digest:
  assumes "list_all valid xss"
  shows "final (foldl update init xss) = hash_blocks compress h0 (pad_message len (concat xss))"
proof -
  let ?xs = "concat xss"
  obtain h r where hr: "rep (foldl update init xss) h r (length ?xs)" "absorb compress h0 ?xs = (h, r)"
    using updates [OF init_law, of "[]" xss] assms by auto
  have l: "length r < 64" using absorb_length [of compress h0 ?xs] hr(2) by simp
  have "hash_blocks compress h0 (pad_message len ?xs) =
    hash_blocks compress h (r @ [0x80] @ replicate ((119 - length ?xs mod 64) mod 64) 0 @ len (length ?xs))"
    using hr(2) absorb_append [of compress h0 ?xs] by (simp only: hash_blocks_def pad_message_def Let_def prod.case)
  with final_law [OF hr(1) l] show ?thesis by simp
qed

end

end
