(* ===== verification/Sha1.thy ===== *)
theory Sha1
  imports Block_Hash
begin

text \<open>
  SHA-1 of the service core (\<open>sha1.cpp\<close>), which the WebSocket handshake uses: the 16-word block that is
  rewritten in place while the 80 unrolled calls run over five variables in rotating roles, the
  stream of input, and the padding. It is proved equal to the definition of the standard
  with its 80-word schedule, for every way of feeding the message.
\<close>

section \<open>The code\<close>

record sha1 =
  digest :: "uint32 list"
  buffer :: "byte list"
  transforms :: uint64

definition reset :: sha1 where
  "reset = \<lparr>digest = [0x67452301, 0xefcdab89, 0x98badcfe, 0x10325476, 0xc3d2e1f0], buffer = [], transforms = 0\<rparr>"

definition rol :: "uint32 \<Rightarrow> nat \<Rightarrow> uint32" where
  "rol v bits = push_bit bits v OR drop_bit (32 - bits) v"

definition sha1_blk :: "uint32 list \<Rightarrow> nat \<Rightarrow> uint32" where
  "sha1_blk block i =
     rol (block ! ((i + 13) AND 15) XOR block ! ((i + 8) AND 15) XOR block ! ((i + 2) AND 15) XOR block ! i) 1"

text \<open>The five operations: the values of \<open>v, w, x, y, z\<close> and the index give the new block and the new
  values of \<open>w\<close> and \<open>z\<close>.\<close>

definition R0 :: "uint32 list \<Rightarrow> uint32 \<Rightarrow> uint32 \<Rightarrow> uint32 \<Rightarrow> uint32 \<Rightarrow> uint32 \<Rightarrow> nat \<Rightarrow> uint32 list \<times> uint32 \<times> uint32" where
  "R0 block v w x y z i = (block, rol w 30, z + (((w AND (x XOR y)) XOR y) + block ! i + 0x5a827999 + rol v 5))"

definition R1 :: "uint32 list \<Rightarrow> uint32 \<Rightarrow> uint32 \<Rightarrow> uint32 \<Rightarrow> uint32 \<Rightarrow> uint32 \<Rightarrow> nat \<Rightarrow> uint32 list \<times> uint32 \<times> uint32" where
  "R1 block v w x y z i = (let block = block[i := sha1_blk block i] in
     (block, rol w 30, z + (((w AND (x XOR y)) XOR y) + block ! i + 0x5a827999 + rol v 5)))"

definition R2 :: "uint32 list \<Rightarrow> uint32 \<Rightarrow> uint32 \<Rightarrow> uint32 \<Rightarrow> uint32 \<Rightarrow> uint32 \<Rightarrow> nat \<Rightarrow> uint32 list \<times> uint32 \<times> uint32" where
  "R2 block v w x y z i = (let block = block[i := sha1_blk block i] in
     (block, rol w 30, z + ((w XOR x XOR y) + block ! i + 0x6ed9eba1 + rol v 5)))"

definition R3 :: "uint32 list \<Rightarrow> uint32 \<Rightarrow> uint32 \<Rightarrow> uint32 \<Rightarrow> uint32 \<Rightarrow> uint32 \<Rightarrow> nat \<Rightarrow> uint32 list \<times> uint32 \<times> uint32" where
  "R3 block v w x y z i = (let block = block[i := sha1_blk block i] in
     (block, rol w 30, z + ((((w OR x) AND y) OR (w AND x)) + block ! i + 0x8f1bbcdc + rol v 5)))"

definition R4 :: "uint32 list \<Rightarrow> uint32 \<Rightarrow> uint32 \<Rightarrow> uint32 \<Rightarrow> uint32 \<Rightarrow> uint32 \<Rightarrow> nat \<Rightarrow> uint32 list \<times> uint32 \<times> uint32" where
  "R4 block v w x y z i = (let block = block[i := sha1_blk block i] in
     (block, rol w 30, z + ((w XOR x XOR y) + block ! i + 0xca62c1d6 + rol v 5)))"

text \<open>One of the unrolled calls of \<open>transform\<close>: the operation, which of the variables \<open>a\<close> to \<open>e\<close> (0 to 4) it gets
  in which place, and the index; and the list of the 80 calls.\<close>

type_synonym sha1_round = "uint32 list \<Rightarrow> uint32 \<Rightarrow> uint32 \<Rightarrow> uint32 \<Rightarrow> uint32 \<Rightarrow> uint32 \<Rightarrow> nat \<Rightarrow> uint32 list \<times> uint32 \<times> uint32"

definition sha1_call :: "uint32 list \<times> uint32 list \<Rightarrow> sha1_round \<times> nat list \<times> nat \<Rightarrow> uint32 list \<times> uint32 list" where
  "sha1_call st c = (case st of (block, vs) \<Rightarrow> case c of (op, ps, i) \<Rightarrow>
     (case op block (vs ! (ps ! 0)) (vs ! (ps ! 1)) (vs ! (ps ! 2)) (vs ! (ps ! 3)) (vs ! (ps ! 4)) i of
        (block, w, z) \<Rightarrow> (block, (vs[ps ! 1 := w])[ps ! 4 := z])))"

definition sha1_calls :: "(sha1_round \<times> nat list \<times> nat) list" where
  "sha1_calls =
    [(R0, [0, 1, 2, 3, 4], 0), (R0, [4, 0, 1, 2, 3], 1), (R0, [3, 4, 0, 1, 2], 2), (R0, [2, 3, 4, 0, 1], 3),
     (R0, [1, 2, 3, 4, 0], 4), (R0, [0, 1, 2, 3, 4], 5), (R0, [4, 0, 1, 2, 3], 6), (R0, [3, 4, 0, 1, 2], 7),
     (R0, [2, 3, 4, 0, 1], 8), (R0, [1, 2, 3, 4, 0], 9), (R0, [0, 1, 2, 3, 4], 10), (R0, [4, 0, 1, 2, 3], 11),
     (R0, [3, 4, 0, 1, 2], 12), (R0, [2, 3, 4, 0, 1], 13), (R0, [1, 2, 3, 4, 0], 14), (R0, [0, 1, 2, 3, 4], 15),
     (R1, [4, 0, 1, 2, 3], 0), (R1, [3, 4, 0, 1, 2], 1), (R1, [2, 3, 4, 0, 1], 2), (R1, [1, 2, 3, 4, 0], 3),
     (R2, [0, 1, 2, 3, 4], 4), (R2, [4, 0, 1, 2, 3], 5), (R2, [3, 4, 0, 1, 2], 6), (R2, [2, 3, 4, 0, 1], 7),
     (R2, [1, 2, 3, 4, 0], 8), (R2, [0, 1, 2, 3, 4], 9), (R2, [4, 0, 1, 2, 3], 10), (R2, [3, 4, 0, 1, 2], 11),
     (R2, [2, 3, 4, 0, 1], 12), (R2, [1, 2, 3, 4, 0], 13), (R2, [0, 1, 2, 3, 4], 14), (R2, [4, 0, 1, 2, 3], 15),
     (R2, [3, 4, 0, 1, 2], 0), (R2, [2, 3, 4, 0, 1], 1), (R2, [1, 2, 3, 4, 0], 2), (R2, [0, 1, 2, 3, 4], 3),
     (R2, [4, 0, 1, 2, 3], 4), (R2, [3, 4, 0, 1, 2], 5), (R2, [2, 3, 4, 0, 1], 6), (R2, [1, 2, 3, 4, 0], 7),
     (R3, [0, 1, 2, 3, 4], 8), (R3, [4, 0, 1, 2, 3], 9), (R3, [3, 4, 0, 1, 2], 10), (R3, [2, 3, 4, 0, 1], 11),
     (R3, [1, 2, 3, 4, 0], 12), (R3, [0, 1, 2, 3, 4], 13), (R3, [4, 0, 1, 2, 3], 14), (R3, [3, 4, 0, 1, 2], 15),
     (R3, [2, 3, 4, 0, 1], 0), (R3, [1, 2, 3, 4, 0], 1), (R3, [0, 1, 2, 3, 4], 2), (R3, [4, 0, 1, 2, 3], 3),
     (R3, [3, 4, 0, 1, 2], 4), (R3, [2, 3, 4, 0, 1], 5), (R3, [1, 2, 3, 4, 0], 6), (R3, [0, 1, 2, 3, 4], 7),
     (R3, [4, 0, 1, 2, 3], 8), (R3, [3, 4, 0, 1, 2], 9), (R3, [2, 3, 4, 0, 1], 10), (R3, [1, 2, 3, 4, 0], 11),
     (R4, [0, 1, 2, 3, 4], 12), (R4, [4, 0, 1, 2, 3], 13), (R4, [3, 4, 0, 1, 2], 14), (R4, [2, 3, 4, 0, 1], 15),
     (R4, [1, 2, 3, 4, 0], 0), (R4, [0, 1, 2, 3, 4], 1), (R4, [4, 0, 1, 2, 3], 2), (R4, [3, 4, 0, 1, 2], 3),
     (R4, [2, 3, 4, 0, 1], 4), (R4, [1, 2, 3, 4, 0], 5), (R4, [0, 1, 2, 3, 4], 6), (R4, [4, 0, 1, 2, 3], 7),
     (R4, [3, 4, 0, 1, 2], 8), (R4, [2, 3, 4, 0, 1], 9), (R4, [1, 2, 3, 4, 0], 10), (R4, [0, 1, 2, 3, 4], 11),
     (R4, [4, 0, 1, 2, 3], 12), (R4, [3, 4, 0, 1, 2], 13), (R4, [2, 3, 4, 0, 1], 14), (R4, [1, 2, 3, 4, 0], 15)]"

definition transform_words :: "uint32 list \<Rightarrow> uint32 list \<Rightarrow> uint32 list" where
  "transform_words h block = map2 (+) h (snd (foldl sha1_call (block, h) sha1_calls))"

definition transform :: "uint32 list \<Rightarrow> sha1 \<Rightarrow> sha1" where
  "transform block s = s\<lparr>digest := transform_words (digest s) block, transforms := transforms s + 1\<rparr>"

definition buffer_to_block :: "byte list \<Rightarrow> uint32 list" where
  "buffer_to_block buf = map (\<lambda>i. ucast (buf ! (4 * i + 3)) OR push_bit 8 (ucast (buf ! (4 * i + 2)))
     OR push_bit 16 (ucast (buf ! (4 * i + 1))) OR push_bit 24 (ucast (buf ! (4 * i)))) [0..<16]"

text \<open>\<open>SHA1::update\<close> reads from the stream \<open>xs\<close> what is missing in the buffer.\<close>

function sha1_update :: "sha1 \<Rightarrow> byte list \<Rightarrow> sha1" where
  "sha1_update s xs =
     (let n = 64 - length (buffer s); buf = buffer s @ take n xs; s = s\<lparr>buffer := buf\<rparr> in
      if length buf \<noteq> 64 then s
      else sha1_update ((transform (buffer_to_block buf) s)\<lparr>buffer := []\<rparr>) (drop n xs))"
  by pat_completeness auto
termination
  by (relation "measure (\<lambda>(s, xs). length xs + length (buffer s))") (auto simp: Let_def)

declare sha1_update.simps [simp del]

text \<open>\<open>SHA1::final\<close>, with the digest it stores; the object is reset afterwards.\<close>

definition sha1_final :: "sha1 \<Rightarrow> uint32 list \<times> sha1" where
  "sha1_final s =
     (let total_bits = (transforms s * 64 + of_nat (length (buffer s))) * 8;
          buf = buffer s @ [0x80];
          orig_size = length buf;
          buf = buf @ replicate (64 - orig_size) 0;
          block = buffer_to_block buf;
          (s, block) = (if orig_size > 56 then (transform block s, replicate 14 0 @ drop 14 block) else (s, block));
          block = block[15 := ucast total_bits];
          block = block[14 := ucast (drop_bit 32 total_bits)]
      in (digest (transform block s), reset))"

section \<open>The standard\<close>

text \<open>The initial hash value, the functions and the constants of FIPS 180, the words of a block, the most significant
  byte first, and the schedule of 80 words.\<close>

definition sha1_H0 :: "uint32 list" where
  "sha1_H0 = [0x67452301, 0xefcdab89, 0x98badcfe, 0x10325476, 0xc3d2e1f0]"

fun be_words :: "byte list \<Rightarrow> uint32 list" where
  "be_words (a # b # c # d # bs) = (((ucast a * 256 + ucast b) * 256 + ucast c) * 256 + ucast d) # be_words bs"
| "be_words bs = []"

definition sha1_f :: "nat \<Rightarrow> uint32 \<Rightarrow> uint32 \<Rightarrow> uint32 \<Rightarrow> uint32" where
  "sha1_f t x y z = (if t < 20 then (x AND y) XOR (NOT x AND z)
     else if 40 \<le> t \<and> t < 60 then (x AND y) XOR (x AND z) XOR (y AND z) else x XOR y XOR z)"

definition sha1_K :: "nat \<Rightarrow> uint32" where
  "sha1_K t = (if t < 20 then 0x5a827999 else if t < 40 then 0x6ed9eba1 else if t < 60 then 0x8f1bbcdc else 0xca62c1d6)"

fun sha1_W :: "uint32 list \<Rightarrow> nat \<Rightarrow> uint32" where
  "sha1_W m t = (if t < 16 then m ! t else rol (sha1_W m (t - 3) XOR sha1_W m (t - 8) XOR sha1_W m (t - 14) XOR sha1_W m (t - 16)) 1)"

declare sha1_W.simps [simp del]

type_synonym sha1_vars = "uint32 \<times> uint32 \<times> uint32 \<times> uint32 \<times> uint32"

fun sha1_round_spec :: "uint32 list \<Rightarrow> nat \<Rightarrow> sha1_vars \<Rightarrow> sha1_vars" where
  "sha1_round_spec m t (a, b, c, d, e) = (rol a 5 + sha1_f t b c d + e + sha1_K t + sha1_W m t, a, rol b 30, c, d)"

fun sha1_rounds :: "uint32 list \<Rightarrow> nat \<Rightarrow> sha1_vars \<Rightarrow> sha1_vars" where
  "sha1_rounds m 0 v = v"
| "sha1_rounds m (Suc t) v = sha1_round_spec m t (sha1_rounds m t v)"

fun vars_list :: "sha1_vars \<Rightarrow> uint32 list" where
  "vars_list (a, b, c, d, e) = [a, b, c, d, e]"

definition sha1_compress :: "uint32 list \<Rightarrow> byte list \<Rightarrow> uint32 list" where
  "sha1_compress h bs = map2 (+) h (vars_list (sha1_rounds (be_words bs) 80 (h ! 0, h ! 1, h ! 2, h ! 3, h ! 4)))"

text \<open>The length of the message in bits, as 8 bytes, the most significant first.\<close>

definition be_length :: "nat \<Rightarrow> byte list" where
  "be_length n = rev (le_bytes 8 (8 * int n))"

definition sha1_spec :: "byte list \<Rightarrow> uint32 list" where
  "sha1_spec xs = hash_blocks sha1_compress sha1_H0 (pad_message be_length xs)"

section \<open>The unrolled calls compute the rounds\<close>

definition sha1_op :: "nat \<Rightarrow> sha1_round" where
  "sha1_op t = (if t < 16 then R0 else if t < 20 then R1 else if t < 40 then R2 else if t < 60 then R3 else R4)"

definition role :: "nat \<Rightarrow> nat \<Rightarrow> nat" where
  "role t k = (4 * t + k) mod 5"

lemma sha1_calls_form: "sha1_calls = map (\<lambda>t. (sha1_op t, map (role t) [0..<5], t mod 16)) [0..<80]"
  by (simp add: sha1_calls_def sha1_op_def role_def upt_conv_Cons)

text \<open>The bitwise forms of the code.\<close>

lemma sha1_f_code:
  "(w AND (x XOR y)) XOR y = (w AND x) XOR (NOT w AND (y :: uint32))"
  "((w OR x) AND y) OR (w AND x) = (w AND x) XOR (w AND y) XOR (x AND (y :: uint32))"
  by (auto simp: bit_eq_iff bit_simps)

definition sha1_op_word :: "nat \<Rightarrow> uint32 list \<Rightarrow> uint32" where
  "sha1_op_word t block = (if t < 16 then block ! (t mod 16) else sha1_blk block (t mod 16))"

lemma sha1_op_form:
  assumes "length block = 16"
  shows "sha1_op t block v w x y z (t mod 16) =
    (if t < 16 then block else block[t mod 16 := sha1_op_word t block], rol w 30,
     rol v 5 + sha1_f t w x y + z + sha1_K t + sha1_op_word t block)"
proof -
  have "t mod 16 < length block" using assms by simp
  then show ?thesis
    by (auto simp: sha1_op_def R0_def R1_def R2_def R3_def R4_def sha1_op_word_def sha1_f_def sha1_K_def sha1_f_code Let_def add.assoc add.commute add.left_commute)
qed

text \<open>Before round \<open>t\<close> the block holds the last 16 words of the schedule, and the variables in their roles are
  those of the standard.\<close>

definition sha1_sim :: "uint32 list \<Rightarrow> sha1_vars \<Rightarrow> nat \<Rightarrow> uint32 list \<times> uint32 list \<Rightarrow> bool" where
  "sha1_sim m v0 t st \<longleftrightarrow> length (fst st) = 16 \<and> length (snd st) = 5 \<and>
     (\<forall>j. t \<le> j + 16 \<and> j < max t 16 \<longrightarrow> fst st ! (j mod 16) = sha1_W m j) \<and>
     map (\<lambda>k. snd st ! role t k) [0..<5] = vars_list (sha1_rounds m t v0)"

lemma sha1_op_word_W:
  assumes "\<forall>j. t \<le> j + 16 \<and> j < max t 16 \<longrightarrow> block ! (j mod 16) = sha1_W m j"
  shows "sha1_op_word t block = sha1_W m t"
proof (cases "t < 16")
  case True
  then show ?thesis using assms by (simp add: sha1_op_word_def)
next
  case False
  have a15: "n AND 15 = n mod 16" for n :: nat
    using take_bit_eq_mask [of 4 n] by (simp add: take_bit_eq_mod mask_eq_exp_minus_1)
  obtain u where t: "t = u + 16" using False by (intro that [of "t - 16"]) simp
  have w: "block ! ((t - k) mod 16) = sha1_W m (t - k)" if "0 < k" "k \<le> 16" for k
    using assms that False by auto
  have "sha1_W m t = rol (sha1_W m (u + 13) XOR sha1_W m (u + 8) XOR sha1_W m (u + 2) XOR sha1_W m u) 1"
    by (subst sha1_W.simps) (simp add: t add.commute)
  moreover have "(u mod 16 + k) AND 15 = (u + k) mod 16" for k by (simp only: a15 mod_add_left_eq)
  moreover have "block ! ((u + 13) mod 16) = sha1_W m (u + 13)" "block ! ((u + 8) mod 16) = sha1_W m (u + 8)"
    "block ! ((u + 2) mod 16) = sha1_W m (u + 2)" "block ! (u mod 16) = sha1_W m u"
    using w [of 3] w [of 8] w [of 14] w [of 16] t by (simp_all add: add.commute)
  ultimately show ?thesis using False t by (simp add: sha1_op_word_def sha1_blk_def del: add_2_eq_Suc')
qed

lemma role_Suc: "role (Suc t) 0 = role t 4" "role (Suc t) (Suc k) = role t k"
proof -
  show "role (Suc t) 0 = role t 4" by (simp add: role_def add.commute)
  have "4 * Suc t + Suc k = (4 * t + k) + 5" by simp
  then show "role (Suc t) (Suc k) = role t k" unfolding role_def by simp
qed

lemma role_lt [simp]: "role t i < 5"
  by (simp add: role_def)

lemma role_distinct: "i < 5 \<Longrightarrow> k < 5 \<Longrightarrow> role t i = role t k \<longleftrightarrow> i = k"
proof -
  assume "i < 5" "k < 5"
  then have m: "(4 * t) mod 5 \<in> set [0..<5]" "i \<in> set [0..<5]" "k \<in> set [0..<5]" by simp_all
  have "\<forall>a\<in>set [0..<5]. \<forall>i\<in>set [0..<5]. \<forall>k\<in>set [0..<5]. (a + i) mod 5 = (a + k) mod 5 \<longrightarrow> i = (k :: nat)" by code_simp
  from this [rule_format, OF m] have "((4 * t) mod 5 + i) mod 5 = ((4 * t) mod 5 + k) mod 5 \<Longrightarrow> i = k" .
  then show ?thesis unfolding role_def mod_add_left_eq by blast
qed

lemma upt_5: "[0..<5] = [0, 1, 2, 3, 4 :: nat]"
  by (simp add: upt_conv_Cons)

lemma sha1_call_sim:
  assumes "sha1_sim m v0 t st"
  shows "sha1_sim m v0 (Suc t) (sha1_call st (sha1_op t, map (role t) [0..<5], t mod 16))"
proof -
  obtain block vs where st: "st = (block, vs)" by (cases st)
  obtain a b c d e where r: "sha1_rounds m t v0 = (a, b, c, d, e)" by (metis prod_cases5)
  have l: "length block = 16" "length vs = 5" and w: "\<forall>j. t \<le> j + 16 \<and> j < max t 16 \<longrightarrow> block ! (j mod 16) = sha1_W m j"
    and v: "vs ! role t 0 = a" "vs ! role t 1 = b" "vs ! role t 2 = c" "vs ! role t 3 = d" "vs ! role t 4 = e"
    using assms r unfolding sha1_sim_def st upt_5 by simp_all
  note W = sha1_op_word_W [OF w]
  let ?block = "if t < 16 then block else block[t mod 16 := sha1_W m t]"
  let ?z = "rol a 5 + sha1_f t b c d + e + sha1_K t + sha1_W m t"
  let ?vs = "vs[role t 1 := rol b 30, role t 4 := ?z]"
  have call: "sha1_call st (sha1_op t, map (role t) [0..<5], t mod 16) = (?block, ?vs)"
    unfolding sha1_call_def st upt_5 using sha1_op_form [OF l(1), of t a b c d e] v W by simp
  have "?block ! (j mod 16) = sha1_W m j" if j: "Suc t \<le> j + 16" "j < max (Suc t) 16" for j
  proof (cases "t < 16 \<or> j \<noteq> t")
    case True
    then have "t < 16 \<or> \<not> 16 dvd t - j" using j by (auto dest: dvd_imp_le)
    then have "t < 16 \<or> j mod 16 \<noteq> t mod 16" using j True mod_eq_dvd_iff_nat [of j t 16] by (auto simp: max_def split: if_splits)
    then show ?thesis using w j True l by (auto simp: nth_list_update)
  qed (use l in simp)
  moreover have "role (Suc t) 2 = role t 1" using role_Suc(2) [of t 1] by (simp add: numeral_2_eq_2)
  with l(2) v have "map (\<lambda>k. ?vs ! role (Suc t) k) [0..<5] = [?z, a, rol b 30, c, d]"
    unfolding upt_5 using role_Suc(1) [of t] role_Suc(2) [of t 0, simplified] role_Suc(2) [of t 2, simplified] role_Suc(2) [of t 3, simplified]
    by (simp add: nth_list_update role_distinct)
  ultimately show ?thesis unfolding sha1_sim_def call using l r by simp
qed

lemma sha1_calls_sim:
  assumes "length block = 16" "length h = 5"
  shows "sha1_sim block (h ! 0, h ! 1, h ! 2, h ! 3, h ! 4) t
    (foldl sha1_call (block, h) (map (\<lambda>t. (sha1_op t, map (role t) [0..<5], t mod 16)) [0..<t]))"
proof (induction t)
  case 0
  then show ?case unfolding sha1_sim_def upt_5 using assms by (simp add: role_def sha1_W.simps)
qed (simp add: sha1_call_sim)

lemma length_buffer_to_block [simp]: "length (buffer_to_block b) = 16"
  by (simp add: buffer_to_block_def)

lemma be_word_code:
  fixes a b c d :: byte
  shows "((ucast a * 256 + ucast b) * 256 + ucast c) * 256 + ucast d =
    (ucast d OR push_bit 8 (ucast c) OR push_bit 16 (ucast b) OR push_bit 24 (ucast a) :: uint32)"
proof -
  have j: "x * 256 + ucast y = push_bit 8 x OR ucast y" for x :: uint32 and y :: byte
  proof -
    have "push_bit 8 x + ucast y = push_bit 8 x OR ucast y"
      by (rule disjunctive_add) (auto simp: bit_simps dest: bit_imp_le_length)
    then show ?thesis by (simp add: push_bit_eq_mult)
  qed
  show ?thesis unfolding j by (auto simp: bit_eq_iff bit_simps)
qed

lemma be_words_nth:
  "4 * i + 4 \<le> length bs \<Longrightarrow> be_words bs ! i = ((ucast (bs ! (4 * i)) * 256 + ucast (bs ! (4 * i + 1))) * 256
     + ucast (bs ! (4 * i + 2))) * 256 + ucast (bs ! (4 * i + 3))"
proof (induction bs arbitrary: i rule: be_words.induct)
  case (1 a b c d bs)
  then show ?case by (cases i) (simp_all add: numeral_eq_Suc)
qed (auto simp: numeral_eq_Suc)

lemma length_be_words: "length (be_words bs) = length bs div 4"
  by (induction bs rule: be_words.induct) simp_all

lemma buffer_to_block_words:
  assumes "length b = 64"
  shows "buffer_to_block b = be_words b"
proof (rule nth_equalityI)
  fix i assume "i < length (buffer_to_block b)"
  then have "4 * i + 4 \<le> length b" using assms by simp
  from be_words_nth [OF this, unfolded be_word_code] show "buffer_to_block b ! i = be_words b ! i"
    using \<open>i < length (buffer_to_block b)\<close> by (simp add: buffer_to_block_def)
qed (simp add: length_be_words assms)

lemma sha1_transform_spec:
  assumes "length h = 5" "length b = 64"
  shows "transform_words h (buffer_to_block b) = sha1_compress h b"
proof -
  let ?v = "(h ! 0, h ! 1, h ! 2, h ! 3, h ! 4)"
  obtain block vs where f: "foldl sha1_call (buffer_to_block b, h) sha1_calls = (block, vs)" by fastforce
  have "sha1_sim (buffer_to_block b) ?v 80 (block, vs)"
    using sha1_calls_sim [OF length_buffer_to_block assms(1), of b 80] f by (simp only: sha1_calls_form)
  then have l: "length vs = 5" and "map (\<lambda>k. vs ! role 80 k) [0..<5] = vars_list (sha1_rounds (buffer_to_block b) 80 ?v)"
    by (simp_all only: sha1_sim_def snd_conv)
  moreover have "map (\<lambda>k. vs ! role 80 k) [0..<5] = vs"
  proof (rule nth_equalityI)
    fix i assume "i < length (map (\<lambda>k. vs ! role 80 k) [0..<5])"
    then show "map (\<lambda>k. vs ! role 80 k) [0..<5] ! i = vs ! i"
      using mod_mult_self3 [of 64 5 i] by (simp add: role_def)
  qed (use l in simp)
  ultimately show ?thesis using f by (simp add: transform_words_def sha1_compress_def buffer_to_block_words [OF assms(2), symmetric])
qed

section \<open>The stream and the padding\<close>

lemma length_sha1_compress: "length h = 5 \<Longrightarrow> length (sha1_compress h b) = 5"
  by (cases "sha1_rounds (be_words b) 80 (h ! 0, h ! 1, h ! 2, h ! 3, h ! 4)") (simp add: sha1_compress_def)

text \<open>The state after \<open>n\<close> bytes: the digest of the complete blocks, the rest in the buffer.\<close>

definition sha1_rep :: "sha1 \<Rightarrow> uint32 list \<Rightarrow> byte list \<Rightarrow> nat \<Rightarrow> bool" where
  "sha1_rep s h r n \<longleftrightarrow> length h = 5 \<and> s = \<lparr>digest = h, buffer = r, transforms = of_nat (n div 64)\<rparr> \<and> length r = n mod 64"

lemma sha1_update_law:
  assumes "sha1_rep s h r n" "absorb sha1_compress h (r @ xs) = (h', r')"
  shows "sha1_rep (sha1_update s xs) h' r' (n + length xs)"
  using assms
proof (induction s xs arbitrary: h r n rule: sha1_update.induct)
  case (1 s xs)
  let ?n = "64 - length r" let ?b = "r @ take ?n xs"
  have s: "s = \<lparr>digest = h, buffer = r, transforms = of_nat (n div 64)\<rparr>" "length h = 5" and r: "length r = n mod 64"
    using 1(2) by (auto simp: sha1_rep_def)
  have r64: "length r < 64" using r by simp
  show ?case
  proof (cases "length ?b = 64")
    case False
    then have len: "length r + length xs < 64" using r64 by auto
    then have "take ?n xs = xs" by simp
    moreover have n: "n + length xs = 64 * (n div 64) + (length r + length xs)" using r by simp
    moreover have "(n + length xs) div 64 = n div 64" "(n + length xs) mod 64 = length r + length xs"
      using len by (subst n, simp)+
    ultimately show ?thesis using 1(3) s r len by (subst sha1_update.simps) (auto simp: Let_def sha1_rep_def)
  next
    case True
    then have len: "?n \<le> length xs" using r64 by auto
    let ?s = "\<lparr>digest = sha1_compress h ?b, buffer = [], transforms = of_nat (n div 64) + 1\<rparr>"
    have "n + ?n = (n div 64 * 64 + length r) + ?n" using r by simp
    then have n: "n + ?n = 64 * (n div 64 + 1)" using r64 by (simp only: add.assoc) simp
    have "sha1_rep ?s (sha1_compress h ?b) [] (n + ?n)"
      unfolding sha1_rep_def n using s(2) by (simp add: length_sha1_compress)
    moreover have "absorb sha1_compress (sha1_compress h ?b) ([] @ drop ?n xs) = (h', r')"
      using absorb_block [OF True, of sha1_compress h "drop ?n xs"] 1(3) by simp
    moreover have t: "(transform (buffer_to_block ?b) (s\<lparr>buffer := ?b\<rparr>))\<lparr>buffer := []\<rparr> = ?s"
      using s True by (simp add: transform_def sha1_transform_spec)
    ultimately have "sha1_rep (sha1_update ?s (drop ?n xs)) h' r' (n + ?n + length (drop ?n xs))"
      using 1(1) [of ?n ?b "s\<lparr>buffer := ?b\<rparr>" "sha1_compress h ?b" "[]" "n + ?n"] s True by simp
    moreover have "sha1_update s xs = sha1_update ?s (drop ?n xs)"
      using True t s by (subst sha1_update.simps) (simp add: Let_def)
    ultimately show ?thesis using len by simp
  qed
qed

text \<open>The last words of the padded block are the length.\<close>

lemma buffer_to_block_nth:
  "i < 16 \<Longrightarrow> buffer_to_block b ! i = ucast (b ! (4 * i + 3)) OR push_bit 8 (ucast (b ! (4 * i + 2)))
     OR push_bit 16 (ucast (b ! (4 * i + 1))) OR push_bit 24 (ucast (b ! (4 * i)))"
  by (simp add: buffer_to_block_def)

lemma length_be_length [simp]: "length (be_length n) = 8"
  by (simp add: be_length_def)

lemma be_length_nth: "i < 8 \<Longrightarrow> be_length n ! i = word_of_int (8 * int n div 256 ^ (7 - i))"
proof -
  have "le_bytes k v ! j = word_of_int (v div 256 ^ j)" if "j < k" for k j v
    using that
  proof (induction k arbitrary: v j)
    case (Suc k)
    then show ?case by (cases j) (simp_all add: zdiv_zmult2_eq)
  qed simp
  moreover assume "i < 8"
  ultimately show ?thesis by (simp add: be_length_def rev_nth)
qed

lemma words_of_length:
  "ucast (word_of_int (v div 256 ^ (k + 0)) :: byte) OR push_bit 8 (ucast (word_of_int (v div 256 ^ (k + 1)) :: byte))
     OR push_bit 16 (ucast (word_of_int (v div 256 ^ (k + 2)) :: byte))
     OR push_bit 24 (ucast (word_of_int (v div 256 ^ (k + 3)) :: byte)) = (word_of_int (v div 256 ^ k) :: uint32)"
proof -
  have d: "v div 256 ^ j = drop_bit (8 * j) v" for j
    by (simp add: drop_bit_eq_div power_mult)
  show ?thesis
  proof (rule bit_word_eqI)
    fix n assume "n < LENGTH(32)"
    then consider "n < 8" | "8 \<le> n \<and> n < 16" | "16 \<le> n \<and> n < 24" | "24 \<le> n \<and> n < 32" by fastforce
    then show "bit (ucast (word_of_int (v div 256 ^ (k + 0)) :: byte) OR push_bit 8 (ucast (word_of_int (v div 256 ^ (k + 1)) :: byte))
      OR push_bit 16 (ucast (word_of_int (v div 256 ^ (k + 2)) :: byte))
      OR push_bit 24 (ucast (word_of_int (v div 256 ^ (k + 3)) :: byte)) :: uint32) n = bit (word_of_int (v div 256 ^ k) :: uint32) n"
      unfolding d by cases (auto simp: bit_simps)
  qed
qed

text \<open>A padded block and its words.\<close>

lemma buffer_to_block_length:
  assumes "length b = 56"
  shows "buffer_to_block (b @ be_length n) =
    ((buffer_to_block (b @ replicate 8 0))[15 := word_of_int (8 * int n)])[14 := word_of_int (8 * int n div 2 ^ 32)]"
proof (rule nth_equalityI)
  fix i assume i: "i < length (buffer_to_block (b @ be_length n))"
  note l = be_length_nth [of _ n] buffer_to_block_nth
  consider "i < 14" | "i = 14" | "i = 15" using i by fastforce
  then show "buffer_to_block (b @ be_length n) ! i =
    ((buffer_to_block (b @ replicate 8 0))[15 := word_of_int (8 * int n)])[14 := word_of_int (8 * int n div 2 ^ 32)] ! i"
  proof cases
    case 1
    then show ?thesis using assms by (simp add: l nth_append)
  next
    case 2
    then show ?thesis using assms words_of_length [of "8 * int n" 4] by (simp add: l nth_append)
  next
    case 3
    then show ?thesis using assms words_of_length [of "8 * int n" 0] by (simp add: l nth_append)
  qed
qed simp

lemma sha1_final_law:
  assumes "sha1_rep s h r n"
  shows "fst (sha1_final s) =
    hash_blocks sha1_compress h (r @ [0x80] @ replicate ((119 - n mod 64) mod 64) 0 @ be_length n)"
proof -
  have s: "s = \<lparr>digest = h, buffer = r, transforms = of_nat (n div 64)\<rparr>" and h: "length h = 5" and r: "length r = n mod 64"
    using assms by (auto simp: sha1_rep_def)
  let ?bits = "(transforms s * 64 + of_nat (length (buffer s))) * 8"
  have "?bits = of_nat ((n div 64 * 64 + n mod 64) * 8)"
    unfolding s using r by (simp only: sha1.simps of_nat_mult of_nat_add of_nat_numeral)
  then have bits: "?bits = word_of_int (8 * int n)" by (simp add: mult.commute)
  have "(ucast (word_of_int v :: uint64) :: uint32) = word_of_int v"
    "(ucast (drop_bit 32 (word_of_int v :: uint64)) :: uint32) = word_of_int (v div 2 ^ 32)" for v
    unfolding drop_bit_eq_div [symmetric] by (auto intro!: bit_word_eqI simp: bit_simps simp flip: drop_bit_eq_div)
  then have put: "ucast ?bits = (word_of_int (8 * int n) :: uint32)" "ucast (drop_bit 32 ?bits) = (word_of_int (8 * int n div 2 ^ 32) :: uint32)"
    unfolding bits by this+
  let ?z = "\<lambda>k. replicate k (0 :: byte)"
  have last: "fst (absorb sha1_compress h' (b @ be_length n)) =
      transform_words h' (((buffer_to_block (b @ ?z 8))[15 := word_of_int (8 * int n)])[14 := word_of_int (8 * int n div 2 ^ 32)])"
    if "length b = 56" "length h' = 5" for b h'
    using absorb_block [of "b @ be_length n" sha1_compress h' "[]"] that sha1_transform_spec [OF that(2), of "b @ be_length n"]
    by (simp add: buffer_to_block_length)
  show ?thesis
  proof (cases "length r < 56")
    case True
    then have "119 - n mod 64 = 64 + (55 - length r)" using r by simp
    then have m: "(119 - n mod 64) mod 64 = 55 - length r" by (simp only: mod_add_self1) simp
    have "buffer s @ [0x80] @ ?z (64 - length (buffer s @ [0x80])) = (r @ [0x80] @ ?z (55 - length r)) @ ?z 8"
      using s True by (simp flip: replicate_add)
    then show ?thesis unfolding sha1_final_def Let_def put using True last [of "r @ [0x80] @ ?z (55 - length r)" h] h s
      by (simp add: transform_def hash_blocks_def m)
  next
    case False
    let ?b = "r @ [0x80] @ ?z (63 - length r)"
    have r64: "length r < 64" using r by simp
    have "119 - n mod 64 = (63 - length r) + 56" "119 - n mod 64 < 64" using False r r64 by simp_all
    then have "?b @ ?z 56 @ be_length n = r @ [0x80] @ ?z ((119 - n mod 64) mod 64) @ be_length n"
      by (simp add: replicate_add)
    moreover have b64: "length ?b = 64" using r64 by simp
    ultimately have "hash_blocks sha1_compress h (r @ [0x80] @ ?z ((119 - n mod 64) mod 64) @ be_length n) =
        fst (absorb sha1_compress (sha1_compress h ?b) (?z 56 @ be_length n))"
      unfolding hash_blocks_def by (metis absorb_block)
    also have "\<dots> = transform_words (sha1_compress h ?b)
        (((buffer_to_block (?z 56 @ ?z 8))[15 := word_of_int (8 * int n)])[14 := word_of_int (8 * int n div 2 ^ 32)])"
      by (rule last) (simp_all add: length_sha1_compress h)
    also have "((buffer_to_block (?z 56 @ ?z 8))[15 := word_of_int (8 * int n)])[14 := word_of_int (8 * int n div 2 ^ 32)] =
        ((replicate 14 0 @ drop 14 (buffer_to_block ?b))[15 := word_of_int (8 * int n)])[14 := word_of_int (8 * int n div 2 ^ 32)]"
      by (rule nth_equalityI) (auto simp: nth_list_update nth_append buffer_to_block_nth)
    finally show ?thesis unfolding sha1_final_def Let_def put using False r64 h s b64 sha1_transform_spec [OF h, of ?b, OF b64]
      by (simp add: transform_def)
  qed
qed

section \<open>The digest\<close>

interpretation sha1: block_hash sha1_compress reset sha1_update "\<lambda>s. fst (sha1_final s)" sha1_rep sha1_H0 be_length "\<lambda>_. True"
proof unfold_locales
  show "sha1_rep reset sha1_H0 [] 0" by (simp add: sha1_rep_def reset_def sha1_H0_def)
qed (use sha1_update_law sha1_final_law in blast)+

text \<open>Property C32: the digest that \<open>SHA1\<close> computes is the one of the standard for every message, however it is cut
  into pieces for \<open>update\<close>: the unrolled calls on a block of 16 words that is overwritten in place are the 80 rounds
  over the expanded schedule, and the padding is that of the standard in every case of the length.\<close>

theorem sha1_is_standard:
  "fst (sha1_final (foldl sha1_update reset pieces)) = sha1_spec (concat pieces)"
  unfolding sha1_spec_def by (rule sha1.digest) (simp add: list_all_iff)

end
