(* ===== verification/Websocket.thy ===== *)
theory Websocket
  imports Kernel_Events Base64 Sha1
begin

text \<open>
  The WebSocket layer of the TCP engine (\<open>CWebSocket\<close> in \<open>TCPNetworkEngine.cpp\<close>): the handshake, which answers the
  client's key with a hash of it, and the framing of messages in both directions. Buffers are blocks of bytes;
  sizes are 32-bit. The length of a frame is a signed 64-bit number (\<open>SCORE\<close>), the offset an \<open>int\<close>.
\<close>

section \<open>Frames\<close>

definition WS_MIDDLE_FRAME :: byte where "WS_MIDDLE_FRAME = 0x00"
definition WS_BINARY_FRAME :: byte where "WS_BINARY_FRAME = 0x02"
definition WS_CLOSING_FRAME :: byte where "WS_CLOSING_FRAME = 0x08"
definition WS_EMPTY_FRAME :: byte where "WS_EMPTY_FRAME = 0xF0"
definition WS_ERROR_FRAME :: byte where "WS_ERROR_FRAME = 0xF1"
definition WS_OPENING_FRAME :: byte where "WS_OPENING_FRAME = 0xF3"

lemmas ws_types = WS_MIDDLE_FRAME_def WS_BINARY_FRAME_def WS_CLOSING_FRAME_def WS_EMPTY_FRAME_def WS_ERROR_FRAME_def WS_OPENING_FRAME_def

definition WS_BUFFER :: nat where "WS_BUFFER = 81920"

record web_socket =
  m_cbWSStatus :: byte
  m_szHandShakeResponse :: "byte list"
  ws_dwRecvSize :: uint32
  ws_cbRecvBuf :: "byte list"

definition ws_clear :: web_socket where
  "ws_clear = \<lparr>m_cbWSStatus = 0, m_szHandShakeResponse = replicate 1024 0, ws_dwRecvSize = 0, ws_cbRecvBuf = replicate WS_BUFFER 0\<rparr>"

text \<open>Network byte order.\<close>

definition be_word :: "uint16 \<Rightarrow> byte list" where
  "be_word n = rev (le_word n)"

definition be_uint16 :: "byte list \<Rightarrow> int" where
  "be_uint16 bs = le_uint (rev bs)"

text \<open>\<open>EncodeFrame\<close> returns the status, the output buffer and the size, which keeps its old value in case of an error.\<close>

definition EncodeFrame :: "byte list \<Rightarrow> uint32 \<Rightarrow> byte list \<Rightarrow> uint32 \<Rightarrow> uint32 \<Rightarrow> (byte \<times> byte list \<times> uint32) option" where
  "EncodeFrame inMessage nInSize outMessage nOutCapcity nOutSize =
     (if nInSize > 32767 then Some (WS_ERROR_FRAME, outMessage, nOutSize)
      else if nOutCapcity < nInSize + 4 then Some (WS_ERROR_FRAME, outMessage, nOutSize)
      else do {
        out \<leftarrow> mem_write 0 [0x80 OR WS_BINARY_FRAME] outMessage;
        (out, nOutSize) \<leftarrow>
          (if nInSize < 126 then map_option (\<lambda>out. (out, 2)) (mem_write 1 [ucast nInSize] out)
           else do {
             out \<leftarrow> mem_write 1 [126] out;
             out \<leftarrow> mem_write 2 (be_word (ucast nInSize)) out;
             Some (out, 4)
           });
        xs \<leftarrow> mem_read 0 (unat nInSize) inMessage;
        out \<leftarrow> mem_write (unat nOutSize) xs out;
        Some (WS_EMPTY_FRAME, out, nOutSize + nInSize)
      })"

text \<open>The variables of \<open>DecodeFrame\<close>: what is left to read, the output, its index, the capacity left, and the size of what
  the caller has received.\<close>

record ws_decoder =
  d_size :: uint32
  d_buf :: "byte list"
  d_out :: "byte list"
  d_index :: int
  d_capacity :: uint32
  d_recv :: uint32

text \<open>The payload length and the offset behind it, from the second byte.\<close>

definition payload_length :: "byte \<Rightarrow> byte list \<Rightarrow> (int \<times> int) option" where
  "payload_length len7 buf =
     (if len7 = 126 then map_option (\<lambda>bs. (4, be_uint16 bs)) (mem_read 2 2 buf)
      else if len7 = 127 then map_option (\<lambda>bs. (10, le_sint bs)) (mem_read 2 8 buf)
      else Some (2, uint len7))"

definition unmask :: "byte list \<Rightarrow> byte list \<Rightarrow> byte list" where
  "unmask key xs = map (\<lambda>i. xs ! i XOR key ! (i mod 4)) [0..<length xs]"

text \<open>The payload, unmasked, and the offset of its first byte. A negative length copies nothing when the frame is masked
  and makes \<open>memcpy\<close> run out of the buffer when it is not.\<close>

definition payload :: "bool \<Rightarrow> int \<Rightarrow> int \<Rightarrow> byte list \<Rightarrow> (int \<times> byte list) option" where
  "payload masked off len buf =
     (if masked then do {
        key \<leftarrow> mem_read (nat off) 4 buf;
        xs \<leftarrow> mem_read (nat off + 4) (nat len) buf;
        Some (off + 4, unmask key xs)
      }
      else if len < 0 then None
      else map_option (Pair off) (mem_read (nat off) (nat len) buf))"

text \<open>One turn of the loop: \<open>Inl\<close> leaves it with a status.\<close>

definition decode_step :: "ws_decoder \<Rightarrow> (byte + ws_decoder) option" where
  "decode_step d =
     (if d_size d < 2 then Some (Inl WS_MIDDLE_FRAME)
      else do {
        b0 \<leftarrow> field 0 (d_buf d);
        b1 \<leftarrow> field 1 (d_buf d);
        let len7 = (b1 :: byte) AND 0x7f;
        if (b0 :: byte) AND 0x0f = WS_CLOSING_FRAME then Some (Inl WS_CLOSING_FRAME)
        else if d_size d < ucast len7 + 2 then Some (Inl WS_MIDDLE_FRAME)
        else do {
          (off, len) \<leftarrow> payload_length len7 (d_buf d);
          if uint (d_size d) < len + off then Some (Inl WS_MIDDLE_FRAME)
          else if uint (d_capacity d) < len then Some (Inl WS_MIDDLE_FRAME)
          else do {
            (off, xs) \<leftarrow> payload (drop_bit 7 b1 = 1) off len (d_buf d);
            out \<leftarrow> (if xs = [] then Some (d_out d) else if d_index d < 0 then None else mem_write (nat (d_index d)) xs (d_out d));
            let off = signed_take_bit 31 (off + len);
            let n = d_size d - word_of_int off;
            buf \<leftarrow> (if n > 0 then if off < 0 then None else mem_move 0 (nat off) (unat n) (d_buf d) else Some (d_buf d));
            Some (Inr \<lparr>d_size = n, d_buf = buf, d_out = out, d_index = d_index d + len,
              d_capacity = d_capacity d - word_of_int len, d_recv = d_recv d + word_of_int len\<rparr>)
          }
        }
      })"

partial_function (option) ws_decode_loop :: "ws_decoder \<Rightarrow> (byte \<times> ws_decoder) option" where
  "ws_decode_loop d = do {
     r \<leftarrow> decode_step d;
     case r of
       Inl ret \<Rightarrow> Some (ret, d)
     | Inr d \<Rightarrow> if d_size d > 0 then ws_decode_loop d else Some (WS_OPENING_FRAME, d)
   }"

text \<open>\<open>DecodeFrame\<close>: the status, the output, the new received size and the object.\<close>

definition DecodeFrame :: "byte list \<Rightarrow> uint32 \<Rightarrow> uint32 \<Rightarrow> web_socket \<Rightarrow> (byte \<times> byte list \<times> uint32 \<times> web_socket) option" where
  "DecodeFrame outMessage nCapcity recvSize w = do {
     (ret, d) \<leftarrow> ws_decode_loop \<lparr>d_size = ws_dwRecvSize w, d_buf = ws_cbRecvBuf w, d_out = outMessage, d_index = 0,
       d_capacity = nCapcity, d_recv = recvSize\<rparr>;
     Some (if nCapcity \<noteq> d_capacity d then WS_OPENING_FRAME else ret, d_out d, d_recv d,
       w\<lparr>ws_dwRecvSize := d_size d, ws_cbRecvBuf := d_buf d\<rparr>)
   }"

section \<open>The handshake\<close>

text \<open>C strings: the bytes before the terminator, and \<open>strtok\<close> with the two characters of a line end.\<close>

fun cstr :: "byte list \<Rightarrow> byte list option" where
  "cstr [] = None"
| "cstr (x # xs) = (if x = 0 then Some [] else map_option (Cons x) (cstr xs))"

definition is_delim :: "byte \<Rightarrow> bool" where
  "is_delim c = (c = 13 \<or> c = 10)"

function strtok_all :: "byte list \<Rightarrow> byte list list" where
  "strtok_all xs = (case dropWhile is_delim xs of
     [] \<Rightarrow> []
   | y # ys \<Rightarrow> (y # takeWhile (\<lambda>c. \<not> is_delim c) ys) # strtok_all (dropWhile (\<lambda>c. \<not> is_delim c) ys))"
  by pat_completeness auto
termination
proof (relation "measure length")
  fix xs y ys assume e: "dropWhile is_delim xs = y # ys"
  have "length (dropWhile (\<lambda>c. \<not> is_delim c) ys) \<le> length ys" by (rule length_dropWhile_le)
  also have "\<dots> < length (dropWhile is_delim xs)" using e by simp
  also have "\<dots> \<le> length xs" by (rule length_dropWhile_le)
  finally show "(dropWhile (\<lambda>c. \<not> is_delim c) ys, xs) \<in> measure length" by simp
qed simp

declare strtok_all.simps [simp del]

definition chars :: "string \<Rightarrow> byte list" where
  "chars s = map of_char s"

record ws_req =
  req :: "byte list"
  connection :: "byte list"
  upgrade :: "byte list"
  host :: "byte list"
  origin :: "byte list"
  cookie :: "byte list"
  sec_websocket_key :: "byte list"
  sec_websocket_version :: "byte list"

definition empty_req :: ws_req where
  "empty_req = \<lparr>req = [], connection = [], upgrade = [], host = [], origin = [], cookie = [], sec_websocket_key = [], sec_websocket_version = []\<rparr>"

text \<open>One header line: the name is what is before the first colon, the value what follows after spaces. The host loses
  its first character; where there is none, the code reads on behind the line, and the model has the empty host.
  Nothing uses the host.\<close>

definition header_line :: "byte list \<Rightarrow> ws_req \<Rightarrow> ws_req" where
  "header_line p r =
     (if 58 \<notin> set p then r
      else let name = takeWhile (\<lambda>c. c \<noteq> 58) p; val = dropWhile (\<lambda>c. c = 32) (tl (dropWhile (\<lambda>c. c \<noteq> 58) p)) in
        if name = chars ''Connection'' then r\<lparr>connection := val\<rparr>
        else if name = chars ''Upgrade'' then r\<lparr>upgrade := val\<rparr>
        else if name = chars ''Host'' then r\<lparr>host := drop 1 val\<rparr>
        else if name = chars ''Origin'' then r\<lparr>origin := val\<rparr>
        else if name = chars ''Cookie'' then r\<lparr>cookie := val\<rparr>
        else if name = chars ''Sec-WebSocket-Key'' then r\<lparr>sec_websocket_key := val\<rparr>
        else if name = chars ''Sec-WebSocket-Version'' then r\<lparr>sec_websocket_version := val\<rparr>
        else r)"

text \<open>The request is copied into an array of 4096 bytes; the copy has to leave room for a terminator.\<close>

definition ParseWebSocketHandShakeRequest :: "byte list \<Rightarrow> ws_req option" where
  "ParseWebSocketHandShakeRequest s_req = do {
     s \<leftarrow> cstr s_req;
     tmp \<leftarrow> mem_write 0 s (replicate 4096 0);
     s \<leftarrow> cstr tmp;
     Some (case strtok_all s of
       [] \<Rightarrow> empty_req
     | p # ps \<Rightarrow> foldl (\<lambda>r p. header_line p r) (empty_req\<lparr>req := p\<rparr>) ps)
   }"

definition GenerateWebSocketKey :: "byte list \<Rightarrow> byte list" where
  "GenerateWebSocketKey key =
     (let tmp = key @ chars ''258EAFA5-E914-47DA-95CA-C5AB0DC85B11'';
          msg_digest = fst (sha1_final (sha1_update reset tmp))
      in base64_encode (concat (map (\<lambda>w. rev (le_word w)) msg_digest)))"

definition handshake_text :: "byte list \<Rightarrow> byte list" where
  "handshake_text key =
     chars ''HTTP/1.1 101 Web Socket Protocol Handshake'' @ [13, 10] @ chars ''Upgrade: WebSocket'' @ [13, 10] @
     chars ''Connection: Upgrade'' @ [13, 10] @ chars ''Sec-WebSocket-Accept: '' @ key @ [13, 10, 13, 10]"

definition ParseWebSocketHandShake :: "byte list \<Rightarrow> nat \<Rightarrow> web_socket \<Rightarrow> (bool \<times> web_socket) option" where
  "ParseWebSocketHandShake szBuffer nBufSize w =
     (if nBufSize \<ge> 8 \<and> take 8 szBuffer = chars ''GET /ws '' then do {
        r \<leftarrow> ParseWebSocketHandShakeRequest szBuffer;
        end_str \<leftarrow> mem_read (nBufSize - 4) 4 szBuffer;
        if end_str = [13, 10, 13, 10] then do {
          resp \<leftarrow> mem_write 0 (handshake_text (GenerateWebSocketKey (sec_websocket_key r)) @ [0]) (m_szHandShakeResponse w);
          Some (True, w\<lparr>m_szHandShakeResponse := resp, m_cbWSStatus := 1\<rparr>)
        }
        else Some (False, w)
      }
      else Some (False, w))"

section \<open>Frames as they are on the wire\<close>

text \<open>A frame with first byte \<open>b0\<close>, an optional masking key and a payload of less than 64 KB.\<close>

definition frame_length :: "nat \<Rightarrow> byte list" where
  "frame_length n = (if n < 126 then [] else be_word (of_nat n))"

definition frame_head :: "byte \<Rightarrow> bool \<Rightarrow> nat \<Rightarrow> byte list" where
  "frame_head b0 masked n = [b0, (if masked then 0x80 else 0) OR (if n < 126 then of_nat n else 126)] @ frame_length n"

definition frame :: "byte \<Rightarrow> byte list option \<Rightarrow> byte list \<Rightarrow> byte list" where
  "frame b0 key xs = frame_head b0 (key \<noteq> None) (length xs) @ (case key of None \<Rightarrow> xs | Some k \<Rightarrow> k @ unmask k xs)"

fun frame_ok :: "byte \<times> byte list option \<times> byte list \<Rightarrow> bool" where
  "frame_ok (b0, key, xs) \<longleftrightarrow> b0 AND 0x0f \<noteq> WS_CLOSING_FRAME \<and> length xs \<le> 65535 \<and> (case key of None \<Rightarrow> True | Some k \<Rightarrow> length k = 4)"

lemma length_unmask [simp]: "length (unmask k xs) = length xs"
  by (simp add: unmask_def)

lemma unmask_unmask: "unmask k (unmask k xs) = xs"
  by (rule nth_equalityI) (simp_all add: unmask_def xor.assoc)

lemma length_be_word [simp]: "length (be_word n) = 2"
  by (simp add: be_word_def)

lemma be_uint16_be_word: "n < 65536 \<Longrightarrow> be_uint16 (be_word (of_nat n)) = int n"
  by (simp add: be_uint16_def be_word_def le_word_def le_uint_le_bytes uint_word_of_int unsigned_of_nat take_bit_eq_mod)

definition len7 :: "nat \<Rightarrow> byte" where
  "len7 n = (if n < 126 then of_nat n else 126)"

definition head_size :: "nat \<Rightarrow> nat" where
  "head_size n = (if n < 126 then 2 else 4)"

lemma unat_len7: "unat (len7 n) = min n 126"
  by (simp add: len7_def unat_of_nat min_def)

lemma top_bit: "drop_bit 7 (b :: byte) = of_bool (bit b 7)"
proof (rule bit_word_eqI)
  fix n assume "n < LENGTH(8)"
  then show "bit (drop_bit 7 b) n = bit (of_bool (bit b 7) :: byte) n"
    by (cases n) (auto simp: bit_simps dest: bit_imp_le_length)
qed

lemma second_byte:
  "((if m then 0x80 else 0) OR len7 n) AND 0x7f = len7 n" "drop_bit 7 ((if m then 0x80 else 0) OR len7 n) = 1 \<longleftrightarrow> m"
proof -
  have t: "take_bit 7 (len7 n) = len7 n"
    by (simp add: take_bit_eq_mod word_unat_eq_iff unat_mod unat_len7)
  have m: "w AND 0x7f = take_bit 7 w" for w :: byte
    by (simp add: take_bit_eq_mask mask_eq_exp_minus_1)
  show "((if m then 0x80 else 0) OR len7 n) AND 0x7f = len7 n"
    unfolding m take_bit_or t by simp
  have "\<not> bit (len7 n) 7" using t by (metis bit_take_bit_iff less_irrefl)
  then have "bit ((if m then 0x80 else 0) OR len7 n) 7 \<longleftrightarrow> m" by (simp add: bit_or_iff)
  then show "drop_bit 7 ((if m then 0x80 else 0) OR len7 n) = 1 \<longleftrightarrow> m" by (simp only: top_bit of_bool_eq_1_iff)
qed

lemma length_frame_head [simp]: "length (frame_head b0 m n) = head_size n"
  by (simp add: frame_head_def frame_length_def head_size_def)

lemma length_frame: "frame_ok (b0, key, xs) \<Longrightarrow> length (frame b0 key xs) = head_size (length xs) + (if key = None then 0 else 4) + length xs"
  by (auto simp: frame_def split: option.splits)

text \<open>The head of a frame in the buffer is read back.\<close>

lemma frame_head_read:
  assumes "n \<le> 65535"
  shows "field 0 (frame_head b0 m n @ r) = Some b0"
    "field 1 (frame_head b0 m n @ r) = Some ((if m then 0x80 else 0) OR len7 n)"
    "payload_length (len7 n) (frame_head b0 m n @ r) = Some (int (head_size n), int n)"
proof -
  have h: "frame_head b0 m n = [b0, (if m then 0x80 else 0) OR len7 n] @ frame_length n"
    by (simp add: frame_head_def len7_def)
  show "field 0 (frame_head b0 m n @ r) = Some b0" "field 1 (frame_head b0 m n @ r) = Some ((if m then 0x80 else 0) OR len7 n)"
    unfolding h by (simp_all add: field_def mem_read_def)
  show "payload_length (len7 n) (frame_head b0 m n @ r) = Some (int (head_size n), int n)"
  proof (cases "n < 126")
    case True
    then have "len7 n \<noteq> 126" "len7 n \<noteq> 127" "uint (len7 n) = int n"
      using unat_len7 [of n] by (auto simp: word_unat_eq_iff uint_nat)
    then show ?thesis using True by (simp add: payload_length_def head_size_def)
  next
    case False
    then have "len7 n = 126" by (simp add: len7_def)
    then show ?thesis unfolding h using False assms be_uint16_be_word [of n]
      by (simp add: payload_length_def frame_length_def head_size_def mem_read_def)
  qed
qed

lemma payload_frame:
  assumes "frame_ok (b0, key, xs)"
  shows "payload (key \<noteq> None) (int (head_size (length xs))) (int (length xs)) (frame b0 key xs @ r) =
    Some (int (head_size (length xs) + (if key = None then 0 else 4)), xs)"
  using assms by (auto simp: payload_def frame_def mem_read_def unmask_unmask split: option.splits)

lemma signed_small: "0 \<le> k \<Longrightarrow> k < 2 ^ 31 \<Longrightarrow> signed_take_bit 31 k = (k :: int)"
  by (rule signed_take_bit_int_eq_self) auto

lemma unat_ucast_add2: "unat (ucast (b :: byte) + 2 :: uint32) = unat b + 2"
proof -
  have "unat b < 256" using unsigned_less [of b] by simp
  then show ?thesis by (simp add: unat_word_ariths unsigned_ucast_eq take_bit_eq_mod)
qed

lemma decode_step_pass:
  assumes "\<not> d_size d < 2" "field 0 (d_buf d) = Some x" "field 1 (d_buf d) = Some y" "x AND 0x0f \<noteq> WS_CLOSING_FRAME"
    and "\<not> d_size d < ucast (y AND 0x7f) + 2" "payload_length (y AND 0x7f) (d_buf d) = Some (off, len)"
    and "\<not> uint (d_size d) < len + off" "\<not> uint (d_capacity d) < len"
    and "payload (drop_bit 7 y = 1) off len (d_buf d) = Some (off', xs)"
    and "(if xs = [] then Some (d_out d) else if d_index d < 0 then None else mem_write (nat (d_index d)) xs (d_out d)) = Some out"
    and "off'' = signed_take_bit 31 (off' + len)" "n = d_size d - word_of_int off''"
    and "(if n > 0 then if off'' < 0 then None else mem_move 0 (nat off'') (unat n) (d_buf d) else Some (d_buf d)) = buf"
  shows "decode_step d = map_option (\<lambda>buf. Inr \<lparr>d_size = n, d_buf = buf, d_out = out, d_index = d_index d + len,
    d_capacity = d_capacity d - word_of_int len, d_recv = d_recv d + word_of_int len\<rparr>) buf"
proof -
  have "decode_step d = Option.bind (if n > 0 then if off'' < 0 then None else mem_move 0 (nat off'') (unat n) (d_buf d) else Some (d_buf d))
      (\<lambda>buf. Some (Inr \<lparr>d_size = n, d_buf = buf, d_out = out, d_index = d_index d + len,
        d_capacity = d_capacity d - word_of_int len, d_recv = d_recv d + word_of_int len\<rparr>))"
    using assms(1-10) unfolding assms(11,12) by (simp add: decode_step_def Let_def)
  then show ?thesis unfolding assms(13) by (simp add: map_conv_bind_option comp_def)
qed

lemma decode_step_frame:
  assumes ok: "frame_ok (b0, key, xs)"
    and size: "unat (d_size d) = length (frame b0 key xs) + length r"
    and buf: "d_buf d = frame b0 key xs @ r @ junk" "length (d_buf d) = WS_BUFFER"
    and out: "length xs \<le> unat (d_capacity d)" "d_index d = int i" "i + length xs \<le> length (d_out d)"
  shows "\<exists>junk'. length (r @ junk') = WS_BUFFER \<and> decode_step d = Some (Inr \<lparr>d_size = of_nat (length r), d_buf = r @ junk',
    d_out = take i (d_out d) @ xs @ drop (i + length xs) (d_out d), d_index = int (i + length xs),
    d_capacity = d_capacity d - of_nat (length xs), d_recv = d_recv d + of_nat (length xs)\<rparr>)"
proof -
  let ?h = "head_size (length xs)" and ?n = "length xs" and ?f = "frame b0 key xs"
  let ?off = "?h + (if key = None then 0 else 4)"
  have l: "length ?f = ?off + ?n" "?n \<le> 65535" using length_frame [OF ok] ok by auto
  have h2: "2 \<le> ?h" "?h \<le> 4" "min ?n 126 + 2 \<le> ?h + ?n" by (auto simp: head_size_def)
  obtain tl where f: "?f = frame_head b0 (key \<noteq> None) ?n @ tl" by (simp add: frame_def)
  note rd = frame_head_read [OF l(2), of b0 "key \<noteq> None" "tl @ r @ junk"]
  have step: "d_size d \<ge> 2" "d_size d \<ge> ucast (len7 ?n) + 2" "uint (d_size d) \<ge> int ?n + int ?h"
    using l h2 unfolding word_le_nat_alt unat_ucast_add2 unat_len7 uint_nat size by simp_all
  have cap: "uint (d_capacity d) \<ge> int ?n" using out(1) unfolding uint_nat by (simp only: of_nat_le_iff)
  have pay: "payload (key \<noteq> None) (int ?h) (int ?n) (d_buf d) = Some (int ?off, xs)"
    unfolding buf(1) by (rule payload_frame [OF ok])
  have off: "signed_take_bit 31 (int ?off + int ?n) = int (length ?f)"
    using l h2 by (intro trans [OF signed_small]) (auto split: if_splits)
  have "d_size d = of_nat (length ?f + length r)" using size by (metis of_nat_unat ucast_id)
  then have n: "d_size d - word_of_int (int (length ?f)) = of_nat (length r)" by simp
  have r: "unat (of_nat (length r) :: uint32) = length r"
    using arg_cong [OF buf(1), of length] buf(2) by (simp add: unat_of_nat WS_BUFFER_def)
  have mv: "mem_move 0 (length ?f) (length r) (d_buf d) = Some (r @ drop (length r) (d_buf d))"
    unfolding buf(1) by (simp add: mem_move_def mem_read_def mem_write_def)
  have w: "mem_write i xs (d_out d) = Some (take i (d_out d) @ xs @ drop (i + length xs) (d_out d))"
    using out(3) by (simp add: mem_write_def)
  have out': "(if xs = [] then Some (d_out d) else if d_index d < 0 then None else mem_write (nat (d_index d)) xs (d_out d)) =
      Some (take i (d_out d) @ xs @ drop (i + length xs) (d_out d))"
    using w out(2) by simp
  have buf': "(if (of_nat (length r) :: uint32) > 0 then if int (length ?f) < 0 then None
      else mem_move 0 (nat (int (length ?f))) (unat (of_nat (length r) :: uint32)) (d_buf d) else Some (d_buf d)) =
      Some (r @ (if r = [] then d_buf d else drop (length r) (d_buf d)))"
  proof (cases "r = []")
    case False
    then have "(of_nat (length r) :: uint32) > 0" using r by (simp add: word_less_nat_alt)
    then show ?thesis using False mv r by simp
  qed simp
  have b: "d_buf d = frame_head b0 (key \<noteq> None) ?n @ tl @ r @ junk" by (simp add: buf(1) f)
  obtain y where y: "field 1 (d_buf d) = Some y" "y AND 0x7f = len7 ?n" "drop_bit 7 y = 1 \<longleftrightarrow> key \<noteq> None"
    using rd(2) [folded b] second_byte [of "key \<noteq> None" ?n] by metis
  have "decode_step d = map_option (\<lambda>buf. Inr \<lparr>d_size = of_nat (length r), d_buf = buf,
      d_out = take i (d_out d) @ xs @ drop (i + length xs) (d_out d), d_index = d_index d + int ?n,
      d_capacity = d_capacity d - word_of_int (int ?n), d_recv = d_recv d + word_of_int (int ?n)\<rparr>)
      (Some (r @ (if r = [] then d_buf d else drop (length r) (d_buf d))))"
  proof (rule decode_step_pass [where x = b0 and y = y and off = "int ?h" and off' = "int ?off" and xs = xs])
    show "int (length ?f) = signed_take_bit 31 (int ?off + int ?n)" by (rule off [symmetric])
    show "of_nat (length r) = d_size d - word_of_int (int (length ?f))" by (rule n [symmetric])
  qed (use ok step cap rd(1,3) [folded b] y pay out' buf' in \<open>simp_all only: not_less frame_ok.simps simp_thms\<close>)
  moreover have "length (r @ (if r = [] then d_buf d else drop (length r) (d_buf d))) = WS_BUFFER"
  proof -
    have "length r \<le> length (d_buf d)" unfolding buf(1) by simp
    then show ?thesis using buf(2) by simp
  qed
  ultimately show ?thesis using out(2) by (intro exI [of _ "if r = [] then d_buf d else drop (length r) (d_buf d)"]) simp
qed

section \<open>Decoding a stream of frames\<close>

type_synonym ws_message = "byte \<times> byte list option \<times> byte list"

definition frames :: "ws_message list \<Rightarrow> byte list" where
  "frames fs = concat (map (\<lambda>(b0, key, xs). frame b0 key xs) fs)"

definition payloads :: "ws_message list \<Rightarrow> byte list" where
  "payloads fs = concat (map (\<lambda>(b0, key, xs). xs) fs)"

text \<open>What may be left at the end of the buffer: nothing, or a frame that has not arrived completely. Of a masked frame
  more bytes than the masking key has must be missing.\<close>

definition partial_frame :: "byte list \<Rightarrow> bool" where
  "partial_frame t \<longleftrightarrow> t = [] \<or> (\<exists>b0 key xs k. frame_ok (b0, key, xs) \<and> t = take k (frame b0 key xs) \<and>
     k + (if key = None then 0 else 4) < length (frame b0 key xs))"

lemma decode_step_size:
  assumes "field 0 (d_buf d) = Some x" "field 1 (d_buf d) = Some y" "x AND 0x0f \<noteq> WS_CLOSING_FRAME"
    and "d_size d < 2 \<or> d_size d < ucast (y AND 0x7f) + 2 \<or>
      (\<exists>off len. payload_length (y AND 0x7f) (d_buf d) = Some (off, len) \<and> uint (d_size d) < len + off)"
  shows "decode_step d = Some (Inl WS_MIDDLE_FRAME)"
  using assms by (auto simp: decode_step_def Let_def)

lemma decode_step_partial:
  assumes "partial_frame t" "d_buf d = t @ junk" "unat (d_size d) = length t"
  shows "decode_step d = Some (Inl WS_MIDDLE_FRAME)"
proof (cases "length t < 2")
  case True
  then have "d_size d < 2" using assms(3) by (simp add: word_less_nat_alt)
  then show ?thesis by (simp add: decode_step_def)
next
  case False
  then obtain b0 key xs k where ok: "frame_ok (b0, key, xs)" and t: "t = take k (frame b0 key xs)"
    and k: "k + (if key = None then 0 else 4) < length (frame b0 key xs)"
    using assms(1) by (auto simp: partial_frame_def)
  let ?n = "length xs"
  have n: "?n \<le> 65535" using ok by simp
  have kt: "length t = k" "2 \<le> k" using t k False by auto
  obtain tl where f: "frame b0 key xs = frame_head b0 (key \<noteq> None) ?n @ tl" by (simp add: frame_def)
  obtain u where u: "d_buf d = [b0, (if key \<noteq> None then 0x80 else 0) OR len7 ?n] @ u"
  proof -
    have "take k (frame b0 key xs) = [b0, (if key \<noteq> None then 0x80 else 0) OR len7 ?n] @ take (k - 2) (frame_length ?n @ tl)"
      using kt(2) by (simp add: f frame_head_def len7_def take_Cons' numeral_2_eq_2)
    then show thesis using that assms(2) t by simp
  qed
  obtain y where y: "field 1 (d_buf d) = Some y" "y AND 0x7f = len7 ?n"
    using second_byte(1) [of "key \<noteq> None" ?n] unfolding u by (simp add: field_def mem_read_def)
  have x: "field 0 (d_buf d) = Some b0" unfolding u by (simp add: field_def mem_read_def)
  have lt: "k < head_size ?n + ?n" using k length_frame [OF ok] by (simp split: if_splits)
  have "d_size d < ucast (len7 ?n) + 2 \<or> (\<exists>off len. payload_length (len7 ?n) (d_buf d) = Some (off, len) \<and> uint (d_size d) < len + off)"
  proof (cases "k < min ?n 126 + 2")
    case True
    then show ?thesis unfolding word_less_nat_alt unat_ucast_add2 unat_len7 assms(3) kt(1) ..
  next
    case False
    then have "head_size ?n \<le> k" "126 \<le> ?n" using lt by (auto simp: head_size_def min_def split: if_splits)
    then have "d_buf d = frame_head b0 (key \<noteq> None) ?n @ take (k - head_size ?n) tl @ junk"
      unfolding assms(2) t f by simp
    with frame_head_read(3) [OF n] have "payload_length (len7 ?n) (d_buf d) = Some (int (head_size ?n), int ?n)" by simp
    moreover have "uint (d_size d) < int ?n + int (head_size ?n)"
      unfolding uint_nat assms(3) kt(1) using lt by linarith
    ultimately show ?thesis by blast
  qed
  then show ?thesis using x y ok by (intro decode_step_size) (auto simp: y(2))
qed

lemma frames_Nil_iff: "frames fs = [] \<longleftrightarrow> fs = []"
  by (cases fs) (auto simp: frames_def frame_def frame_head_def)

lemma ws_decode_loop_frames:
  assumes "list_all frame_ok fs" "partial_frame t"
    and "unat (d_size d) = length (frames fs) + length t"
    and "d_buf d = frames fs @ t @ junk" "length (d_buf d) = WS_BUFFER"
    and "length (payloads fs) \<le> unat (d_capacity d)" "d_index d = int i" "i + length (payloads fs) \<le> length (d_out d)"
  shows "\<exists>junk'. length (t @ junk') = WS_BUFFER \<and>
    ws_decode_loop d = Some (if fs \<noteq> [] \<and> t = [] then WS_OPENING_FRAME else WS_MIDDLE_FRAME,
      \<lparr>d_size = of_nat (length t), d_buf = t @ junk',
       d_out = take i (d_out d) @ payloads fs @ drop (i + length (payloads fs)) (d_out d), d_index = int (i + length (payloads fs)),
       d_capacity = d_capacity d - of_nat (length (payloads fs)), d_recv = d_recv d + of_nat (length (payloads fs))\<rparr>)"
  using assms
proof (induction fs arbitrary: d junk i)
  case Nil
  then have "decode_step d = Some (Inl WS_MIDDLE_FRAME)" using decode_step_partial [of t d junk] by (simp add: frames_def)
  moreover have "d_size d = of_nat (length t)" using Nil.prems(3) by (simp add: frames_def) (metis of_nat_unat ucast_id)
  ultimately show ?case using Nil.prems by (subst ws_decode_loop.simps) (auto simp: frames_def payloads_def)
next
  case (Cons m fs)
  obtain b0 key xs where m: "m = (b0, key, xs)" by (cases m)
  let ?r = "frames fs @ t" and ?n = "length xs"
  have fr: "frames ((b0, key, xs) # fs) = frame b0 key xs @ frames fs" "payloads ((b0, key, xs) # fs) = xs @ payloads fs"
    by (simp_all add: frames_def payloads_def)
  let ?d = "\<lambda>j. \<lparr>d_size = of_nat (length ?r), d_buf = ?r @ j, d_out = take i (d_out d) @ xs @ drop (i + ?n) (d_out d),
    d_index = int (i + ?n), d_capacity = d_capacity d - of_nat ?n, d_recv = d_recv d + of_nat ?n\<rparr>"
  obtain j where j: "length (?r @ j) = WS_BUFFER" "decode_step d = Some (Inr (?d j))"
    using decode_step_frame [of b0 key xs d ?r junk i] Cons.prems by (auto simp: fr m)
  have r: "unat (of_nat (length ?r) :: uint32) = length ?r"
    using j(1) by (simp only: unat_of_nat) (simp add: WS_BUFFER_def)
  have nx: "unat (of_nat ?n :: uint32) = ?n"
    using Cons.prems(1) by (simp add: unat_of_nat m)
  have cap: "unat (d_capacity d - of_nat ?n) = unat (d_capacity d) - ?n"
    using Cons.prems(6) nx by (simp add: m fr unat_sub word_le_nat_alt)
  show ?case
  proof (cases "?r = []")
    case True
    then have "fs = []" "t = []" by (simp_all add: frames_Nil_iff)
    then show ?thesis using j by (subst ws_decode_loop.simps) (auto simp: m payloads_def frames_def)
  next
    case False
    then have pos: "0 < (of_nat (length ?r) :: uint32)" using r by (simp add: word_less_nat_alt)
    then have "ws_decode_loop d = ws_decode_loop (?d j)" using j(2) by (subst ws_decode_loop.simps) simp
    moreover have "\<exists>junk'. length (t @ junk') = WS_BUFFER \<and>
      ws_decode_loop (?d j) = Some (if fs \<noteq> [] \<and> t = [] then WS_OPENING_FRAME else WS_MIDDLE_FRAME,
      \<lparr>d_size = of_nat (length t), d_buf = t @ junk',
       d_out = take (i + ?n) (d_out (?d j)) @ payloads fs @ drop (i + ?n + length (payloads fs)) (d_out (?d j)), d_index = int (i + ?n + length (payloads fs)),
       d_capacity = d_capacity (?d j) - of_nat (length (payloads fs)), d_recv = d_recv (?d j) + of_nat (length (payloads fs))\<rparr>)"
      by (rule Cons.IH) (use Cons.prems j(1) r cap in \<open>simp_all add: fr m\<close>)
    ultimately show ?thesis using Cons.prems(8) False by (auto simp: m fr frames_Nil_iff add.assoc add.commute add.left_commute)
  qed
qed

lemma ws_decode_frames_aux:
  assumes "list_all frame_ok fs" "partial_frame t" "ws_dwRecvSize w = of_nat (length (frames fs @ t))"
    and "ws_cbRecvBuf w = frames fs @ t @ junk" "length (ws_cbRecvBuf w) = WS_BUFFER"
    and "length (payloads fs) \<le> unat cap" "length (payloads fs) \<le> length out"
  shows "\<exists>ret w'. DecodeFrame out cap recv w = Some (ret, payloads fs @ drop (length (payloads fs)) out,
      recv + of_nat (length (payloads fs)), w') \<and>
    (payloads fs \<noteq> [] \<longrightarrow> ret = WS_OPENING_FRAME) \<and>
    ws_dwRecvSize w' = of_nat (length t) \<and> take (length t) (ws_cbRecvBuf w') = t \<and> length (ws_cbRecvBuf w') = WS_BUFFER"
proof -
  have l: "length (frames fs @ t) \<le> WS_BUFFER" using arg_cong [OF assms(4), of length] assms(5) by simp
  let ?d = "\<lparr>d_size = ws_dwRecvSize w, d_buf = ws_cbRecvBuf w, d_out = out, d_index = 0, d_capacity = cap, d_recv = recv\<rparr>"
  have s: "unat (ws_dwRecvSize w) = length (frames fs) + length t"
    unfolding assms(3) unat_of_nat using l by (simp add: WS_BUFFER_def)
  obtain j where j: "length (t @ j) = WS_BUFFER" "ws_decode_loop ?d = Some (if fs \<noteq> [] \<and> t = [] then WS_OPENING_FRAME else WS_MIDDLE_FRAME,
      \<lparr>d_size = of_nat (length t), d_buf = t @ j, d_out = payloads fs @ drop (length (payloads fs)) out, d_index = int (length (payloads fs)),
       d_capacity = cap - of_nat (length (payloads fs)), d_recv = recv + of_nat (length (payloads fs))\<rparr>)"
    using ws_decode_loop_frames [of fs t ?d junk 0] assms s by auto
  have "unat cap < 2 ^ 32" using unsigned_less [of cap] by simp
  then have "payloads fs \<noteq> [] \<Longrightarrow> (of_nat (length (payloads fs)) :: uint32) \<noteq> 0"
    using assms(6) by (simp add: word_unat_eq_iff unat_of_nat)
  then show ?thesis using j by (auto simp: DecodeFrame_def)
qed

text \<open>\<open>DecodeFrame\<close> on a buffer that holds complete frames, masked or not, and possibly the beginning of another one
  appends exactly the payloads of the complete frames to the output, in order, and keeps the beginning for the next call.\<close>

theorem ws_decode_frames:
  assumes "list_all frame_ok fs" "partial_frame t" "ws_dwRecvSize w = of_nat (length (frames fs @ t))"
    and "ws_cbRecvBuf w = frames fs @ t @ junk" "length (ws_cbRecvBuf w) = WS_BUFFER"
    and "length (payloads fs) \<le> unat cap" "length (payloads fs) \<le> length out"
  shows "\<exists>ret w'. DecodeFrame out cap recv w = Some (ret, payloads fs @ drop (length (payloads fs)) out,
      recv + of_nat (length (payloads fs)), w') \<and>
    (payloads fs \<noteq> [] \<longrightarrow> ret = WS_OPENING_FRAME) \<and>
    ws_dwRecvSize w' = of_nat (length t) \<and> take (length t) (ws_cbRecvBuf w') = t \<and> length (ws_cbRecvBuf w') = WS_BUFFER"
  using assms by (rule ws_decode_frames_aux)

text \<open>Two frames, the first one masked, and the first byte of a third.\<close>

theorem ws_decode_frames_witness:
  "\<exists>ret w'. DecodeFrame (replicate 10 0) 10 5
      \<lparr>m_cbWSStatus = 1, m_szHandShakeResponse = [], ws_dwRecvSize = 12,
       ws_cbRecvBuf = frames [(0x82, Some [1, 2, 3, 4], [7, 8, 9]), (0x82, None, [])] @ [0x82] @ replicate 81908 0\<rparr> =
    Some (ret, [7, 8, 9] @ drop 3 (replicate 10 0), 8, w')"
proof -
  let ?fs = "[(0x82, Some [1, 2, 3, 4], [7, 8, 9]), (0x82, None, [])] :: ws_message list"
  have fok: "list_all frame_ok ?fs" by (simp add: WS_CLOSING_FRAME_def)
  have "frame_ok (0x82, None, [1]) \<and> [0x82] = take 1 (frame 0x82 None [1]) \<and>
      1 + (if (None :: byte list option) = None then 0 else 4) < length (frame 0x82 None [1])"
    by (simp add: WS_CLOSING_FRAME_def frame_def frame_head_def)
  then have p: "partial_frame [0x82]" unfolding partial_frame_def by blast
  have l: "length (frames ?fs) = 11" by (simp add: frames_def frame_def head_size_def)
  have "payloads ?fs = [7, 8, 9]" by (simp add: payloads_def)
  then show ?thesis
    using ws_decode_frames [OF fok p, of "\<lparr>m_cbWSStatus = 1, m_szHandShakeResponse = [], ws_dwRecvSize = 12,
       ws_cbRecvBuf = frames ?fs @ [0x82] @ replicate 81908 0\<rparr>" "replicate 81908 0" 10 "replicate 10 0" 5] l
    by (auto simp: WS_BUFFER_def)
qed

section \<open>Encoding\<close>

text \<open>\<open>EncodeFrame\<close> writes the unmasked binary frame of the message and its size for every message that it
  accepts, and \<open>DecodeFrame\<close> on a buffer that received the frame restores the message.\<close>

theorem ws_encode_decode:
  assumes "length xs \<le> 32767" "xs \<noteq> []" "length out = unat cap" "length xs + 4 \<le> unat cap"
    and "n = of_nat (length xs)"
  shows "\<exists>e m. EncodeFrame xs n out cap sz = Some (WS_EMPTY_FRAME, e, m) \<and> length e = length out \<and>
    (\<forall>w. ws_dwRecvSize w = m \<and> length (ws_cbRecvBuf w) = WS_BUFFER \<and> take (unat m) (ws_cbRecvBuf w) = take (unat m) e \<longrightarrow>
      (\<exists>w'. DecodeFrame (replicate (length xs) 0) n 0 w = Some (WS_OPENING_FRAME, xs, n, w') \<and> ws_dwRecvSize w' = 0))"
proof -
  let ?f = "frame 0x82 None xs" and ?n = "length xs"
  have nn: "unat n = ?n" using assms(1,5) by (simp add: unat_of_nat)
  have ok: "frame_ok (0x82, None, xs)" using assms(1) by (simp add: WS_CLOSING_FRAME_def)
  have l: "length ?f = head_size ?n + ?n" using length_frame [OF ok] by simp
  have hs: "head_size ?n \<le> 4" by (simp add: head_size_def)
  have lf: "length ?f \<le> length out" using l hs assms(3,4) by simp
  obtain o0 o1 o2 o3 os where out: "out = [o0, o1, o2, o3] @ os"
  proof -
    have "out = [out ! 0, out ! 1, out ! 2, out ! 3] @ drop 4 out"
      using assms(3,4) by (intro nth_equalityI) (auto simp: nth_append less_Suc_eq numeral_eq_Suc nth_Cons split: nat.splits)
    then show thesis by (rule that)
  qed
  have n4: "\<not> n > 32767" "\<not> cap < n + 4"
    using nn assms(1,4) by (simp_all add: word_less_nat_alt unat_word_ariths)
  have e: "EncodeFrame xs n out cap sz = Some (WS_EMPTY_FRAME, ?f @ drop (length ?f) out, of_nat (length ?f))"
  proof (cases "?n < 126")
    case True
    have u: "(ucast n :: byte) = of_nat ?n" using True nn by (simp add: word_unat_eq_iff unsigned_ucast_eq take_bit_eq_mod unat_of_nat)
    have "n < 126" using True nn by (simp add: word_less_nat_alt)
    then show ?thesis using n4 nn True lf l assms(5)
      by (simp add: EncodeFrame_def out mem_write_def mem_read_def u u [unfolded assms(5)] frame_def frame_head_def frame_length_def head_size_def WS_BINARY_FRAME_def)
  next
    case False
    have u: "(ucast n :: uint16) = of_nat ?n" using assms(1) nn by (simp add: word_unat_eq_iff unsigned_ucast_eq take_bit_eq_mod unat_of_nat)
    obtain x y where xy: "be_word (of_nat ?n) = [x, y]" by (simp add: be_word_def le_word_def numeral_2_eq_2)
    have "drop (4 + ?n) (a # b # c # d # zs) = drop ?n zs" for a b c d and zs :: "byte list" by (simp add: numeral_eq_Suc)
    moreover have "\<not> n < 126" using False nn by (simp add: word_less_nat_alt)
    ultimately show ?thesis using n4 nn False lf l assms(5)
      by (simp add: EncodeFrame_def xy out mem_write_def mem_read_def u u [unfolded assms(5)] frame_def frame_head_def frame_length_def head_size_def WS_BINARY_FRAME_def)
  qed
  have m: "unat (of_nat (length ?f) :: uint32) = length ?f" using l hs assms(1) by (simp only: unat_of_nat) simp
  have p: "partial_frame []" by (simp add: partial_frame_def)
  have "\<exists>w'. DecodeFrame (replicate ?n 0) n 0 w = Some (WS_OPENING_FRAME, xs, n, w') \<and> ws_dwRecvSize w' = 0"
    if w: "ws_dwRecvSize w = of_nat (length ?f)" "length (ws_cbRecvBuf w) = WS_BUFFER" "take (length ?f) (ws_cbRecvBuf w) = ?f" for w
  proof -
    have "ws_cbRecvBuf w = frames [(0x82, None, xs)] @ [] @ drop (length ?f) (ws_cbRecvBuf w)"
      using append_take_drop_id [of "length ?f" "ws_cbRecvBuf w"] w(3) by (simp add: frames_def)
    from ws_decode_frames_aux [OF _ p _ this w(2), of n "replicate ?n 0" 0] show ?thesis
      using ok w(1) nn assms(2,5) by (auto simp: frames_def payloads_def)
  qed
  then show ?thesis using e m lf by auto
qed

text \<open>A message of three bytes.\<close>

theorem ws_encode_decode_witness:
  "\<exists>e m. EncodeFrame [1, 2, 3] 3 (replicate 16 0) 16 0 = Some (WS_EMPTY_FRAME, e, m)"
  using ws_encode_decode [of "[1, 2, 3]" "replicate 16 0" 16 3 0] by auto

section \<open>A masked frame that lacks its last bytes\<close>

text \<open>The completeness check forgets the four bytes of the masking key: when one to four bytes of a masked frame have not arrived
  yet, the remaining size wraps around and the block move leaves the buffer.\<close>

theorem ws_masked_split_crashes:
  assumes "frame_ok (b0, Some key, xs)" "1 \<le> j" "j \<le> 4" "length (frame b0 (Some key) xs) \<le> WS_BUFFER"
    and "ws_cbRecvBuf w = take (length (frame b0 (Some key) xs) - j) (frame b0 (Some key) xs) @ junk" "length (ws_cbRecvBuf w) = WS_BUFFER"
    and "ws_dwRecvSize w = of_nat (length (frame b0 (Some key) xs) - j)"
    and "length xs \<le> unat cap" "length xs \<le> length out"
  shows "DecodeFrame out cap recv w = None"
proof -
  let ?f = "frame b0 (Some key) xs" and ?n = "length xs" and ?h = "head_size (length xs)"
  let ?k = "length ?f - j"
  let ?d = "\<lparr>d_size = ws_dwRecvSize w, d_buf = ws_cbRecvBuf w, d_out = out, d_index = 0, d_capacity = cap, d_recv = recv\<rparr>"
  have l: "length ?f = ?h + 4 + ?n" "?n \<le> 65535" using length_frame [OF assms(1)] assms(1) by auto
  have h2: "2 \<le> ?h" "?h \<le> 4" "min ?n 126 + 2 \<le> ?h + ?n" by (auto simp: head_size_def)
  have k: "?h + ?n \<le> ?k" "?k < WS_BUFFER" using assms(2-4) l h2 by simp_all
  have s: "unat (ws_dwRecvSize w) = ?k" unfolding assms(7) unat_of_nat using k(2) by (simp add: WS_BUFFER_def)
  obtain tl where f: "?f = frame_head b0 True ?n @ tl" by (simp add: frame_def)
  have b: "d_buf ?d = frame_head b0 True ?n @ take (?k - ?h) tl @ junk"
    using k(1) by (simp add: assms(5) f)
  note rd = frame_head_read [OF l(2), of b0 True "take (?k - ?h) tl @ junk", folded b]
  obtain y where y: "field 1 (d_buf ?d) = Some y" "y AND 0x7f = len7 ?n" "drop_bit 7 y = 1"
    using rd(2) second_byte [of True ?n] by metis
  have ge: "\<not> d_size ?d < 2" "\<not> d_size ?d < ucast (len7 ?n) + 2" "\<not> uint (d_size ?d) < int ?n + int ?h"
    using k(1) h2 unfolding not_less word_le_nat_alt unat_ucast_add2 unat_len7 uint_nat ws_decoder.simps s by simp_all
  have cap: "\<not> uint (d_capacity ?d) < int ?n"
    using assms(8) unfolding not_less uint_nat ws_decoder.simps by (simp only: of_nat_le_iff)
  obtain zs where pay: "payload True (int ?h) (int ?n) (d_buf ?d) = Some (int ?h + 4, zs)" "length zs = ?n"
    using assms(4,6) l by (simp add: payload_def mem_read_def)
  have "\<exists>o'. (if zs = [] then Some (d_out ?d) else if d_index ?d < 0 then None else mem_write (nat (d_index ?d)) zs (d_out ?d)) = Some o'"
    using assms(9) pay(2) by (simp add: mem_write_def)
  then obtain o' where o': "(if zs = [] then Some (d_out ?d) else if d_index ?d < 0 then None else mem_write (nat (d_index ?d)) zs (d_out ?d)) = Some o'" ..
  have off: "int (length ?f) = signed_take_bit 31 (int ?h + 4 + int ?n)"
    using l h2 by (simp add: signed_small)
  have n: "- of_nat j = d_size ?d - word_of_int (int (length ?f))"
    using assms(2-4) l by (simp add: assms(7) of_nat_diff)
  have neg: "unat (- of_nat j :: uint32) = 2 ^ 32 - j"
  proof -
    have "(of_nat (2 ^ 32 - j) :: uint32) = of_nat (2 ^ 32) - of_nat j" using assms(3) by (intro of_nat_diff) simp
    then have "(- of_nat j :: uint32) = of_nat (2 ^ 32 - j)" by simp
    then show ?thesis using assms(2) by (simp only: unat_of_nat) simp
  qed
  have mv: "(if (- of_nat j :: uint32) > 0 then if int (length ?f) < 0 then None
      else mem_move 0 (nat (int (length ?f))) (unat (- of_nat j :: uint32)) (d_buf ?d) else Some (d_buf ?d)) = None"
  proof -
    have "\<not> length ?f + (2 ^ 32 - j) \<le> length (d_buf ?d)" using assms(3,6) by (simp add: WS_BUFFER_def)
    then show ?thesis using assms(2,3) by (simp only: neg word_less_nat_alt mem_move_def mem_read_def nat_int) simp
  qed
  have "decode_step ?d = map_option (\<lambda>buf. Inr \<lparr>d_size = - of_nat j, d_buf = buf, d_out = o', d_index = d_index ?d + int ?n,
      d_capacity = d_capacity ?d - word_of_int (int ?n), d_recv = d_recv ?d + word_of_int (int ?n)\<rparr>) None"
    by (rule decode_step_pass [where x = b0 and y = y and off = "int ?h" and off' = "int ?h + 4" and xs = zs])
      (use assms(1) ge cap rd(1,3) y pay(1) o' off n mv in \<open>simp_all only: frame_ok.simps simp_thms\<close>)
  then show ?thesis unfolding DecodeFrame_def by (subst ws_decode_loop.simps) simp
qed


text \<open>A frame with five bytes of payload of which the last byte is missing.\<close>

theorem ws_masked_split_crashes_witness:
  "DecodeFrame (replicate 16 0) 16 0
     \<lparr>m_cbWSStatus = 1, m_szHandShakeResponse = [], ws_dwRecvSize = 10,
      ws_cbRecvBuf = take 10 (frame 0x82 (Some [1, 2, 3, 4]) [5, 6, 7, 8, 9]) @ replicate 81910 0\<rparr> = None"
proof -
  have ok: "frame_ok (0x82, Some [1, 2, 3, 4], [5, 6, 7, 8, 9])" by (simp add: WS_CLOSING_FRAME_def)
  have "length (frame 0x82 (Some [1, 2, 3, 4]) [5, 6, 7, 8, 9]) = 11" by (simp add: frame_def head_size_def)
  then show ?thesis
    using ws_masked_split_crashes [OF ok, of 1 "\<lparr>m_cbWSStatus = 1, m_szHandShakeResponse = [], ws_dwRecvSize = 10,
      ws_cbRecvBuf = take 10 (frame 0x82 (Some [1, 2, 3, 4]) [5, 6, 7, 8, 9]) @ replicate 81910 0\<rparr>" "replicate 81910 0" 16 "replicate 16 0" 0]
    by (simp add: WS_BUFFER_def)
qed

section \<open>The handshake\<close>

lemma length_base64_encode: "length (base64_encode xs) = 4 * ((length xs + 2) div 3)"
proof -
  have "(5 + n) div 3 = Suc (Suc (Suc n) div 3)" for n :: nat by presburger
  then show ?thesis by (induction xs rule: base64_encode.induct) (simp_all add: split3_def)
qed

lemma length_sha1_spec: "length (sha1_spec xs) = 5"
proof -
  have "length (fst (absorb sha1_compress h xs)) = 5" if "length h = 5" for h xs
    using that
  proof (induction sha1_compress h xs rule: absorb.induct)
    case (1 h xs)
    then show ?case by (subst absorb.simps) (simp add: length_sha1_compress)
  qed
  then show ?thesis by (simp add: sha1_spec_def hash_blocks_def sha1_H0_def)
qed

text \<open>A request: lines without line ends or terminators, each followed by a line end, and an empty line.\<close>

definition crlf :: "byte list" where
  "crlf = [13, 10]"

definition request :: "byte list list \<Rightarrow> byte list" where
  "request ls = concat (map (\<lambda>l. l @ crlf) ls) @ crlf"

definition line_ok :: "byte list \<Rightarrow> bool" where
  "line_ok l \<longleftrightarrow> l \<noteq> [] \<and> 13 \<notin> set l \<and> 10 \<notin> set l \<and> 0 \<notin> set l"

definition header_name :: "byte list \<Rightarrow> byte list" where
  "header_name l = takeWhile (\<lambda>c. c \<noteq> 58) l"

lemma strtok_crlf: "strtok_all (crlf @ xs) = strtok_all xs"
  by (subst (1 2) strtok_all.simps) (simp add: crlf_def is_delim_def)

lemma strtok_line:
  assumes "line_ok l"
  shows "strtok_all (l @ crlf @ xs) = l # strtok_all xs"
proof -
  obtain c cs where l: "l = c # cs" using assms by (cases l) (auto simp: line_ok_def)
  have nd: "\<forall>x\<in>set l. \<not> is_delim x" using assms by (auto simp: line_ok_def is_delim_def)
  have "takeWhile (\<lambda>c. \<not> is_delim c) (cs @ crlf @ xs) = cs" "dropWhile (\<lambda>c. \<not> is_delim c) (cs @ crlf @ xs) = crlf @ xs"
    using nd l by (simp_all add: takeWhile_append dropWhile_append crlf_def is_delim_def)
  then have "strtok_all (l @ crlf @ xs) = l # strtok_all (crlf @ xs)"
    using nd l by (subst strtok_all.simps) simp
  then show ?thesis by (simp only: strtok_crlf)
qed

lemma strtok_request: "list_all line_ok ls \<Longrightarrow> strtok_all (request ls) = ls"
proof (induction ls)
  case Nil
  then show ?case by (simp add: request_def crlf_def strtok_all.simps is_delim_def)
next
  case (Cons l ls)
  then show ?case using strtok_line [of l "request ls"] by (simp add: request_def)
qed

lemma cstr_append: "0 \<notin> set xs \<Longrightarrow> cstr (xs @ 0 # ys) = Some xs"
  by (induction xs) auto

lemma request_no_nul: "list_all line_ok ls \<Longrightarrow> 0 \<notin> set (request ls)"
  by (auto simp: request_def crlf_def line_ok_def list_all_iff)

lemma header_line_other: "header_name p \<noteq> chars ''Sec-WebSocket-Key'' \<Longrightarrow> sec_websocket_key (header_line p r) = sec_websocket_key r"
  by (simp add: header_line_def header_name_def Let_def)

lemma header_lines_other:
  "list_all (\<lambda>p. header_name p \<noteq> chars ''Sec-WebSocket-Key'') ps \<Longrightarrow>
    sec_websocket_key (foldl (\<lambda>r p. header_line p r) r ps) = sec_websocket_key r"
  by (induction ps arbitrary: r) (simp_all add: header_line_other)

lemma header_line_key:
  assumes "key = [] \<or> hd key \<noteq> 32"
  shows "sec_websocket_key (header_line (chars ''Sec-WebSocket-Key'' @ [58, 32] @ key) r) = key"
proof -
  have n: "takeWhile (\<lambda>c. c \<noteq> 58) (chars ''Sec-WebSocket-Key'' @ [58, 32] @ key) = chars ''Sec-WebSocket-Key''"
    "dropWhile (\<lambda>c. c \<noteq> 58) (chars ''Sec-WebSocket-Key'' @ [58, 32] @ key) = [58, 32] @ key"
    by (simp_all add: chars_def of_char_def)
  have "dropWhile (\<lambda>c. c = 32) key = key" using assms by (cases key) auto
  then show ?thesis by (simp add: header_line_def n [simplified] chars_def)
qed

text \<open>The answer to a key, as RFC 6455 defines it: the SHA-1 digest of the key and the fixed identifier, in Base64.\<close>

definition accept_key :: "byte list \<Rightarrow> byte list" where
  "accept_key key = base64_encode (concat (map (\<lambda>w. rev (le_word w)) (sha1_spec (key @ chars ''258EAFA5-E914-47DA-95CA-C5AB0DC85B11''))))"

lemma GenerateWebSocketKey_spec: "GenerateWebSocketKey key = accept_key key"
  using sha1.digest [of "[key @ chars ''258EAFA5-E914-47DA-95CA-C5AB0DC85B11'']"]
  by (simp add: GenerateWebSocketKey_def accept_key_def sha1_spec_def)

lemma length_accept_key: "length (accept_key key) = 28"
proof -
  have "length (concat (map (\<lambda>w. rev (le_word w)) (ws :: uint32 list))) = 4 * length ws" for ws by (induction ws) simp_all
  then show ?thesis by (simp add: accept_key_def length_base64_encode length_sha1_spec)
qed

lemma base64_encode_chars: "set (base64_encode xs) \<subseteq> insert 61 (set base64_chars)"
proof -
  have "char_at i \<in> set base64_chars" if "unat i < 64" for i
    using that base64_chars_props(2) by (simp add: char_at_def)
  then have c: "set (map char_at (split3 a b c)) \<subseteq> set base64_chars" for a b c using split3_below by fastforce
  then have "set (take k (map char_at (split3 a b c))) \<subseteq> set base64_chars" for k a b c
    by (meson order_trans set_take_subset)
  with c show ?thesis
    by (induction xs rule: base64_encode.induct) (auto simp only: base64_encode.simps take_map set_append list.set, blast+)
qed

text \<open>A client that asks for \<open>/ws\<close> in a request of less than 4096 bytes, whose last
  \<open>Sec-WebSocket-Key\<close> header carries \<open>key\<close>, is accepted, and the answer carries the accept key of RFC 6455 for \<open>key\<close>
  and fits the response buffer.\<close>

theorem ws_handshake_accepts:
  assumes "list_all line_ok (l0 # ls)" "take 8 (l0 @ crlf) = chars ''GET /ws ''" "length (request (l0 # ls)) < 4096"
    and "ls = pre @ [chars ''Sec-WebSocket-Key'' @ [58, 32] @ key] @ aft" "key = [] \<or> hd key \<noteq> 32"
    and "list_all (\<lambda>p. header_name p \<noteq> chars ''Sec-WebSocket-Key'') aft"
    and "length (m_szHandShakeResponse w) = 1024"
  shows "\<exists>w'. ParseWebSocketHandShake (request (l0 # ls) @ [0] @ rest) (length (request (l0 # ls))) w = Some (True, w') \<and>
    cstr (m_szHandShakeResponse w') = Some (handshake_text (accept_key key)) \<and> ws_dwRecvSize w' = ws_dwRecvSize w \<and> ws_cbRecvBuf w' = ws_cbRecvBuf w"
proof -
  let ?r = "request (l0 # ls)"
  have nz: "0 \<notin> set ?r" by (rule request_no_nul [OF assms(1)])
  have tmp: "mem_write 0 ?r (replicate 4096 0) = Some (?r @ 0 # replicate (4095 - length ?r) 0)"
    using assms(3) by (simp add: mem_write_def flip: replicate_Suc)
  have req: "ParseWebSocketHandShakeRequest (?r @ [0] @ rest) = Some (foldl (\<lambda>r p. header_line p r) (empty_req\<lparr>req := l0\<rparr>) ls)"
    using cstr_append [OF nz] tmp strtok_request [OF assms(1)] by (simp add: ParseWebSocketHandShakeRequest_def)
  have key: "sec_websocket_key (foldl (\<lambda>r p. header_line p r) (empty_req\<lparr>req := l0\<rparr>) ls) = key"
    unfolding assms(4) using assms(5,6) by (simp add: header_lines_other) (simp add: header_line_key [simplified])
  have rq: "?r = (l0 @ crlf) @ concat (map (\<lambda>l. l @ crlf) ls) @ crlf" by (simp add: request_def)
  have "length (take 8 (l0 @ crlf)) = 8" unfolding assms(2) by (simp add: chars_def)
  then have l8: "8 \<le> length (l0 @ crlf)" by simp
  then have t8: "take 8 (?r @ [0] @ rest) = chars ''GET /ws ''" using assms(2) unfolding rq by simp
  have "l0 # ls \<noteq> []" by simp
  then obtain us u where "l0 # ls = us @ [u]" by (metis rev_exhaust)
  then have pre: "?r = (concat (map (\<lambda>l. l @ crlf) us) @ u) @ [13, 10, 13, 10]" by (simp add: request_def crlf_def)
  have fits: "length (handshake_text (accept_key key)) < 1024"
    by (simp add: handshake_text_def chars_def length_accept_key)
  have "0 \<notin> set base64_chars" by (auto simp: base64_chars_def word_unat_eq_iff unat_of_nat)
  then have "0 \<notin> set (accept_key key)" using base64_encode_chars unfolding accept_key_def by fastforce
  then have nzt: "0 \<notin> set (handshake_text (accept_key key))"
    by (simp add: handshake_text_def chars_def of_char_def)
  have rd: "mem_read (length ?r - 4) 4 (?r @ [0] @ rest) = Some [13, 10, 13, 10]"
    unfolding pre by (simp add: mem_read_def)
  have wr: "mem_write 0 (handshake_text (accept_key key) @ [0]) (m_szHandShakeResponse w) =
      Some (handshake_text (accept_key key) @ 0 # drop (Suc (length (handshake_text (accept_key key)))) (m_szHandShakeResponse w))"
    using fits assms(7) by (simp add: mem_write_def)
  have "8 \<le> length ?r" using l8 unfolding rq by simp
  then show ?thesis using t8 req rd wr key cstr_append [OF nzt]
    by (simp add: ParseWebSocketHandShake_def GenerateWebSocketKey_spec)
qed

text \<open>The request of the example of RFC 6455.\<close>

theorem ws_handshake_accepts_witness:
  "\<exists>w'. ParseWebSocketHandShake (request [chars ''GET /ws HTTP/1.1'', chars ''Sec-WebSocket-Key: dGhlIHNhbXBsZSBub25jZQ==''] @ [0] @ [])
      (length (request [chars ''GET /ws HTTP/1.1'', chars ''Sec-WebSocket-Key: dGhlIHNhbXBsZSBub25jZQ=='']))
      ws_clear = Some (True, w') \<and>
    cstr (m_szHandShakeResponse w') = Some (handshake_text (accept_key (chars ''dGhlIHNhbXBsZSBub25jZQ==''))) \<and>
    ws_dwRecvSize w' = ws_dwRecvSize ws_clear \<and> ws_cbRecvBuf w' = ws_cbRecvBuf ws_clear"
proof (rule ws_handshake_accepts [where pre = "[]" and aft = "[]"])
  show "[chars ''Sec-WebSocket-Key: dGhlIHNhbXBsZSBub25jZQ==''] = [] @ [chars ''Sec-WebSocket-Key'' @ [58, 32] @ chars ''dGhlIHNhbXBsZSBub25jZQ==''] @ []"
    by (simp add: chars_def of_char_def)
qed (simp_all add: line_ok_def chars_def of_char_def crlf_def request_def ws_clear_def)

text \<open>A request of 4096 bytes or more overruns the array it is copied to.\<close>

lemma ws_handshake_overflow:
  assumes "0 \<notin> set r" "take 8 r = chars ''GET /ws ''" "4096 \<le> length r"
  shows "ParseWebSocketHandShake (r @ [0] @ rest) (length r) w = None"
proof -
  have "ParseWebSocketHandShakeRequest (r @ [0] @ rest) = None"
  proof (cases "length r = 4096")
    case True
    have "cstr r = None" using assms(1) by (induction r) auto
    then show ?thesis using True cstr_append [OF assms(1)] by (simp add: ParseWebSocketHandShakeRequest_def mem_write_def)
  next
    case False
    then show ?thesis using assms(3) cstr_append [OF assms(1)] by (simp add: ParseWebSocketHandShakeRequest_def mem_write_def)
  qed
  then show ?thesis using assms(2,3) by (simp add: ParseWebSocketHandShake_def)
qed

end
