(* ===== verification/Tcp_Item.thy ===== *)
theory Tcp_Item
  imports Packet_Stream Websocket
begin

text \<open>
  One connection of the TCP engine, \<open>CServerSocketItem\<close> in \<open>TCPNetworkEngine.cpp\<close>: sending through a list of overlapped
  structures of which the first is in flight, receiving into a buffer from which complete packets are taken, and closing, which
  is complete when nothing is in flight. The results of the socket calls, the clock and the
  contents of fresh memory are parameters. What the item does to the socket is recorded in \<open>io\<close>, the
  calls of its sink in \<open>calls\<close>. An access outside a buffer is \<^const>\<open>None\<close>.
\<close>

section \<open>The state\<close>

datatype socket_type = eSocketType_TCP | eSocketType_WebSocket

record overlapped_send =
  ol_len :: uint32
  ol_cbBuffer :: "byte list"

text \<open>What the item asks of the socket: a transmission, a reception, the handshake response, closing.\<close>

datatype io_action = WSASend "byte list" | WSARecv | SendResponse "byte list" | CloseHandle

text \<open>The calls of \<open>IServerSocketItemSink\<close>, with what they read from the item.\<close>

datatype item_call =
    OnSocketAcceptEvent uint32 uint32
  | OnSocketReadEvent uint32 TCP_Command "byte list"
  | OnSocketCloseEvent uint32 uint32 uint32

record socket_item =
  m_wIndex :: uint16
  m_cbSocketType :: socket_type
  m_dwClientAddr :: uint32
  m_dwConnectTime :: uint32
  m_wRountID :: uint16
  m_hSocket :: "nat option"
  m_bNotify :: bool
  m_bRecvIng :: bool
  m_bCloseIng :: bool
  m_bAllowBatch :: bool
  m_dwRecvSize :: uint32
  m_cbRecvBuf :: "byte list"
  m_dwSendTickCount :: uint32
  m_dwRecvTickCount :: uint32
  m_dwSendPacketCount :: uint32
  m_dwRecvPacketCount :: uint32
  m_OverLappedSendFree :: "overlapped_send list"
  m_OverLappedSendActive :: "overlapped_send list"
  m_websocket :: web_socket
  io :: "io_action list"
  calls :: "item_call list"

definition CServerSocketItem :: "byte list \<Rightarrow> uint16 \<Rightarrow> socket_item" where
  "CServerSocketItem recv_buf wIndex = \<lparr>m_wIndex = wIndex, m_cbSocketType = eSocketType_TCP, m_dwClientAddr = 0, m_dwConnectTime = 0,
     m_wRountID = 1, m_hSocket = None, m_bNotify = True, m_bRecvIng = False, m_bCloseIng = False, m_bAllowBatch = True,
     m_dwRecvSize = 0, m_cbRecvBuf = recv_buf, m_dwSendTickCount = 0, m_dwRecvTickCount = 0, m_dwSendPacketCount = 0,
     m_dwRecvPacketCount = 0, m_OverLappedSendFree = [], m_OverLappedSendActive = [], m_websocket = ws_clear, io = [], calls = []\<rparr>"

text \<open>\<open>MAKELONG(m_wIndex, m_wRountID)\<close> and its parts.\<close>

definition MAKELONG :: "uint16 \<Rightarrow> uint16 \<Rightarrow> uint32" where
  "MAKELONG lo hi = ucast lo OR push_bit 16 (ucast hi)"

definition LOWORD :: "uint32 \<Rightarrow> uint16" where
  "LOWORD w = ucast w"

definition HIWORD :: "uint32 \<Rightarrow> uint16" where
  "HIWORD w = ucast (drop_bit 16 w)"

definition GetSocketID :: "socket_item \<Rightarrow> uint32" where
  "GetSocketID s = MAKELONG (m_wIndex s) (m_wRountID s)"

definition IsReadySend :: "socket_item \<Rightarrow> bool" where
  "IsReadySend s = (m_dwRecvPacketCount s > 0)"

abbreviation emit :: "io_action \<Rightarrow> socket_item \<Rightarrow> socket_item" where
  "emit a s \<equiv> s\<lparr>io := io s @ [a]\<rparr>"

abbreviation notify :: "item_call \<Rightarrow> socket_item \<Rightarrow> socket_item" where
  "notify c s \<equiv> s\<lparr>calls := calls s @ [c]\<rparr>"

section \<open>Opening and closing\<close>

definition Attach :: "nat \<Rightarrow> uint32 \<Rightarrow> uint32 \<Rightarrow> uint32 \<Rightarrow> socket_item \<Rightarrow> socket_item" where
  "Attach hSocket dwClientAddr tick now s =
     (let s = s\<lparr>m_bNotify := False, m_bRecvIng := False, m_bCloseIng := False, m_hSocket := Some hSocket,
                m_dwClientAddr := dwClientAddr, m_dwRecvTickCount := tick, m_dwConnectTime := now\<rparr>
      in notify (OnSocketAcceptEvent (GetSocketID s) (m_dwClientAddr s)) s)"

definition ResetSocketData :: "socket_item \<Rightarrow> socket_item" where
  "ResetSocketData s = s\<lparr>m_cbSocketType := eSocketType_TCP, m_wRountID := m_wRountID s + 1, m_dwRecvSize := 0, m_dwClientAddr := 0,
     m_dwConnectTime := 0, m_dwSendTickCount := 0, m_dwRecvTickCount := 0, m_dwSendPacketCount := 0, m_dwRecvPacketCount := 0,
     m_bNotify := True, m_bRecvIng := False, m_bCloseIng := False, m_bAllowBatch := True,
     m_OverLappedSendFree := m_OverLappedSendFree s @ m_OverLappedSendActive s, m_OverLappedSendActive := [], m_websocket := ws_clear\<rparr>"

definition OnCloseCompleted :: "socket_item \<Rightarrow> socket_item" where
  "OnCloseCompleted s =
     ResetSocketData (if \<not> m_bNotify s
       then notify (OnSocketCloseEvent (GetSocketID s) (m_dwClientAddr s) (m_dwConnectTime s)) (s\<lparr>m_bNotify := True\<rparr>) else s)"

definition CloseSocket :: "uint16 \<Rightarrow> socket_item \<Rightarrow> bool \<times> socket_item" where
  "CloseSocket wRountID s =
     (if m_wRountID s \<noteq> wRountID then (False, s)
      else let s = (if m_hSocket s \<noteq> None then (emit CloseHandle s)\<lparr>m_hSocket := None\<rparr> else s) in
        (True, if \<not> m_bRecvIng s \<and> m_OverLappedSendActive s = [] then OnCloseCompleted s else s))"

text \<open>The code behind the first \<open>return\<close> is dead.\<close>

definition ShutDownSocket :: "uint16 \<Rightarrow> socket_item \<Rightarrow> bool \<times> socket_item" where
  "ShutDownSocket wRountID s = (True, s)"

definition AllowBatchSend :: "uint16 \<Rightarrow> bool \<Rightarrow> socket_item \<Rightarrow> bool \<times> socket_item" where
  "AllowBatchSend wRountID bAllowBatch s =
     (if m_wRountID s \<noteq> wRountID then (False, s)
      else if m_hSocket s = None then (False, s)
      else (True, s\<lparr>m_bAllowBatch := bAllowBatch\<rparr>))"

section \<open>Sending\<close>

text \<open>The structure that is filled next becomes the last active one; \<open>fresh\<close> is a new one, if the allocation succeeds.\<close>

definition GetSendOverLapped :: "overlapped_send option \<Rightarrow> socket_item \<Rightarrow> (overlapped_send \<times> socket_item) option" where
  "GetSendOverLapped fresh s =
     (if m_OverLappedSendFree s \<noteq> [] then
        (let p = last (m_OverLappedSendFree s) in
         Some (p, s\<lparr>m_OverLappedSendFree := butlast (m_OverLappedSendFree s), m_OverLappedSendActive := m_OverLappedSendActive s @ [p]\<rparr>))
      else map_option (\<lambda>p. (p, s\<lparr>m_OverLappedSendActive := m_OverLappedSendActive s @ [p]\<rparr>)) fresh)"

definition wsa_send :: "overlapped_send \<Rightarrow> socket_item \<Rightarrow> socket_item" where
  "wsa_send p s = emit (WSASend (take (unat (ol_len p)) (ol_cbBuffer p))) s"

definition OnSendCompleted :: "uint32 \<Rightarrow> uint32 \<Rightarrow> bool \<Rightarrow> socket_item \<Rightarrow> (bool \<times> socket_item) option" where
  "OnSendCompleted dwThancferred tick send_ok s = (case m_OverLappedSendActive s of
     [] \<Rightarrow> None
   | p # ps \<Rightarrow>
       let s = s\<lparr>m_OverLappedSendActive := ps, m_OverLappedSendFree := m_OverLappedSendFree s @ [p]\<rparr>;
           s = (if dwThancferred \<noteq> 0 then s\<lparr>m_dwSendTickCount := tick\<rparr> else s);
           drain = (\<lambda>s. s\<lparr>m_OverLappedSendFree := m_OverLappedSendFree s @ m_OverLappedSendActive s, m_OverLappedSendActive := []\<rparr>)
       in if m_hSocket s = None then Some (True, snd (CloseSocket (m_wRountID s) (drain s)))
          else case m_OverLappedSendActive s of
            q # qs \<Rightarrow>
              (let s = wsa_send q s in
               if \<not> send_ok then Some (False, snd (CloseSocket (m_wRountID s) (drain s))) else Some (True, s))
          | [] \<Rightarrow> if m_bCloseIng s then Some (True, snd (CloseSocket (m_wRountID s) s)) else Some (True, s))"

text \<open>The checks before sending, and what follows once the packet is in the last active structure.\<close>

definition may_send :: "uint16 \<Rightarrow> socket_item \<Rightarrow> bool" where
  "may_send wRountID s \<longleftrightarrow> \<not> m_bCloseIng s \<and> m_wRountID s = wRountID \<and> m_dwRecvPacketCount s \<noteq> 0 \<and> m_hSocket s \<noteq> None"

definition send_filled :: "overlapped_send \<Rightarrow> bool \<Rightarrow> socket_item \<Rightarrow> (bool \<times> socket_item) option" where
  "send_filled p send_ok s =
     (let s = s\<lparr>m_OverLappedSendActive := butlast (m_OverLappedSendActive s) @ [p], m_dwSendPacketCount := m_dwSendPacketCount s + 1\<rparr> in
      if length (m_OverLappedSendActive s) = 1 then
        (let s = wsa_send p s in
         if \<not> send_ok then map_option (\<lambda>(_, s). (False, s)) (OnSendCompleted 0 0 send_ok s) else Some (True, s))
      else Some (True, s))"

text \<open>The head of a packet for a WebSocket client, which gets it unmapped.\<close>

definition web_head :: "TCP_Command \<Rightarrow> uint16 \<Rightarrow> byte list" where
  "web_head c n = le_head \<lparr>TCPInfo = \<lparr>cbDataKind = DK_MAPPED, cbCheckCode = 0, wPacketSize = 8 + n\<rparr>, CommandInfo = c\<rparr>"

definition fill_web :: "byte list \<Rightarrow> overlapped_send \<Rightarrow> overlapped_send option" where
  "fill_web msg p = do {
     (_, b, n) \<leftarrow> EncodeFrame msg (of_nat (length msg)) (ol_cbBuffer p) (of_nat SOCKET_TCP_BUFFER) (ol_len p);
     Some \<lparr>ol_len = n, ol_cbBuffer = b\<rparr>
   }"

definition fill_tcp :: "TCP_Command \<Rightarrow> byte list \<Rightarrow> uint16 \<Rightarrow> overlapped_send \<Rightarrow> overlapped_send option" where
  "fill_tcp c xs n p = do {
     (wSendSize, b) \<leftarrow> build_packet c xs n (ol_cbBuffer p);
     Some \<lparr>ol_len = ucast wSendSize, ol_cbBuffer = b\<rparr>
   }"

text \<open>\<open>SendData\<close> without and with data. \<open>None\<close> for the structure is a failed allocation.\<close>

definition SendCommand :: "overlapped_send option \<Rightarrow> bool \<Rightarrow> TCP_Command \<Rightarrow> uint16 \<Rightarrow> socket_item \<Rightarrow> (bool \<times> socket_item) option" where
  "SendCommand fresh send_ok c wRountID s =
     (if \<not> may_send wRountID s then Some (False, s)
      else case GetSendOverLapped fresh s of
        None \<Rightarrow> Some (False, s)
      | Some (p, s) \<Rightarrow> do {
          p \<leftarrow> (if m_cbSocketType s = eSocketType_WebSocket then fill_web (web_head c 0) p else fill_tcp c [] 0 p);
          send_filled p send_ok s
        })"

definition SendData :: "overlapped_send option \<Rightarrow> bool \<Rightarrow> byte list \<Rightarrow> uint16 \<Rightarrow> TCP_Command \<Rightarrow> uint16 \<Rightarrow> socket_item \<Rightarrow> (bool \<times> socket_item) option" where
  "SendData fresh send_ok pData n c wRountID s =
     (if \<not> may_send wRountID s \<or> unat n > SOCKET_TCP_BUFFER then Some (False, s)
      else case GetSendOverLapped fresh s of
        None \<Rightarrow> Some (False, s)
      | Some (p, s) \<Rightarrow> do {
          xs \<leftarrow> mem_read 0 (unat n) pData;
          p \<leftarrow> (if m_cbSocketType s = eSocketType_WebSocket
               then do {
                 _ \<leftarrow> mem_write 8 xs (replicate SOCKET_TCP_BUFFER 0);
                 fill_web (web_head c n @ xs) p
               }
               else fill_tcp c xs n p);
          send_filled p send_ok s
        })"

section \<open>Receiving\<close>

definition RecvData :: "bool \<Rightarrow> socket_item \<Rightarrow> bool \<times> socket_item" where
  "RecvData recv_ok s =
     (if m_bCloseIng s then
        (False, if m_OverLappedSendActive s = [] then snd (CloseSocket (m_wRountID s) s) else s)
      else
        (let s = (emit WSARecv s)\<lparr>m_bRecvIng := True\<rparr> in
         if \<not> recv_ok then (False, snd (CloseSocket (m_wRountID s) (s\<lparr>m_bRecvIng := False\<rparr>))) else (True, s)))"

text \<open>One packet of the loop of \<open>OnRecvCompleted\<close>; \<open>cb\<close> is its local buffer. The result tells whether the loop goes on.\<close>

datatype loop_result = LoopEnd | LoopThrow packet_error | LoopNext

definition recv_command :: "TCP_Command \<Rightarrow> byte list \<Rightarrow> socket_item \<Rightarrow> packet_error + socket_item" where
  "recv_command c xs s =
     (if wMainCmdID c = MDM_KN_COMMAND then
        if wSubCmdID c = SUB_KN_DETECT_SOCKET \<or> wSubCmdID c = SUB_KN_VALIDATE_SOCKET then Inr s else Inl IllegalCommand
      else Inr (notify (OnSocketReadEvent (GetSocketID s) c xs) s))"

definition recv_packet :: "byte list \<Rightarrow> socket_item \<Rightarrow> (loop_result \<times> byte list \<times> socket_item) option" where
  "recv_packet cb s =
     (if m_dwRecvSize s < 8 then Some (LoopEnd, cb, s)
      else do {
        h \<leftarrow> head_at (m_cbRecvBuf s);
        let n = wPacketSize (TCPInfo h);
        if unat n > SOCKET_TCP_BUFFER then Some (LoopThrow PacketTooLong, cb, s)
        else if n < 8 then Some (LoopThrow PacketIllegal, cb, s)
        else if cbDataKind (TCPInfo h) \<noteq> SOCKET_TCP_VER then Some (LoopThrow PacketVersion, cb, s)
        else if m_dwRecvSize s < ucast n then Some (LoopEnd, cb, s)
        else do {
          xs \<leftarrow> mem_read 0 (unat n) (m_cbRecvBuf s);
          cb \<leftarrow> mem_write 0 xs cb;
          r \<leftarrow> (if m_cbSocketType s = eSocketType_WebSocket then Some (Inr (n, cb)) else CrevasseBuffer cb n);
          case r of
            Inl e \<Rightarrow> Some (LoopThrow e, cb, s)
          | Inr (wRealySize, cb) \<Rightarrow> do {
              let s = s\<lparr>m_dwRecvPacketCount := m_dwRecvPacketCount s + 1\<rparr>;
              data \<leftarrow> mem_read 8 (unat (wRealySize - 8)) cb;
              c \<leftarrow> field_command 4 cb;
              case recv_command c data s of
                Inl e \<Rightarrow> Some (LoopThrow e, cb, s)
              | Inr s \<Rightarrow> do {
                  let left = m_dwRecvSize s - ucast n;
                  buf \<leftarrow> mem_move 0 (unat n) (unat left) (m_cbRecvBuf s);
                  Some (LoopNext, cb, s\<lparr>m_dwRecvSize := left, m_cbRecvBuf := buf\<rparr>)
                }
            }
        }
      })"

lemma unat_ucast16: "unat (ucast (n :: uint16) :: uint32) = unat n"
proof -
  have "unat n < 65536" using unsigned_less [of n] by simp
  then show ?thesis by (simp add: unsigned_ucast_eq take_bit_eq_mod)
qed

lemma recv_packet_decreases:
  assumes "recv_packet cb s = Some (LoopNext, cb', s')"
  shows "unat (m_dwRecvSize s') < unat (m_dwRecvSize s)"
proof -
  obtain n :: uint16 where n: "m_dwRecvSize s' = m_dwRecvSize s - ucast n" "8 \<le> n" "ucast n \<le> m_dwRecvSize s"
    using assms by (auto simp: recv_packet_def recv_command_def Let_def not_less split: if_splits bind_splits sum.splits prod.splits)
  have "unat (ucast n :: uint32) = unat n" by (rule unat_ucast16)
  moreover have "8 \<le> unat n" using n(2) by (simp add: word_le_nat_alt)
  moreover have "unat (m_dwRecvSize s - ucast n) = unat (m_dwRecvSize s) - unat (ucast n :: uint32)" using n(3) by (rule unat_sub)
  ultimately show ?thesis using n(1,3) by (simp add: word_le_nat_alt)
qed

function recv_loop :: "byte list \<Rightarrow> socket_item \<Rightarrow> (packet_error option \<times> socket_item) option" where
  "recv_loop cb s = (case recv_packet cb s of
     None \<Rightarrow> None
   | Some (LoopEnd, cb', s') \<Rightarrow> Some (None, s')
   | Some (LoopThrow e, cb', s') \<Rightarrow> Some (Some e, s')
   | Some (LoopNext, cb', s') \<Rightarrow> recv_loop cb' s')"
  by pat_completeness auto
termination
  by (relation "measure (\<lambda>(cb, s). unat (m_dwRecvSize s))") (auto dest: recv_packet_decreases)

declare recv_loop.simps [simp del]

text \<open>The packets that are in the buffer, and the next reception; an exception closes the connection.\<close>

definition recv_packets :: "byte list \<Rightarrow> bool \<Rightarrow> socket_item \<Rightarrow> (bool \<times> socket_item) option" where
  "recv_packets cb recv_ok s = do {
     (e, s) \<leftarrow> recv_loop cb s;
     Some (case e of None \<Rightarrow> RecvData recv_ok s | Some _ \<Rightarrow> (False, snd (CloseSocket (m_wRountID s) s)))
   }"

text \<open>\<open>recv\<close> puts the bytes \<open>xs\<close> at the end of what is there; no bytes stand for an error or the end of the stream.\<close>

definition recv_web :: "byte list \<Rightarrow> byte list \<Rightarrow> bool \<Rightarrow> socket_item \<Rightarrow> (bool \<times> socket_item) option" where
  "recv_web xs cb recv_ok s =
     (if xs = [] then Some (True, snd (CloseSocket (m_wRountID s) s))
      else do {
        let w = m_websocket s;
        wb \<leftarrow> mem_write (unat (ws_dwRecvSize w)) xs (ws_cbRecvBuf w);
        let w = w\<lparr>ws_cbRecvBuf := wb, ws_dwRecvSize := ws_dwRecvSize w + of_nat (length xs)\<rparr>;
        let at = unat (m_dwRecvSize s);
        (ret, out, n, w) \<leftarrow> DecodeFrame (drop at (m_cbRecvBuf s)) (of_nat WS_BUFFER - m_dwRecvSize s) (m_dwRecvSize s) w;
        let s = s\<lparr>m_websocket := w, m_cbRecvBuf := take at (m_cbRecvBuf s) @ out, m_dwRecvSize := n\<rparr>;
        if ret = WS_CLOSING_FRAME \<or> ret = WS_ERROR_FRAME then Some (True, snd (CloseSocket (m_wRountID s) s))
        else if ret = WS_MIDDLE_FRAME then Some (RecvData recv_ok s)
        else recv_packets cb recv_ok s
      })"

text \<open>Before the first packet the buffer is terminated behind the received bytes and tried as a WebSocket handshake.\<close>

definition recv_tcp :: "byte list \<Rightarrow> byte list \<Rightarrow> bool \<Rightarrow> bool \<Rightarrow> socket_item \<Rightarrow> (bool \<times> socket_item) option" where
  "recv_tcp xs cb resp_ok recv_ok s =
     (if xs = [] then Some (True, snd (CloseSocket (m_wRountID s) s))
      else do {
        b \<leftarrow> mem_write (unat (m_dwRecvSize s)) xs (m_cbRecvBuf s);
        let s = s\<lparr>m_cbRecvBuf := b\<rparr>;
        (web, s) \<leftarrow>
          (if m_dwRecvPacketCount s = 0 then do {
             b \<leftarrow> mem_write (length xs) [0] (m_cbRecvBuf s);
             (web, w) \<leftarrow> ParseWebSocketHandShake b (length xs) (m_websocket s);
             Some (web, s\<lparr>m_cbRecvBuf := b, m_websocket := w\<rparr>)
           }
           else Some (False, s));
        if web then do {
          resp \<leftarrow> cstr (m_szHandShakeResponse (m_websocket s));
          let s = (emit (SendResponse resp) s)\<lparr>m_dwRecvPacketCount := m_dwRecvPacketCount s + 1, m_cbSocketType := eSocketType_WebSocket\<rparr>;
          Some (if \<not> resp_ok then (True, snd (CloseSocket (m_wRountID s) s)) else RecvData recv_ok s)
        }
        else recv_packets cb recv_ok (s\<lparr>m_dwRecvSize := m_dwRecvSize s + of_nat (length xs)\<rparr>)
      })"

definition OnRecvCompleted :: "byte list \<Rightarrow> uint32 \<Rightarrow> byte list \<Rightarrow> bool \<Rightarrow> bool \<Rightarrow> socket_item \<Rightarrow> (bool \<times> socket_item) option" where
  "OnRecvCompleted xs tick cb resp_ok recv_ok s =
     (let s = s\<lparr>m_bRecvIng := False, m_dwRecvTickCount := tick\<rparr> in
      if m_hSocket s = None then Some (True, snd (CloseSocket (m_wRountID s) s))
      else if m_cbSocketType s = eSocketType_WebSocket then recv_web xs cb recv_ok s
      else recv_tcp xs cb resp_ok recv_ok s)"

section \<open>Reassembly of the stream\<close>

text \<open>The messages that the item takes, and the calls they cause.\<close>

definition message_ok :: "message \<Rightarrow> bool" where
  "message_ok m \<longleftrightarrow> length (snd m) + 8 \<le> SOCKET_TCP_BUFFER \<and>
     (wMainCmdID (fst m) = MDM_KN_COMMAND \<longrightarrow> wSubCmdID (fst m) = SUB_KN_DETECT_SOCKET \<or> wSubCmdID (fst m) = SUB_KN_VALIDATE_SOCKET)"

definition reads :: "uint32 \<Rightarrow> message list \<Rightarrow> item_call list" where
  "reads i ms = map (\<lambda>(c, xs). OnSocketReadEvent i c xs) (filter (\<lambda>(c, xs). wMainCmdID c \<noteq> MDM_KN_COMMAND) ms)"

lemma reads_simps [simp]: "reads i [] = []" "reads i (ms @ ms') = reads i ms @ reads i ms'"
  "reads i ((c, xs) # ms) = (if wMainCmdID c = MDM_KN_COMMAND then [] else [OnSocketReadEvent i c xs]) @ reads i ms"
  by (simp_all add: reads_def)

text \<open>The buffer of an item holds the bytes \<open>p\<close>.\<close>

definition pending :: "byte list \<Rightarrow> socket_item \<Rightarrow> bool" where
  "pending p s \<longleftrightarrow> length (m_cbRecvBuf s) = WS_BUFFER \<and> unat (m_dwRecvSize s) = length p \<and> take (length p) (m_cbRecvBuf s) = p"

lemma pending_buf: "pending p s \<Longrightarrow> m_cbRecvBuf s = p @ drop (length p) (m_cbRecvBuf s)"
  by (metis append_take_drop_id pending_def)

lemma head_at_wire_head:
  assumes "8 \<le> length b" "take 4 b = wire_head ys"
  shows "\<exists>h. head_at b = Some h \<and> wPacketSize (TCPInfo h) = of_nat (4 + length ys) \<and> cbDataKind (TCPInfo h) = SOCKET_TCP_VER"
proof -
  have "b = wire_head ys @ drop 4 b" using assms(2) by (metis append_take_drop_id)
  then obtain r where "b = wire_head ys @ r" "4 \<le> length r" using assms(1) by (metis add_le_cancel_left length_append length_wire_head numeral_Bit0)
  then show ?thesis by (simp add: head_at_def field_command_def field_def mem_read_def wire_head_def)
qed

lemma head_at_wire:
  assumes "length xs + 8 \<le> SOCKET_TCP_BUFFER" "8 \<le> length p" "p @ q = wire c xs @ r"
  shows "\<exists>h. head_at (p @ junk) = Some h \<and> wPacketSize (TCPInfo h) = of_nat (8 + length xs) \<and> cbDataKind (TCPInfo h) = SOCKET_TCP_VER"
proof -
  have "take 4 (p @ junk) = take 4 (p @ q)" using assms(2) by simp
  also have "\<dots> = wire_head (body c xs)" unfolding assms(3) by (simp add: wire_def)
  finally show ?thesis using head_at_wire_head [of "p @ junk" "body c xs"] assms(2) by simp
qed

text \<open>A complete packet in the buffer is taken out and its call is made.\<close>

lemma recv_packet_wire:
  assumes ok: "message_ok (c, xs)" and p: "pending (wire c xs @ r) s" and tcp: "m_cbSocketType s = eSocketType_TCP"
    and cb: "length cb = SOCKET_TCP_BUFFER"
  shows "\<exists>cb' b. length cb' = SOCKET_TCP_BUFFER \<and>
    recv_packet cb s = Some (LoopNext, cb', s\<lparr>m_dwRecvPacketCount := m_dwRecvPacketCount s + 1, m_dwRecvSize := of_nat (length r),
      m_cbRecvBuf := b, calls := calls s @ reads (GetSocketID s) [(c, xs)]\<rparr>) \<and> length b = WS_BUFFER \<and> take (length r) b = r"
proof -
  let ?buf = "m_cbRecvBuf s"
  have l: "8 + length xs \<le> SOCKET_TCP_BUFFER" using ok by (simp add: message_ok_def)
  obtain N :: uint16 where N: "N = of_nat (8 + length xs)" by blast
  have n: "unat N = 8 + length xs" unfolding N by (rule unat_packet_size [OF l])
  have b: "?buf = wire c xs @ r @ drop (length (wire c xs @ r)) ?buf" using pending_buf [OF p] by simp
  have sz: "unat (m_dwRecvSize s) = 8 + length xs + length r" using p by (simp add: pending_def)
  obtain h where h: "head_at ?buf = Some h" "wPacketSize (TCPInfo h) = N" "cbDataKind (TCPInfo h) = SOCKET_TCP_VER"
    using head_at_wire [of xs "wire c xs @ r" "[]" c r "drop (length (wire c xs @ r)) ?buf"] l b N by auto
  have chk: "\<not> m_dwRecvSize s < 8" "\<not> unat N > SOCKET_TCP_BUFFER" "\<not> N < 8" "\<not> m_dwRecvSize s < ucast N"
    using sz l n by (simp_all only: word_less_nat_alt unat_ucast16) simp_all
  have rd: "mem_read 0 (unat N) ?buf = Some (wire c xs)"
    unfolding n by (subst b) (simp add: mem_read_def)
  let ?cb = "wire c xs @ drop (8 + length xs) cb"
  have wr: "mem_write 0 (wire c xs) cb = Some ?cb" using l cb by (simp add: mem_write_def)
  have "4 + length (body c xs) + pad4 (4 + length (body c xs)) \<le> SOCKET_TCP_BUFFER"
    using pad4_fits [of "4 + length (body c xs)" 4096] l by (simp only: SOCKET_TCP_BUFFER_def length_body) simp
  then have fits: "pad4 (4 + length (body c xs)) \<le> length (drop (8 + length xs) cb)" using cb by simp
  have n': "unat N = 4 + length (body c xs)" using n by simp
  have w: "?cb = wire_head (body c xs) @ map (\<lambda>x. send_byte x) (body c xs) @ drop (8 + length xs) cb" by (simp add: wire_def)
  let ?cb' = "wire_head (body c xs) @ body c xs @ replicate (pad4 (4 + length (body c xs))) 0 @ drop (pad4 (4 + length (body c xs))) (drop (8 + length xs) cb)"
  have cr: "CrevasseBuffer ?cb N = Some (Inr (N, ?cb'))"
    using CrevasseBuffer_form [OF w _ wire_head_byte(2) n' fits] by simp
  have lcb: "length ?cb' = SOCKET_TCP_BUFFER" using fits cb l by simp
  have "unat (N - 8) = unat N - unat (8 :: uint16)" using chk(3) by (intro unat_sub) (simp add: not_less)
  then have dat: "mem_read 8 (unat (N - 8)) ?cb' = Some xs" using n by (simp add: mem_read_def body_def)
  have cmd: "field_command 4 ?cb' = Some c" by (simp add: field_command_at)
  have u: "ucast N = (of_nat (8 + length xs) :: uint32)"
  proof -
    have "unat (of_nat (8 + length xs) :: uint32) = 8 + length xs"
      using l by (simp only: unat_of_nat) (simp add: SOCKET_TCP_BUFFER_def)
    then show ?thesis by (simp only: word_unat_eq_iff unat_ucast16 n)
  qed
  have "m_dwRecvSize s = of_nat (8 + length xs + length r)" using sz by (metis of_nat_unat ucast_id)
  then have left: "m_dwRecvSize s - ucast N = of_nat (length r)" unfolding u by simp
  have lr: "length (wire c xs @ r) \<le> WS_BUFFER" using arg_cong [OF b, of length] p by (simp add: pending_def)
  then have ur: "unat (of_nat (length r) :: uint32) = length r" by (simp only: unat_of_nat) (simp add: WS_BUFFER_def)
  have mv: "mem_move 0 (unat N) (unat (of_nat (length r) :: uint32)) ?buf = Some (r @ drop (length r) ?buf)"
    unfolding ur n by (subst (1 2) b) (simp add: mem_move_def mem_read_def mem_write_def)
  have rc: "recv_command c xs t = Inr (t\<lparr>calls := calls t @ reads (GetSocketID t) [(c, xs)]\<rparr>)" for t
    using ok by (auto simp: recv_command_def message_ok_def)
  have "length (r @ drop (length r) ?buf) = WS_BUFFER" using lr p by (simp add: pending_def)
  moreover have "recv_packet cb s = Some (LoopNext, ?cb', s\<lparr>m_dwRecvPacketCount := m_dwRecvPacketCount s + 1, m_dwRecvSize := of_nat (length r),
      m_cbRecvBuf := r @ drop (length r) ?buf, calls := calls s @ reads (GetSocketID s) [(c, xs)]\<rparr>)"
  proof -
    obtain CB where CB: "CB = ?cb'" by blast
    obtain rs where rs: "rs = reads (GetSocketID s) [(c, xs)]" by blast
    have "GetSocketID (s\<lparr>m_dwRecvPacketCount := m_dwRecvPacketCount s + 1\<rparr>) = GetSocketID s" by (simp add: GetSocketID_def)
    then show ?thesis using chk tcp h rd wr cr dat cmd left mv rc [folded rs]
      unfolding CB [symmetric] rs [symmetric] recv_packet_def by (simp add: Let_def rs)
  qed
  ultimately show ?thesis using lcb by auto
qed

lemma recv_packet_partial:
  assumes "message_ok (c, xs)" "pending p s" "p @ q = wire c xs @ r" "length p < 8 + length xs"
  shows "recv_packet cb s = Some (LoopEnd, cb, s)"
proof (cases "length p < 8")
  case True
  then have "m_dwRecvSize s < 8" using assms(2) by (simp add: pending_def word_less_nat_alt)
  then show ?thesis by (simp add: recv_packet_def)
next
  case False
  have l: "8 + length xs \<le> SOCKET_TCP_BUFFER" using assms(1) by (simp add: message_ok_def)
  obtain N :: uint16 where N: "N = of_nat (8 + length xs)" by blast
  have n: "unat N = 8 + length xs" unfolding N by (rule unat_packet_size [OF l])
  obtain h where h: "head_at (m_cbRecvBuf s) = Some h" "wPacketSize (TCPInfo h) = N" "cbDataKind (TCPInfo h) = SOCKET_TCP_VER"
    using head_at_wire [of xs p q c r "drop (length p) (m_cbRecvBuf s)"] l N False assms(3) pending_buf [OF assms(2)] by auto
  have "\<not> m_dwRecvSize s < 8" "\<not> unat N > SOCKET_TCP_BUFFER" "\<not> N < 8" "m_dwRecvSize s < ucast N"
    using assms(2,4) l n False by (simp_all add: word_less_nat_alt unat_ucast16 pending_def)
  then show ?thesis using h by (simp add: recv_packet_def Let_def)
qed

text \<open>One turn of the loop, with its local buffer, and its effect.\<close>

definition item_turn :: "byte list \<times> socket_item \<Rightarrow> (byte list \<times> socket_item) option option" where
  "item_turn = (\<lambda>(cb, s). case recv_packet cb s of
     Some (LoopNext, cb', s') \<Rightarrow> Some (Some (cb', s')) | Some (LoopEnd, _, _) \<Rightarrow> Some None | _ \<Rightarrow> None)"

definition taken :: "message list \<Rightarrow> socket_item \<Rightarrow> socket_item \<Rightarrow> bool" where
  "taken ms s s' \<longleftrightarrow> s' = s\<lparr>m_dwRecvPacketCount := m_dwRecvPacketCount s + of_nat (length ms), m_dwRecvSize := m_dwRecvSize s',
     m_cbRecvBuf := m_cbRecvBuf s', calls := calls s @ reads (GetSocketID s) ms\<rparr>"

interpretation item: packet_stream message_ok
  "\<lambda>p (cb, s). pending p s \<and> m_cbSocketType s = eSocketType_TCP \<and> length cb = SOCKET_TCP_BUFFER"
  item_turn "\<lambda>m x y. taken [m] (snd x) (snd y)"
proof
  fix m r and x :: "byte list \<times> socket_item"
  assume ok: "message_ok m" and p: "case x of (cb, s) \<Rightarrow> pending (wire_of m @ r) s \<and> m_cbSocketType s = eSocketType_TCP \<and> length cb = SOCKET_TCP_BUFFER"
  obtain c xs cb s where m: "m = (c, xs)" and x: "x = (cb, s)" by (cases m; cases x)
  obtain cb' b where st: "length cb' = SOCKET_TCP_BUFFER" "recv_packet cb s = Some (LoopNext, cb', s\<lparr>m_dwRecvPacketCount := m_dwRecvPacketCount s + 1,
      m_dwRecvSize := of_nat (length r), m_cbRecvBuf := b, calls := calls s @ reads (GetSocketID s) [(c, xs)]\<rparr>)" "length b = WS_BUFFER" "take (length r) b = r"
    using recv_packet_wire [of c xs r s cb] ok p by (auto simp: m x wire_of_def)
  let ?s = "s\<lparr>m_dwRecvPacketCount := m_dwRecvPacketCount s + 1, m_dwRecvSize := of_nat (length r), m_cbRecvBuf := b,
      calls := calls s @ reads (GetSocketID s) [(c, xs)]\<rparr>"
  have "length r \<le> WS_BUFFER" using st(3,4) by (metis length_take min.cobounded1 nat_le_linear take_all)
  then have "pending r ?s" using st(3,4) by (simp add: pending_def unat_of_nat WS_BUFFER_def)
  then show "\<exists>x'. item_turn x = Some (Some x') \<and>
      (case x' of (cb, s) \<Rightarrow> pending r s \<and> m_cbSocketType s = eSocketType_TCP \<and> length cb = SOCKET_TCP_BUFFER) \<and> taken [m] (snd x) (snd x')"
    using st(1,2) p by (intro exI [of _ "(cb', ?s)"]) (simp add: item_turn_def taken_def x m)
next
  fix m p q r and x :: "byte list \<times> socket_item"
  assume "message_ok m" "case x of (cb, s) \<Rightarrow> pending p s \<and> m_cbSocketType s = eSocketType_TCP \<and> length cb = SOCKET_TCP_BUFFER"
    "p @ q = wire_of m @ r" "length p < length (wire_of m)"
  then show "item_turn x = Some None"
    using recv_packet_partial [of "fst m" "snd m" p "snd x" q r "fst x"] by (cases m; cases x) (simp add: item_turn_def wire_of_def)
next
  fix x :: "byte list \<times> socket_item"
  assume "case x of (cb, s) \<Rightarrow> pending [] s \<and> m_cbSocketType s = eSocketType_TCP \<and> length cb = SOCKET_TCP_BUFFER"
  then show "item_turn x = Some None" by (cases x) (simp add: item_turn_def recv_packet_def pending_def word_less_nat_alt)
qed

lemma taken_Cons:
  assumes "taken [m] s t" "taken ms t u"
  shows "taken (m # ms) s u"
proof -
  obtain n b where t: "t = s\<lparr>m_dwRecvPacketCount := m_dwRecvPacketCount s + 1, m_dwRecvSize := n, m_cbRecvBuf := b,
      calls := calls s @ reads (GetSocketID s) [m]\<rparr>" using assms(1) by (auto simp: taken_def)
  have r: "reads i (m # ms) = reads i [m] @ reads i ms" for i by (cases m) simp
  have "GetSocketID t = GetSocketID s" by (simp add: t GetSocketID_def)
  then have "u = s\<lparr>m_dwRecvPacketCount := m_dwRecvPacketCount s + 1 + of_nat (length ms), m_dwRecvSize := m_dwRecvSize u, m_cbRecvBuf := m_cbRecvBuf u,
      calls := calls s @ reads (GetSocketID s) [m] @ reads (GetSocketID s) ms\<rparr>"
    using assms(2) by (simp add: taken_def t)
  then show ?thesis unfolding taken_def r by (simp add: add.assoc)
qed

lemma recv_packet_end: "recv_packet cb s = Some (LoopEnd, cb', s') \<Longrightarrow> s' = s"
  by (auto simp: recv_packet_def Let_def split: if_splits bind_splits sum.splits prod.splits)

lemma turns_recv_loop:
  "turns item_turn (\<lambda>m x y. taken [m] (snd x) (snd y)) ms (cb, s) (cb', s') \<Longrightarrow> item_turn (cb', s') = Some None \<Longrightarrow>
   recv_loop cb s = Some (None, s') \<and> taken ms s s'"
proof (induction ms arbitrary: cb s)
  case Nil
  then obtain cb'' where "recv_packet cb s = Some (LoopEnd, cb'', s)"
    using recv_packet_end by (fastforce simp: item_turn_def split: option.splits loop_result.splits)
  then have "recv_loop cb s = Some (None, s)" by (subst recv_loop.simps) simp
  then show ?case using Nil by (simp add: taken_def)
next
  case (Cons m ms)
  then obtain cb1 s1 where t: "item_turn (cb, s) = Some (Some (cb1, s1))" "taken [m] s s1"
      "turns item_turn (\<lambda>m x y. taken [m] (snd x) (snd y)) ms (cb1, s1) (cb', s')" by auto
  from t(1) have "recv_packet cb s = Some (LoopNext, cb1, s1)" by (auto simp: item_turn_def split: option.splits loop_result.splits)
  then have "recv_loop cb s = recv_loop cb1 s1" by (subst recv_loop.simps) simp
  then show ?case using Cons.IH [OF t(3) Cons.prems(2)] taken_Cons [OF t(2)] by simp
qed

text \<open>Between two receptions: \<open>p\<close> is what has arrived of the next packet of the messages \<open>ms\<close> that are still to come.\<close>

definition awaiting :: "message list \<Rightarrow> byte list \<Rightarrow> socket_item \<Rightarrow> bool" where
  "awaiting ms p s \<longleftrightarrow> pending p s \<and> partial_packet ms p \<and>
     m_cbSocketType s = eSocketType_TCP \<and> m_hSocket s \<noteq> None \<and> \<not> m_bCloseIng s"

lemma awaiting_short: "awaiting ms p s \<Longrightarrow> list_all message_ok ms \<Longrightarrow> length p < SOCKET_TCP_BUFFER"
  by (cases ms) (auto simp: awaiting_def partial_packet_def message_ok_def SOCKET_TCP_BUFFER_def)

lemma pending_append:
  assumes "pending p s" "length p + length xs \<le> WS_BUFFER"
  shows "\<exists>b. mem_write (unat (m_dwRecvSize s)) xs (m_cbRecvBuf s) = Some b \<and>
    pending (p @ xs) (s\<lparr>m_cbRecvBuf := b, m_dwRecvSize := m_dwRecvSize s + of_nat (length xs)\<rparr>)"
proof -
  have "unat (m_dwRecvSize s + of_nat (length xs)) = length p + length xs"
  proof -
    have u: "unat (of_nat (length xs) :: uint32) = length xs" using assms(2) by (simp add: unat_of_nat WS_BUFFER_def)
    then have "unat (m_dwRecvSize s) + unat (of_nat (length xs) :: uint32) < 2 ^ 32" using assms by (simp add: pending_def WS_BUFFER_def)
    then show ?thesis using assms(1) u by (subst unat_add_lem [THEN iffD1]) (simp_all add: pending_def)
  qed
  then show ?thesis using assms by (simp add: pending_def mem_write_def)
qed

lemma terminator_keeps_pending:
  assumes "pending p s" "length p < WS_BUFFER"
  shows "\<exists>b. mem_write (length p) [0] (m_cbRecvBuf s) = Some b \<and> pending p (s\<lparr>m_cbRecvBuf := b\<rparr>)"
  using assms by (simp add: pending_def mem_write_def)

lemma version_no_handshake: "b ! 0 = SOCKET_TCP_VER \<Longrightarrow> ParseWebSocketHandShake b n w = Some (False, w)"
  by (cases b) (auto simp: ParseWebSocketHandShake_def chars_def of_char_def SOCKET_TCP_VER_def)

lemma wire_version: "wire c xs ! 0 = SOCKET_TCP_VER"
  by (simp add: wire_def wire_head_def)

lemma not_a_handshake:
  assumes "b = p @ junk" "p @ q = wires ms" "p \<noteq> []"
  shows "ParseWebSocketHandShake b n w = Some (False, w)"
proof -
  obtain c xs ms' where "ms = (c, xs) # ms'" using assms(2,3) by (cases ms) auto
  then have "(p @ q) ! 0 = SOCKET_TCP_VER" using assms(2) by (simp add: nth_append wire_version wire_of_def del: append_is_Nil_conv)
  then show ?thesis using assms(1,3) by (intro version_no_handshake) (simp add: nth_append)
qed

text \<open>One reception: the packets that it completes are read, in order.\<close>

lemma recv_chunk:
  assumes ms: "list_all message_ok ms" and w: "awaiting ms p s" and pq: "p @ xs @ q = wires ms" and xs: "xs \<noteq> []"
    and l: "length xs + SOCKET_TCP_BUFFER \<le> WS_BUFFER" and cb: "length cb = SOCKET_TCP_BUFFER"
    and first: "m_dwRecvPacketCount s = 0 \<longrightarrow> p = []"
  shows "\<exists>k p' s'. OnRecvCompleted xs tick cb resp_ok True s = Some (True, s') \<and> awaiting (drop k ms) p' s' \<and> p' @ q = wires (drop k ms) \<and>
    k \<le> length ms \<and> m_dwRecvPacketCount s' = m_dwRecvPacketCount s + of_nat k \<and> calls s' = calls s @ reads (GetSocketID s) (take k ms) \<and>
    GetSocketID s' = GetSocketID s \<and> m_bRecvIng s' \<and> m_hSocket s' = m_hSocket s"
proof -
  let ?s = "s\<lparr>m_bRecvIng := False, m_dwRecvTickCount := tick\<rparr>"
  have lp: "length p + length xs < WS_BUFFER" using awaiting_short [OF w ms] l by simp
  have "pending p ?s" using w by (simp add: awaiting_def pending_def)
  then obtain b where b: "mem_write (unat (m_dwRecvSize ?s)) xs (m_cbRecvBuf ?s) = Some b"
      "pending (p @ xs) (?s\<lparr>m_cbRecvBuf := b, m_dwRecvSize := m_dwRecvSize ?s + of_nat (length xs)\<rparr>)"
    using pending_append [of p ?s xs] lp by auto
  have "\<exists>b'. recv_tcp xs cb resp_ok True ?s = recv_packets cb True (?s\<lparr>m_cbRecvBuf := b', m_dwRecvSize := m_dwRecvSize ?s + of_nat (length xs)\<rparr>) \<and>
      pending (p @ xs) (?s\<lparr>m_cbRecvBuf := b', m_dwRecvSize := m_dwRecvSize ?s + of_nat (length xs)\<rparr>)"
  proof (cases "m_dwRecvPacketCount s = 0")
    case False
    then show ?thesis using b xs by (intro exI [of _ b]) (simp add: recv_tcp_def)
  next
    case True
    then have p: "p = []" using first by simp
    obtain b' where b': "mem_write (length xs) [0] b = Some b'"
        "pending xs (?s\<lparr>m_cbRecvBuf := b', m_dwRecvSize := m_dwRecvSize ?s + of_nat (length xs)\<rparr>)"
      using terminator_keeps_pending [OF b(2)] lp p by (auto simp: pending_def)
    have "b' = xs @ drop (length xs) b'" using pending_buf [OF b'(2)] by simp
    then have "ParseWebSocketHandShake b' (length xs) (m_websocket s) = Some (False, m_websocket s)"
      using pq xs p by (intro not_a_handshake [of _ xs _ q ms]) auto
    then show ?thesis using b(1) b' xs p True by (intro exI [of _ b']) (simp add: recv_tcp_def)
  qed
  then obtain b' where b': "recv_tcp xs cb resp_ok True ?s = recv_packets cb True (?s\<lparr>m_cbRecvBuf := b', m_dwRecvSize := m_dwRecvSize ?s + of_nat (length xs)\<rparr>)"
      "pending (p @ xs) (?s\<lparr>m_cbRecvBuf := b', m_dwRecvSize := m_dwRecvSize ?s + of_nat (length xs)\<rparr>)"
    by blast
  obtain t where t: "t = ?s\<lparr>m_cbRecvBuf := b', m_dwRecvSize := m_dwRecvSize ?s + of_nat (length xs)\<rparr>" by blast
  have tf: "m_cbSocketType t = eSocketType_TCP" "\<not> m_bCloseIng t" "m_hSocket t = m_hSocket s" "m_dwRecvPacketCount t = m_dwRecvPacketCount s"
      "calls t = calls s" "GetSocketID t = GetSocketID s"
    using w by (simp_all add: t awaiting_def GetSocketID_def)
  have tcp: "m_hSocket s \<noteq> None" "m_cbSocketType s = eSocketType_TCP" using w by (simp_all add: awaiting_def)
  have pt: "pending (p @ xs) t" using b'(2) t by simp
  obtain k p' cb' s' where k: "k \<le> length ms" "turns item_turn (\<lambda>m x y. taken [m] (snd x) (snd y)) (take k ms) (cb, t) (cb', s')" "item_turn (cb', s') = Some None"
      "pending p' s'" "p' @ q = wires (drop k ms)" "partial_packet (drop k ms) p'"
    using item.loop_takes_packets [OF ms, of "p @ xs" "(cb, t)" q] pt tf(1) cb pq by auto
  note lp = turns_recv_loop [OF k(2,3)]
  obtain n buf where s': "s' = t\<lparr>m_dwRecvPacketCount := m_dwRecvPacketCount t + of_nat k, m_dwRecvSize := n, m_cbRecvBuf := buf,
       calls := calls t @ reads (GetSocketID t) (take k ms)\<rparr>" using lp k(1) by (auto simp: taken_def)
  have "RecvData True s' = (True, (emit WSARecv s')\<lparr>m_bRecvIng := True\<rparr>)" using tf(2) by (simp add: RecvData_def s')
  then have "OnRecvCompleted xs tick cb resp_ok True s = Some (True, (emit WSARecv s')\<lparr>m_bRecvIng := True\<rparr>)"
    using b'(1) lp tcp unfolding t [symmetric] by (auto simp: OnRecvCompleted_def recv_packets_def Let_def)
  moreover have "awaiting (drop k ms) p' ((emit WSARecv s')\<lparr>m_bRecvIng := True\<rparr>)"
    using k(4,6) tf tcp by (simp add: awaiting_def pending_def s')
  ultimately show ?thesis using k tf by (intro exI [of _ k] exI [of _ p']) (auto simp: s' GetSocketID_def)
qed

text \<open>A sequence of receptions: the bytes, the time, and the fresh stack buffer of each.\<close>

fun deliver :: "(byte list \<times> uint32 \<times> byte list) list \<Rightarrow> socket_item \<Rightarrow> socket_item option" where
  "deliver [] s = Some s"
| "deliver ((xs, tick, cb) # rs) s = do {
     (_, s) \<leftarrow> OnRecvCompleted xs tick cb True True s;
     deliver rs s
   }"

definition reception_ok :: "byte list \<times> uint32 \<times> byte list \<Rightarrow> bool" where
  "reception_ok = (\<lambda>(xs, tick, cb). xs \<noteq> [] \<and> length xs + SOCKET_TCP_BUFFER \<le> WS_BUFFER \<and> length cb = SOCKET_TCP_BUFFER)"

lemma deliver_wires:
  assumes "list_all message_ok ms" "awaiting ms p s" "p @ concat (map fst rs) = wires ms" "list_all reception_ok rs"
    and "m_dwRecvPacketCount s = of_nat d" "d + length ms < 2 ^ 32" "0 < d \<or> (p = [] \<and> (rs = [] \<or> (\<exists>c xs ms'. ms = (c, xs) # ms' \<and> 8 + length xs \<le> length (fst (hd rs)))))"
  shows "\<exists>s'. deliver rs s = Some s' \<and> awaiting [] [] s' \<and> calls s' = calls s @ reads (GetSocketID s) ms \<and>
    m_dwRecvPacketCount s' = of_nat (d + length ms) \<and> GetSocketID s' = GetSocketID s \<and> m_hSocket s' = m_hSocket s"
  using assms
proof (induction rs arbitrary: ms p s d)
  case Nil
  then have "ms = []" using partial_packet_all by (simp add: awaiting_def)
  then show ?case using Nil by (auto simp: awaiting_def)
next
  case (Cons r rs)
  obtain xs tick cb where r: "r = (xs, tick, cb)" by (cases r)
  have ok: "xs \<noteq> []" "length xs + SOCKET_TCP_BUFFER \<le> WS_BUFFER" "length cb = SOCKET_TCP_BUFFER"
    using Cons.prems(4) by (simp_all add: r reception_ok_def)
  have u: "unat (m_dwRecvPacketCount s) = d" using Cons.prems(5,6) by (simp add: unat_of_nat)
  then have first: "m_dwRecvPacketCount s = 0 \<longrightarrow> p = []" using Cons.prems(7) by auto
  obtain k p' s' where k: "OnRecvCompleted xs tick cb True True s = Some (True, s')" "awaiting (drop k ms) p' s'"
      "p' @ concat (map fst rs) = wires (drop k ms)" "k \<le> length ms" "m_dwRecvPacketCount s' = m_dwRecvPacketCount s + of_nat k"
      "calls s' = calls s @ reads (GetSocketID s) (take k ms)" "GetSocketID s' = GetSocketID s" "m_hSocket s' = m_hSocket s"
    using recv_chunk [OF Cons.prems(1,2) _ ok first, of "concat (map fst rs)" tick True] Cons.prems(3) by (auto simp: r)
  have d: "0 < d + k"
  proof (rule ccontr)
    assume "\<not> 0 < d + k"
    then have z: "d = 0" "k = 0" by simp_all
    then obtain c ys ms' where m: "p = []" "ms = (c, ys) # ms'" "8 + length ys \<le> length xs" using Cons.prems(7) r by auto
    have "length p' < 8 + length ys" using k(2) m z by (simp add: awaiting_def partial_packet_def)
    moreover have "p' @ concat (map fst rs) = p @ xs @ concat (map fst rs)" using k(3) Cons.prems(3) z by (simp add: r)
    ultimately show False using m by simp
  qed
  have "list_all message_ok (drop k ms)" using Cons.prems(1) by (metis append_take_drop_id list_all_append)
  moreover have "m_dwRecvPacketCount s' = of_nat (d + k)" using k(5) Cons.prems(5) by simp
  ultimately obtain s'' where s'': "deliver rs s' = Some s''" "awaiting [] [] s''" "calls s'' = calls s' @ reads (GetSocketID s') (drop k ms)"
      "m_dwRecvPacketCount s'' = of_nat (d + k + length (drop k ms))" "GetSocketID s'' = GetSocketID s'" "m_hSocket s'' = m_hSocket s'"
    using Cons.IH [OF _ k(2,3), of "d + k"] Cons.prems(4,6) k(4) d by auto
  have "reads i (take k ms) @ reads i (drop k ms) = reads i ms" for i by (metis append_take_drop_id reads_simps(2))
  then show ?case using k s'' by (intro exI [of _ s'']) (simp add: r)
qed

text \<open>Property C7: reassembly of the stream. A client sends messages one after the other as mapped packets, each of at most 16384
  bytes, the kernel's own commands among them only detections and validations. However TCP cuts the byte stream into receptions
  (none of them empty, none longer than 65536 bytes, the first one holding at least the whole first packet), an open
  connection of the binary protocol that has received nothing yet hands exactly these messages to its sink, in
  order, with their data unmapped and the kernel's own commands left out; no byte stays behind, every packet is counted and the
  connection stays open.\<close>

theorem tcp_stream_reassembly:
  assumes "list_all message_ok ((c, xs) # ms)" "list_all reception_ok rs" "concat (map fst rs) = wires ((c, xs) # ms)"
    and "8 + length xs \<le> length (fst (hd rs))" "length ms < 2 ^ 32 - 1"
    and "m_hSocket s = Some h" "m_cbSocketType s = eSocketType_TCP" "\<not> m_bCloseIng s" "m_dwRecvSize s = 0" "m_dwRecvPacketCount s = 0"
    and "length (m_cbRecvBuf s) = WS_BUFFER"
  shows "\<exists>s'. deliver rs s = Some s' \<and> calls s' = calls s @ reads (GetSocketID s) ((c, xs) # ms) \<and> m_dwRecvSize s' = 0 \<and>
    m_hSocket s' = Some h \<and> m_dwRecvPacketCount s' = of_nat (length ((c, xs) # ms))"
proof -
  have "rs \<noteq> []" using arg_cong [OF assms(3), of length] by auto
  moreover have "awaiting ((c, xs) # ms) [] s" using assms by (simp add: awaiting_def partial_packet_def pending_def)
  ultimately obtain s' where "deliver rs s = Some s'" "awaiting [] [] s'" "calls s' = calls s @ reads (GetSocketID s) ((c, xs) # ms)"
      "m_dwRecvPacketCount s' = of_nat (length ((c, xs) # ms))" "m_hSocket s' = m_hSocket s"
    using deliver_wires [OF assms(1) _ _ assms(2), of "[]" s 0] assms by auto
  then show ?thesis using assms(6) by (auto simp: awaiting_def pending_def unat_eq_0)
qed

text \<open>Three messages, one of them the answer to a detection, cut in the middle of the second.\<close>

theorem tcp_stream_reassembly_witness:
  "let w = wires [(\<lparr>wMainCmdID = 3, wSubCmdID = 100\<rparr>, [1, 2, 3]), (\<lparr>wMainCmdID = MDM_KN_COMMAND, wSubCmdID = SUB_KN_DETECT_SOCKET\<rparr>, [0, 0]),
       (\<lparr>wMainCmdID = 3, wSubCmdID = 101\<rparr>, [])]
   in \<exists>s'. deliver [(take 16 w, 5, replicate SOCKET_TCP_BUFFER 0), (drop 16 w, 6, replicate SOCKET_TCP_BUFFER 0)]
       (Attach 1 2 3 4 (CServerSocketItem (replicate WS_BUFFER 0) 7)) = Some s' \<and>
     calls s' = [OnSocketAcceptEvent (MAKELONG 7 1) 2, OnSocketReadEvent (MAKELONG 7 1) \<lparr>wMainCmdID = 3, wSubCmdID = 100\<rparr> [1, 2, 3],
       OnSocketReadEvent (MAKELONG 7 1) \<lparr>wMainCmdID = 3, wSubCmdID = 101\<rparr> []]"
proof -
  let ?c = "\<lparr>wMainCmdID = 3, wSubCmdID = 100\<rparr>" and ?xs = "[1, 2, 3] :: byte list"
  let ?ms = "[(\<lparr>wMainCmdID = MDM_KN_COMMAND, wSubCmdID = SUB_KN_DETECT_SOCKET\<rparr>, [0, 0]), (\<lparr>wMainCmdID = 3, wSubCmdID = 101\<rparr>, [])] :: message list"
  obtain w where w: "w = wires ((?c, ?xs) # ?ms)" by blast
  have lw: "length w = 29" by (simp add: w)
  let ?rs = "[(take 16 w, 5, replicate SOCKET_TCP_BUFFER 0), (drop 16 w, 6, replicate SOCKET_TCP_BUFFER 0)]"
  let ?s = "Attach 1 2 3 4 (CServerSocketItem (replicate WS_BUFFER 0) 7)"
  have s: "m_hSocket ?s = Some 1" "m_cbSocketType ?s = eSocketType_TCP" "\<not> m_bCloseIng ?s" "m_dwRecvSize ?s = 0" "m_dwRecvPacketCount ?s = 0"
      "length (m_cbRecvBuf ?s) = WS_BUFFER" "calls ?s = [OnSocketAcceptEvent (MAKELONG 7 1) 2]" "GetSocketID ?s = MAKELONG 7 1"
    by (simp_all add: Attach_def CServerSocketItem_def GetSocketID_def)
  have "\<exists>s'. deliver ?rs ?s = Some s' \<and> calls s' = calls ?s @ reads (GetSocketID ?s) ((?c, ?xs) # ?ms) \<and> m_dwRecvSize s' = 0 \<and>
    m_hSocket s' = Some 1 \<and> m_dwRecvPacketCount s' = of_nat (length ((?c, ?xs) # ?ms))"
  proof (rule tcp_stream_reassembly [OF _ _ _ _ _ s(1-6)])
    show "list_all message_ok ((?c, ?xs) # ?ms)" by (simp add: message_ok_def SOCKET_TCP_BUFFER_def MDM_KN_COMMAND_def)
    show "list_all reception_ok ?rs" using lw by (auto simp: reception_ok_def SOCKET_TCP_BUFFER_def WS_BUFFER_def)
  qed (use lw in \<open>simp_all add: w\<close>)
  then show ?thesis unfolding Let_def w [symmetric] s by (auto simp: MDM_KN_COMMAND_def)
qed

section \<open>A first packet in two pieces\<close>

definition read_calls :: "socket_item \<Rightarrow> item_call list" where
  "read_calls s = filter (\<lambda>c. case c of OnSocketReadEvent _ _ _ \<Rightarrow> True | _ \<Rightarrow> False) (calls s)"

lemma CloseSocket_effect:
  "m_hSocket (snd (CloseSocket (m_wRountID s) s)) = None"
  "read_calls (snd (CloseSocket r s)) = read_calls s"
  by (auto simp: CloseSocket_def OnCloseCompleted_def ResetSocketData_def Let_def read_calls_def)

text \<open>A packet of which one byte of the body was changed makes the loop throw.\<close>

lemma recv_packet_corrupted:
  assumes l: "8 + length xs \<le> SOCKET_TCP_BUFFER" and p: "pending ((wire c xs)[i := y]) s" and i: "4 \<le> i" "i < 8 + length xs"
    and y: "y \<noteq> wire c xs ! i" and tcp: "m_cbSocketType s = eSocketType_TCP" and cb: "length cb = SOCKET_TCP_BUFFER"
  shows "\<exists>cb'. recv_packet cb s = Some (LoopThrow PacketCheckCode, cb', s)"
proof -
  let ?w = "(wire c xs)[i := y]" and ?buf = "m_cbRecvBuf s"
  obtain N :: uint16 where N: "N = of_nat (8 + length xs)" by blast
  have n: "unat N = 8 + length xs" unfolding N by (rule unat_packet_size [OF l])
  have b: "?buf = ?w @ drop (length ?w) ?buf" by (rule pending_buf [OF p])
  have "take 4 ?buf = take 4 ?w" by (subst b) simp
  also have "\<dots> = wire_head (body c xs)" using i by (simp add: wire_def)
  finally have "take 4 ?buf = wire_head (body c xs)" .
  moreover have "8 \<le> length ?buf" using p by (simp add: pending_def WS_BUFFER_def)
  ultimately obtain h where h: "head_at ?buf = Some h" "wPacketSize (TCPInfo h) = N" "cbDataKind (TCPInfo h) = SOCKET_TCP_VER"
    using head_at_wire_head [of ?buf "body c xs"] N by auto
  have sz: "unat (m_dwRecvSize s) = 8 + length xs" using p by (simp add: pending_def)
  have chk: "\<not> m_dwRecvSize s < 8" "\<not> unat N > SOCKET_TCP_BUFFER" "\<not> N < 8" "\<not> m_dwRecvSize s < ucast N"
    using sz l n by (simp_all only: word_less_nat_alt unat_ucast16) simp_all
  have rd: "mem_read 0 (unat N) ?buf = Some ?w" unfolding n by (subst b) (simp add: mem_read_def)
  let ?r = "wire c xs @ drop (8 + length xs) cb"
  have wr: "mem_write 0 ?w cb = Some (?r[i := y])" using l cb i by (simp add: mem_write_def list_update_append)
  have "CrevasseBuffer (?r[i := y]) N = Some (Inl PacketCheckCode)"
    unfolding N using l cb i y by (intro corruption_detected [where c = c]) (simp_all add: nth_append)
  then show ?thesis using h chk rd wr tcp unfolding recv_packet_def by (simp add: Let_def)
qed

text \<open>A first packet that arrives in two pieces is lost. The terminator that \<open>OnRecvCompleted\<close> writes before it
  tries the WebSocket handshake goes to the offset that is the size of the last reception, not to the end of what was
  received, so that the second reception overwrites a byte of the packet: the check code fails, no message is
  read and the connection is closed.\<close>

theorem first_packet_split_lost:
  assumes "message_ok (c, xs)" "p @ q = wire c xs" "p \<noteq> []" "4 \<le> length q" "wire c xs ! length q \<noteq> 0"
    and "length cb = SOCKET_TCP_BUFFER" "length cb' = SOCKET_TCP_BUFFER"
    and "m_hSocket s = Some h" "m_cbSocketType s = eSocketType_TCP" "\<not> m_bCloseIng s" "m_dwRecvSize s = 0" "m_dwRecvPacketCount s = 0"
    and "length (m_cbRecvBuf s) = WS_BUFFER"
  shows "\<exists>s'. deliver [(p, t, cb), (q, t', cb')] s = Some s' \<and> m_hSocket s' = None \<and> read_calls s' = read_calls s"
proof -
  have l: "8 + length xs \<le> SOCKET_TCP_BUFFER" using assms(1) by (simp add: message_ok_def)
  have ln: "length p + length q = 8 + length xs" using arg_cong [OF assms(2), of length] by simp
  have lb: "length p + SOCKET_TCP_BUFFER \<le> WS_BUFFER" "length p + length q < WS_BUFFER"
    using l ln by (simp_all add: SOCKET_TCP_BUFFER_def WS_BUFFER_def)
  have aw: "awaiting [(c, xs)] [] s" using assms by (simp add: awaiting_def partial_packet_def pending_def)
  obtain k p' s1 where s1: "OnRecvCompleted p t cb True True s = Some (True, s1)" "awaiting (drop k [(c, xs)]) p' s1"
      "p' @ q = wires (drop k [(c, xs)])" "m_dwRecvPacketCount s1 = m_dwRecvPacketCount s + of_nat k"
      "calls s1 = calls s @ reads (GetSocketID s) (take k [(c, xs)])"
    using recv_chunk [OF _ aw, of p q cb t True] assms lb by auto
  have "k = 0" using s1(3) assms(4) by (cases k) auto
  then have "p' @ q = p @ q" using s1(3) assms(2) by simp
  then have "p' = p" by simp
  with \<open>k = 0\<close> have s1': "pending p s1" "m_dwRecvPacketCount s1 = 0" "calls s1 = calls s" "m_cbSocketType s1 = eSocketType_TCP" "m_hSocket s1 \<noteq> None"
    using s1 assms by (auto simp: awaiting_def)
  let ?s = "s1\<lparr>m_bRecvIng := False, m_dwRecvTickCount := t'\<rparr>"
  have "pending p ?s" using s1'(1) by (simp add: pending_def)
  then obtain b where b: "mem_write (unat (m_dwRecvSize ?s)) q (m_cbRecvBuf ?s) = Some b"
      "pending (p @ q) (?s\<lparr>m_cbRecvBuf := b, m_dwRecvSize := m_dwRecvSize ?s + of_nat (length q)\<rparr>)"
    using pending_append [of p ?s q] lb by auto
  let ?b = "b[length q := 0]"
  have bl: "length b = WS_BUFFER" using b(2) by (simp add: pending_def)
  have wr: "mem_write (length q) [0] b = Some ?b" using bl lb by (simp add: mem_write_def upd_conv_take_nth_drop)
  have be: "b = wire c xs @ drop (8 + length xs) b" using pending_buf [OF b(2)] assms(2) ln by simp
  have lq: "length q < 8 + length xs" using ln assms(3) by (cases p) auto
  have bw: "?b = (wire c xs)[length q := 0] @ drop (8 + length xs) b" by (subst be) (simp add: list_update_append lq)
  have "?b ! 0 = SOCKET_TCP_VER" unfolding bw using assms(4) nth_list_update_neq [of "length q" 0 "wire c xs" 0] by (cases "q = []") (simp_all add: nth_append wire_version)
  then have hs: "ParseWebSocketHandShake ?b (length q) (m_websocket ?s) = Some (False, m_websocket ?s)" by (rule version_no_handshake)
  obtain u where u: "u = ?s\<lparr>m_cbRecvBuf := ?b, m_dwRecvSize := m_dwRecvSize ?s + of_nat (length q)\<rparr>" by blast
  have "pending ((wire c xs)[length q := 0]) u" using b(2) bl bw assms(2) ln lb(2) by (simp add: u pending_def)
  then obtain cb'' where "recv_packet cb' u = Some (LoopThrow PacketCheckCode, cb'', u)"
    using recv_packet_corrupted [of xs c "length q" 0 u cb'] l lq assms(4-7) s1'(4) by (auto simp: u)
  then have "recv_packets cb' True u = Some (False, snd (CloseSocket (m_wRountID u) u))"
    unfolding recv_packets_def by (subst recv_loop.simps) simp
  moreover have "recv_tcp q cb' True True ?s = recv_packets cb' True u"
    using b(1) wr hs s1'(2) assms(4) unfolding u by (auto simp: recv_tcp_def)
  ultimately have "OnRecvCompleted q t' cb' True True s1 = Some (False, snd (CloseSocket (m_wRountID u) u))"
    using s1'(4,5) by (auto simp: OnRecvCompleted_def Let_def)
  moreover have "read_calls u = read_calls s" by (simp add: u read_calls_def s1'(3))
  ultimately show ?thesis using s1(1) by (simp add: CloseSocket_effect)
qed

text \<open>A packet of eleven bytes, cut after its sixth.\<close>

theorem first_packet_split_lost_witness:
  "let w = wire \<lparr>wMainCmdID = 3, wSubCmdID = 100\<rparr> [1, 2, 3]
   in \<exists>s'. deliver [(take 6 w, 5, replicate SOCKET_TCP_BUFFER 0), (drop 6 w, 6, replicate SOCKET_TCP_BUFFER 0)]
       (Attach 1 2 3 4 (CServerSocketItem (replicate WS_BUFFER 0) 7)) = Some s' \<and> m_hSocket s' = None \<and> read_calls s' = []"
proof -
  let ?c = "\<lparr>wMainCmdID = 3, wSubCmdID = 100\<rparr>" and ?xs = "[1, 2, 3] :: byte list"
  let ?s = "Attach 1 2 3 4 (CServerSocketItem (replicate WS_BUFFER 0) 7)"
  obtain w where w: "w = wire ?c ?xs" by blast
  have lw: "length w = 11" by (simp add: w)
  have "wire ?c ?xs ! length (drop 6 w) \<noteq> 0"
    by (simp add: lw wire_def wire_head_def body_def le_command_def le_word_def le_bytes_2 nth_append g_SendByteMap_def)
  moreover have "message_ok (?c, ?xs)" by (simp add: message_ok_def SOCKET_TCP_BUFFER_def MDM_KN_COMMAND_def)
  moreover have s: "m_hSocket ?s = Some 1" "m_cbSocketType ?s = eSocketType_TCP" "\<not> m_bCloseIng ?s" "m_dwRecvSize ?s = 0" "m_dwRecvPacketCount ?s = 0"
      "length (m_cbRecvBuf ?s) = WS_BUFFER" "read_calls ?s = []"
    by (simp_all add: Attach_def CServerSocketItem_def read_calls_def)
  ultimately show ?thesis
    unfolding Let_def w [symmetric] using first_packet_split_lost [of ?c ?xs "take 6 w" "drop 6 w" "replicate SOCKET_TCP_BUFFER 0" "replicate SOCKET_TCP_BUFFER 0" ?s 1 5 6] lw
    by (cases "w = []") (simp_all add: w [symmetric])
qed

end
