(* ===== verification/Tcp_Session.thy ===== *)
theory Tcp_Session
  imports Tcp_Item
begin

text \<open>
  The life of a connection of \<open>TCPNetworkEngine.cpp\<close>: the calls of a \<open>CServerSocketItem\<close> as a step relation (each one runs
  under the lock of the item), its invariant, what its sink sees of a session, the order in which the packets are sent,
  and that closing comes to an end.
\<close>

section \<open>What a reception changes\<close>

text \<open>The part of the item that the handling of received bytes does not touch.\<close>

definition core :: "socket_item \<Rightarrow> socket_item" where
  "core s = s\<lparr>m_cbSocketType := eSocketType_TCP, m_bRecvIng := False, m_dwRecvSize := 0, m_cbRecvBuf := [], m_dwRecvTickCount := 0,
     m_dwRecvPacketCount := 0, m_websocket := ws_clear, io := [], calls := []\<rparr>"

lemma core_eq:
  "core t = core s \<longleftrightarrow> m_wIndex t = m_wIndex s \<and> m_dwClientAddr t = m_dwClientAddr s \<and> m_dwConnectTime t = m_dwConnectTime s \<and>
     m_wRountID t = m_wRountID s \<and> m_hSocket t = m_hSocket s \<and> m_bNotify t = m_bNotify s \<and> m_bCloseIng t = m_bCloseIng s \<and>
     m_bAllowBatch t = m_bAllowBatch s \<and> m_dwSendTickCount t = m_dwSendTickCount s \<and> m_dwSendPacketCount t = m_dwSendPacketCount s \<and>
     m_OverLappedSendFree t = m_OverLappedSendFree s \<and> m_OverLappedSendActive t = m_OverLappedSendActive s"
  by (cases s; cases t) (simp add: core_def)

text \<open>Asking for bytes and answering the handshake; the messages that have been read.\<close>

definition quiet :: "io_action \<Rightarrow> bool" where
  "quiet a = (case a of WSARecv \<Rightarrow> True | SendResponse _ \<Rightarrow> True | _ \<Rightarrow> False)"

definition is_read :: "uint32 \<Rightarrow> item_call \<Rightarrow> bool" where
  "is_read i c = (case c of OnSocketReadEvent j _ _ \<Rightarrow> j = i | _ \<Rightarrow> False)"

definition after_reads :: "socket_item \<Rightarrow> socket_item \<Rightarrow> bool" where
  "after_reads s t \<longleftrightarrow> core t = core s \<and> \<not> m_bRecvIng t \<and>
     (\<exists>rs. calls t = calls s @ rs \<and> list_all (is_read (GetSocketID s)) rs) \<and> (\<exists>as. io t = io s @ as \<and> list_all quiet as)"

lemma after_reads_refl: "\<not> m_bRecvIng s \<Longrightarrow> after_reads s s"
  by (simp add: after_reads_def)

lemma after_reads_id: "after_reads s t \<Longrightarrow> GetSocketID t = GetSocketID s"
  by (simp add: after_reads_def core_eq GetSocketID_def)

lemma after_reads_trans: "after_reads s t \<Longrightarrow> after_reads t u \<Longrightarrow> after_reads s u"
  using after_reads_id [of s t] by (auto simp: after_reads_def)

lemma after_reads_upd [simp]:
  "after_reads s (t\<lparr>m_cbRecvBuf := b\<rparr>) = after_reads s t" "after_reads s (t\<lparr>m_dwRecvSize := n\<rparr>) = after_reads s t"
  "after_reads s (t\<lparr>m_websocket := w\<rparr>) = after_reads s t" "after_reads s (t\<lparr>m_dwRecvPacketCount := k\<rparr>) = after_reads s t"
  "after_reads s (t\<lparr>m_cbSocketType := ty\<rparr>) = after_reads s t"
  by (simp_all add: after_reads_def core_def)

lemma after_reads_emit: "after_reads s t \<Longrightarrow> quiet a \<Longrightarrow> after_reads s (emit a t)"
  by (auto simp: after_reads_def core_def)

lemma after_reads_notify: "after_reads s t \<Longrightarrow> is_read (GetSocketID s) c \<Longrightarrow> after_reads s (notify c t)"
  by (auto simp: after_reads_def core_def)

lemma recv_command_after:
  assumes "recv_command c xs s = Inr t" "\<not> m_bRecvIng s"
  shows "after_reads s t"
  using assms by (auto simp: recv_command_def is_read_def intro: after_reads_refl after_reads_notify split: if_splits)

lemma recv_packet_after:
  assumes "recv_packet cb s = Some (r, cb', t)" "\<not> m_bRecvIng s"
  shows "after_reads s t"
proof -
  have a: "after_reads s (s\<lparr>m_dwRecvPacketCount := k\<rparr>)" for k using assms(2) by (simp add: after_reads_refl)
  have b: "recv_command c xs (s\<lparr>m_dwRecvPacketCount := k\<rparr>) = Inr u \<Longrightarrow> after_reads s u" for c xs k u
    using after_reads_trans [OF a recv_command_after] assms(2) by simp
  show ?thesis using assms by (auto simp: recv_packet_def Let_def after_reads_refl dest!: b split: if_splits bind_splits sum.splits prod.splits)
qed

lemma recv_loop_after:
  "recv_loop cb s = Some (e, t) \<Longrightarrow> \<not> m_bRecvIng s \<Longrightarrow> after_reads s t"
proof (induction cb s rule: recv_loop.induct)
  case (1 cb s)
  obtain r cb' u where r: "recv_packet cb s = Some (r, cb', u)"
    using "1.prems"(1) by (subst (asm) recv_loop.simps) (auto split: option.splits)
  note u = recv_packet_after [OF r "1.prems"(2)]
  then have nu: "\<not> m_bRecvIng u" by (simp add: after_reads_def)
  show ?case
  proof (cases r)
    case LoopNext
    then have "recv_loop cb' u = Some (e, t)" using "1.prems"(1) r by (subst (asm) recv_loop.simps) simp
    then show ?thesis using "1.IH" [OF r refl LoopNext refl _ nu] after_reads_trans [OF u] by blast
  qed (use "1.prems"(1) r u in \<open>(subst (asm) recv_loop.simps, auto)+\<close>)
qed

text \<open>Every completed reception ends with the next one under way, or with the connection closed.\<close>

definition recv_done :: "socket_item \<Rightarrow> socket_item \<Rightarrow> bool" where
  "recv_done s s' \<longleftrightarrow> (\<exists>t. after_reads s t \<and> (s' = t\<lparr>m_bRecvIng := True\<rparr> \<or> s' = snd (CloseSocket (m_wRountID t) t)))"

lemma recv_done_trans: "after_reads s t \<Longrightarrow> recv_done t s' \<Longrightarrow> recv_done s s'"
  unfolding recv_done_def using after_reads_trans by blast

lemma recv_done_close: "after_reads s t \<Longrightarrow> m_wRountID t = r \<Longrightarrow> recv_done s (snd (CloseSocket r t))"
  unfolding recv_done_def by blast

lemma after_reads_keeps:
  assumes "after_reads s t"
  shows "m_bCloseIng t = m_bCloseIng s" "\<not> m_bRecvIng t" "m_wRountID t = m_wRountID s"
  using assms by (simp_all add: after_reads_def core_eq)

lemma RecvData_done:
  assumes "after_reads s t" "\<not> m_bCloseIng s"
  shows "recv_done s (snd (RecvData ok t))"
proof -
  let ?t = "(emit WSARecv t)\<lparr>m_bRecvIng := False\<rparr>"
  have "after_reads t ?t" by (simp add: after_reads_def core_def quiet_def)
  then have "after_reads s ?t" by (rule after_reads_trans [OF assms(1)])
  moreover have "\<not> m_bCloseIng t" using assms by (simp add: after_reads_keeps)
  ultimately show ?thesis unfolding recv_done_def by (intro exI [of _ ?t]) (simp add: RecvData_def Let_def)
qed

lemma recv_packets_done:
  assumes "recv_packets cb ok t = Some (r, s')" "after_reads s t" "\<not> m_bCloseIng s"
  shows "recv_done s s'"
proof -
  obtain e u where u: "recv_loop cb t = Some (e, u)" "(r, s') = (case e of None \<Rightarrow> RecvData ok u | Some _ \<Rightarrow> (False, snd (CloseSocket (m_wRountID u) u)))"
    using assms(1) by (auto simp: recv_packets_def split: bind_splits)
  have a: "after_reads s u"
    using after_reads_trans [OF assms(2) recv_loop_after [OF u(1)]] assms(2) by (simp add: after_reads_keeps)
  show ?thesis
  proof (cases e)
    case None
    then show ?thesis using RecvData_done [OF a assms(3), of ok] u(2) by (cases "RecvData ok u") auto
  next
    case (Some _)
    then show ?thesis using u(2) recv_done_close [OF a refl] by simp
  qed
qed

lemma recv_web_done:
  assumes "recv_web xs cb ok s = Some (r, s')" "\<not> m_bCloseIng s" "\<not> m_bRecvIng s"
  shows "recv_done s s'"
  using assms after_reads_refl [OF assms(3)] RecvData_done [of s _ ok] unfolding recv_web_def
  by (auto simp: Let_def dest!: arg_cong [of _ _ snd] elim!: recv_packets_done intro!: recv_done_close split: if_splits bind_splits prod.splits)

lemma recv_tcp_done:
  assumes "recv_tcp xs cb resp_ok ok s = Some (r, s')" "\<not> m_bCloseIng s" "\<not> m_bRecvIng s"
  shows "recv_done s s'"
proof -
  have a: "after_reads s (emit (SendResponse resp) (s\<lparr>m_cbRecvBuf := b, m_websocket := w\<rparr>))" for resp b w
    using assms(3) by (simp add: after_reads_def core_def quiet_def)
  have rd: "after_reads s t \<Longrightarrow> RecvData ok t = (r, s') \<Longrightarrow> recv_done s s'" for t using RecvData_done [of s t ok] assms(2) by simp
  show ?thesis
    using assms a after_reads_refl [OF assms(3)] unfolding recv_tcp_def
    by (auto simp: Let_def elim!: recv_packets_done rd [rotated] intro!: recv_done_close split: if_splits bind_splits prod.splits)
qed

lemma OnRecvCompleted_done:
  assumes "OnRecvCompleted xs tick cb resp_ok ok s = Some (r, s')" "\<not> m_bCloseIng s"
  shows "m_hSocket s \<noteq> None \<Longrightarrow> recv_done s s'"
    and "m_hSocket s = None \<Longrightarrow> \<exists>t. after_reads s t \<and> s' = snd (CloseSocket (m_wRountID t) t)"
proof -
  let ?s = "s\<lparr>m_bRecvIng := False, m_dwRecvTickCount := tick\<rparr>"
  have a: "after_reads s ?s" by (simp add: after_reads_def core_def)
  show "recv_done s s'" if "m_hSocket s \<noteq> None"
  proof (cases "m_cbSocketType s = eSocketType_WebSocket")
    case True
    then have "recv_web xs cb ok ?s = Some (r, s')" using assms(1) that by (auto simp: OnRecvCompleted_def Let_def)
    then show ?thesis using recv_done_trans [OF a recv_web_done] assms(2) by simp
  next
    case False
    then have "recv_tcp xs cb resp_ok ok ?s = Some (r, s')" using assms(1) that by (auto simp: OnRecvCompleted_def Let_def)
    then show ?thesis using recv_done_trans [OF a recv_tcp_done] assms(2) by simp
  qed
  show "\<exists>t. after_reads s t \<and> s' = snd (CloseSocket (m_wRountID t) t)" if "m_hSocket s = None"
    using assms(1) that a by (intro exI [of _ ?s]) (simp add: OnRecvCompleted_def Let_def)
qed

section \<open>The steps of an item\<close>

text \<open>An item is free as long as its last session, if any, has been reported closed. The acceptor attaches a free item and asks
  for the first bytes; the completions arrive for what is in flight; everything else may be called at any time. The
  outcomes of the socket calls are arbitrary.\<close>

inductive item_step :: "socket_item \<Rightarrow> socket_item \<Rightarrow> bool" where
  accept: "m_bNotify s \<Longrightarrow> item_step s (snd (RecvData ok (Attach h addr tick now s)))"
| send_command: "SendCommand fresh ok c r s = Some (res, s') \<Longrightarrow> item_step s s'"
| send_data: "SendData fresh ok pData n c r s = Some (res, s') \<Longrightarrow> item_step s s'"
| sent: "m_OverLappedSendActive s \<noteq> [] \<Longrightarrow> OnSendCompleted n tick ok s = Some (res, s') \<Longrightarrow> item_step s s'"
| received: "m_bRecvIng s \<Longrightarrow> OnRecvCompleted xs tick cb resp_ok ok s = Some (res, s') \<Longrightarrow> item_step s s'"
| close: "item_step s (snd (CloseSocket r s))"
| shut_down: "item_step s (snd (ShutDownSocket r s))"
| allow_batch: "item_step s (snd (AllowBatchSend r allow s))"

text \<open>What the sink has seen: sessions one after the other, each one accepted, read from and closed, under one identifier. The result
  is the identifiers of the closed sessions and that of the session that is open.\<close>

fun sink_view :: "item_call list \<Rightarrow> uint32 list \<times> uint32 option \<Rightarrow> (uint32 list \<times> uint32 option) option" where
  "sink_view [] v = Some v"
| "sink_view (OnSocketAcceptEvent i a # cs) (ids, None) = sink_view cs (ids, Some i)"
| "sink_view (OnSocketReadEvent i c xs # cs) (ids, Some j) = (if i = j then sink_view cs (ids, Some j) else None)"
| "sink_view (OnSocketCloseEvent i a t # cs) (ids, Some j) = (if i = j then sink_view cs (ids @ [i], None) else None)"
| "sink_view _ _ = None"

lemma sink_view_append: "sink_view (cs @ ds) v = Option.bind (sink_view cs v) (sink_view ds)"
  by (induction cs v rule: sink_view.induct) auto

lemma sink_view_reads: "list_all (is_read j) cs \<Longrightarrow> sink_view cs (ids, Some j) = Some (ids, Some j)"
  by (induction cs) (auto simp: is_read_def split: item_call.splits)

text \<open>The identifier of the session after \<open>n\<close> resets of the item with index \<open>w\<close>. The numbers of the sessions grow.\<close>

definition session_id :: "uint16 \<Rightarrow> nat \<Rightarrow> uint32" where
  "session_id w n = MAKELONG w (1 + of_nat n)"

definition session_view :: "uint16 \<Rightarrow> socket_item \<Rightarrow> bool" where
  "session_view w s \<longleftrightarrow> m_wIndex s = w \<and> (\<exists>js n. sorted_wrt (<) (js @ [n]) \<and> m_wRountID s = 1 + of_nat n \<and>
     sink_view (calls s) ([], None) = Some (map (session_id w) js, if m_bNotify s then None else Some (session_id w n)))"

text \<open>The invariant: a free item has nothing in flight; an open one is always receiving; one that is closing waits for something
  that is in flight.\<close>

definition may_close :: "socket_item \<Rightarrow> bool" where
  "may_close s \<longleftrightarrow> \<not> m_bCloseIng s \<and>
     (m_bNotify s \<longrightarrow> m_hSocket s = None \<and> \<not> m_bRecvIng s \<and> m_OverLappedSendActive s = [] \<and> m_dwRecvPacketCount s = 0)"

definition item_inv :: "socket_item \<Rightarrow> bool" where
  "item_inv s \<longleftrightarrow> may_close s \<and> (\<not> m_bNotify s \<longrightarrow> (if m_hSocket s \<noteq> None then m_bRecvIng s else m_bRecvIng s \<or> m_OverLappedSendActive s \<noteq> []))"

lemma CloseSocket_inv: "may_close s \<Longrightarrow> item_inv (snd (CloseSocket (m_wRountID s) s))"
  by (auto simp: may_close_def item_inv_def CloseSocket_def OnCloseCompleted_def ResetSocketData_def Let_def)

lemma OnCloseCompleted_view: "session_view w s \<Longrightarrow> session_view w (OnCloseCompleted s)"
proof -
  assume "session_view w s"
  then obtain js n where js: "m_wIndex s = w" "sorted_wrt (<) (js @ [n])" "m_wRountID s = 1 + of_nat n"
      "sink_view (calls s) ([], None) = Some (map (session_id w) js, if m_bNotify s then None else Some (session_id w n))"
    unfolding session_view_def by blast
  have id: "GetSocketID s = session_id w n" using js by (simp add: GetSocketID_def session_id_def)
  have lt: "sorted_wrt (<) (js @ [n] @ [Suc n])" "sorted_wrt (<) (js @ [Suc n])" using js(2) by (auto simp: sorted_wrt_append)
  show ?thesis
  proof (cases "m_bNotify s")
    case True
    then show ?thesis using js lt unfolding session_view_def OnCloseCompleted_def ResetSocketData_def
      by (intro conjI exI [of _ js] exI [of _ "Suc n"]) (simp_all add: add.commute)
  next
    case False
    then show ?thesis using js lt id unfolding session_view_def OnCloseCompleted_def ResetSocketData_def
      by (intro conjI exI [of _ "js @ [n]"] exI [of _ "Suc n"]) (simp_all add: add.commute sink_view_append)
  qed
qed

lemma CloseSocket_view: "session_view w s \<Longrightarrow> session_view w (snd (CloseSocket r s))"
proof -
  assume "session_view w s"
  then have "session_view w ((emit CloseHandle s)\<lparr>m_hSocket := None\<rparr>)" by (simp add: session_view_def)
  with \<open>session_view w s\<close> show ?thesis by (auto simp: CloseSocket_def Let_def intro: OnCloseCompleted_view)
qed

lemma after_reads_view:
  assumes "after_reads s t" "session_view w s" "\<not> m_bNotify s"
  shows "session_view w t" "session_view w (t\<lparr>m_bRecvIng := b\<rparr>)"
proof -
  obtain js n rs where js: "m_wIndex s = w" "sorted_wrt (<) (js @ [n])" "m_wRountID s = 1 + of_nat n"
      "sink_view (calls s) ([], None) = Some (map (session_id w) js, Some (session_id w n))"
      "calls t = calls s @ rs" "list_all (is_read (GetSocketID s)) rs"
    using assms unfolding session_view_def after_reads_def by auto
  have "GetSocketID s = session_id w n" using js by (simp add: GetSocketID_def session_id_def)
  then have "sink_view (calls t) ([], None) = Some (map (session_id w) js, Some (session_id w n))"
    using js by (simp add: sink_view_append sink_view_reads)
  then show "session_view w t" using assms js by (auto simp: session_view_def after_reads_def core_eq)
  then show "session_view w (t\<lparr>m_bRecvIng := b\<rparr>)" by (simp add: session_view_def)
qed

text \<open>Sending touches the structures and the record of what was sent.\<close>

definition send_core :: "socket_item \<Rightarrow> socket_item" where
  "send_core s = s\<lparr>m_OverLappedSendFree := [], m_OverLappedSendActive := [], m_dwSendTickCount := 0, m_dwSendPacketCount := 0, io := []\<rparr>"

lemma send_core_eq:
  "send_core t = send_core s \<longleftrightarrow> m_wIndex t = m_wIndex s \<and> m_dwClientAddr t = m_dwClientAddr s \<and> m_dwConnectTime t = m_dwConnectTime s \<and>
     m_wRountID t = m_wRountID s \<and> m_hSocket t = m_hSocket s \<and> m_bNotify t = m_bNotify s \<and> m_bCloseIng t = m_bCloseIng s \<and>
     m_bRecvIng t = m_bRecvIng s \<and> m_bAllowBatch t = m_bAllowBatch s \<and> m_cbSocketType t = m_cbSocketType s \<and>
     m_dwRecvSize t = m_dwRecvSize s \<and> m_cbRecvBuf t = m_cbRecvBuf s \<and> m_dwRecvTickCount t = m_dwRecvTickCount s \<and>
     m_dwRecvPacketCount t = m_dwRecvPacketCount s \<and> m_websocket t = m_websocket s \<and> calls t = calls s"
  by (cases s; cases t) (auto simp add: send_core_def)

lemma send_core_view: "send_core t = send_core s \<Longrightarrow> session_view w s \<Longrightarrow> session_view w t"
  by (simp add: send_core_eq session_view_def)

definition send_done :: "socket_item \<Rightarrow> socket_item \<Rightarrow> bool" where
  "send_done s s' \<longleftrightarrow> (\<exists>t. send_core t = send_core s \<and> (s' = t \<and> m_hSocket s \<noteq> None \<or> s' = snd (CloseSocket (m_wRountID t) t)))"

lemma send_done_open: "send_core t = send_core s \<Longrightarrow> m_hSocket s \<noteq> None \<Longrightarrow> send_done s t"
  unfolding send_done_def by blast

lemma send_done_close: "send_core t = send_core s \<Longrightarrow> m_wRountID t = r \<Longrightarrow> send_done s (snd (CloseSocket r t))"
  unfolding send_done_def by blast

lemma send_done_trans: "send_core t = send_core s \<Longrightarrow> send_done t s' \<Longrightarrow> send_done s s'"
  unfolding send_done_def by (metis send_core_eq)

lemma OnSendCompleted_done:
  assumes "OnSendCompleted n tick ok s = Some (r, s')" "\<not> m_bCloseIng s"
  shows "send_done s s'"
  using assms unfolding OnSendCompleted_def
  by (auto simp: Let_def send_core_eq wsa_send_def split: list.splits if_splits intro!: send_done_open send_done_close)

lemma send_filled_done:
  assumes "send_filled p ok s = Some (r, s')" "\<not> m_bCloseIng s" "m_hSocket s \<noteq> None"
  shows "send_done s s'"
proof -
  obtain t where t: "t = s\<lparr>m_OverLappedSendActive := butlast (m_OverLappedSendActive s) @ [p], m_dwSendPacketCount := m_dwSendPacketCount s + 1\<rparr>" by blast
  have c: "send_core t = send_core s" "send_core (wsa_send p t) = send_core s" by (simp_all add: t send_core_def wsa_send_def)
  have nc: "\<not> m_bCloseIng (wsa_send p t)" using assms(2) by (simp add: t wsa_send_def)
  then show ?thesis using assms(1,3) c unfolding send_filled_def t [symmetric] Let_def
    by (auto split: if_splits dest!: OnSendCompleted_done [OF _ nc] intro: send_done_open send_done_trans)
qed

lemma GetSendOverLapped_core: "GetSendOverLapped fresh s = Some (p, t) \<Longrightarrow> send_core t = send_core s"
  by (auto simp: GetSendOverLapped_def Let_def send_core_def split: if_splits)

lemma SendCommand_done:
  assumes "SendCommand fresh ok c r s = Some (res, s')"
  shows "s' = s \<or> m_hSocket s \<noteq> None \<and> send_done s s'"
proof (cases "may_send r s")
  case True
  then have m: "\<not> m_bCloseIng s" "m_hSocket s \<noteq> None" by (simp_all add: may_send_def)
  show ?thesis using assms m True unfolding SendCommand_def
    by (auto split: option.splits bind_splits prod.splits dest!: GetSendOverLapped_core send_filled_done intro: send_done_trans simp: send_core_eq)
qed (use assms in \<open>simp add: SendCommand_def\<close>)

lemma SendData_done:
  assumes "SendData fresh ok pData n c r s = Some (res, s')"
  shows "s' = s \<or> m_hSocket s \<noteq> None \<and> send_done s s'"
proof (cases "may_send r s")
  case True
  then have m: "\<not> m_bCloseIng s" "m_hSocket s \<noteq> None" by (simp_all add: may_send_def)
  show ?thesis using assms m True unfolding SendData_def
    by (auto split: if_splits option.splits bind_splits prod.splits dest!: GetSendOverLapped_core send_filled_done intro: send_done_trans simp: send_core_eq)
qed (use assms in \<open>simp add: SendData_def\<close>)

lemma send_done_inv:
  assumes "send_done s s'" "item_inv s" "session_view w s" "\<not> m_bNotify s"
  shows "item_inv s' \<and> session_view w s'"
proof -
  obtain t where t: "send_core t = send_core s" "s' = t \<and> m_hSocket s \<noteq> None \<or> s' = snd (CloseSocket (m_wRountID t) t)"
    using assms(1) unfolding send_done_def by blast
  have "may_close t" using t(1) assms(2,4) by (simp add: send_core_eq item_inv_def may_close_def)
  moreover have "session_view w t" by (rule send_core_view [OF t(1) assms(3)])
  moreover have "item_inv t" if "m_hSocket s \<noteq> None"
    using t(1) assms(2,4) that \<open>may_close t\<close> by (simp add: send_core_eq item_inv_def)
  ultimately show ?thesis using t(2) CloseSocket_inv CloseSocket_view by blast
qed

lemma recv_done_inv:
  assumes "recv_done s s'" "\<not> m_bCloseIng s" "session_view w s" "\<not> m_bNotify s" "m_hSocket s \<noteq> None"
  shows "item_inv s' \<and> session_view w s'"
proof -
  obtain t where t: "after_reads s t" "s' = t\<lparr>m_bRecvIng := True\<rparr> \<or> s' = snd (CloseSocket (m_wRountID t) t)"
    using assms(1) unfolding recv_done_def by blast
  have "may_close t" "item_inv (t\<lparr>m_bRecvIng := True\<rparr>)" using t(1) assms by (auto simp: after_reads_def core_eq item_inv_def may_close_def)
  then show ?thesis using t(2) after_reads_view [OF t(1) assms(3,4)] CloseSocket_inv CloseSocket_view by blast
qed

lemma Attach_view:
  assumes "session_view w s" "m_bNotify s"
  shows "session_view w (Attach h a tick now s)"
proof -
  obtain js n where "m_wIndex s = w" "sorted_wrt (<) (js @ [n])" "m_wRountID s = 1 + of_nat n" "sink_view (calls s) ([], None) = Some (map (session_id w) js, None)"
    using assms unfolding session_view_def by auto
  then show ?thesis unfolding session_view_def Attach_def Let_def
    by (intro conjI exI [of _ js] exI [of _ n]) (simp_all add: sink_view_append GetSocketID_def session_id_def)
qed

lemma item_step_inv:
  assumes "item_step s s'" "item_inv s" "session_view w s"
  shows "item_inv s' \<and> session_view w s'"
  using assms
proof (induction rule: item_step.induct)
  case (accept s ok h addr tick now)
  let ?s = "Attach h addr tick now s"
  have f: "\<not> m_bCloseIng ?s" "\<not> m_bRecvIng ?s" "\<not> m_bNotify ?s" "m_hSocket ?s \<noteq> None" by (simp_all add: Attach_def Let_def)
  show ?case using recv_done_inv [OF RecvData_done [OF after_reads_refl [OF f(2)] f(1)] f(1) Attach_view f(3,4)] accept by blast
next
  case (send_command fresh ok c r s res s')
  then show ?case using SendCommand_done send_done_inv by (metis item_inv_def may_close_def)
next
  case (send_data fresh ok pData n c r s res s')
  then show ?case using SendData_done send_done_inv by (metis item_inv_def may_close_def)
next
  case (sent s n tick ok res s')
  then show ?case using OnSendCompleted_done send_done_inv by (metis item_inv_def may_close_def)
next
  case (received s xs tick cb resp_ok ok res s')
  then have f: "\<not> m_bCloseIng s" "\<not> m_bNotify s" by (auto simp: item_inv_def may_close_def)
  show ?case
  proof (cases "m_hSocket s = None")
    case True
    then obtain t where t: "after_reads s t" "s' = snd (CloseSocket (m_wRountID t) t)"
      using OnRecvCompleted_done(2) [OF received(2) f(1)] by blast
    moreover have "may_close t" using t(1) f by (simp add: may_close_def after_reads_def core_eq)
    ultimately show ?thesis using CloseSocket_inv CloseSocket_view after_reads_view received f(2) by blast
  next
    case False
    then show ?thesis using recv_done_inv OnRecvCompleted_done(1) received f by blast
  qed
next
  case (close s r)
  then have "item_inv (snd (CloseSocket r s))"
    using CloseSocket_inv [of s] by (cases "r = m_wRountID s") (simp add: item_inv_def, simp add: CloseSocket_def)
  then show ?case using close CloseSocket_view by blast
next
  case (shut_down s r)
  then show ?case by (simp add: ShutDownSocket_def)
next
  case (allow_batch s r allow)
  have "item_inv (s\<lparr>m_bAllowBatch := allow\<rparr>) = item_inv s" "session_view w (s\<lparr>m_bAllowBatch := allow\<rparr>) = session_view w s"
    by (simp_all add: item_inv_def may_close_def session_view_def)
  then show ?case using allow_batch by (simp add: AllowBatchSend_def)
qed

section \<open>Sessions\<close>

lemma fresh_item: "item_inv (CServerSocketItem buf w)" "session_view w (CServerSocketItem buf w)"
proof -
  show "item_inv (CServerSocketItem buf w)" by (simp add: item_inv_def may_close_def CServerSocketItem_def)
  show "session_view w (CServerSocketItem buf w)" unfolding session_view_def
    by (intro conjI exI [of _ "[]"] exI [of _ 0]) (simp_all add: CServerSocketItem_def)
qed

lemma item_reachable:
  assumes "item_step\<^sup>*\<^sup>* (CServerSocketItem buf w) s"
  shows "item_inv s \<and> session_view w s"
  using assms by (induction rule: rtranclp_induct) (auto simp: fresh_item dest: item_step_inv)



section \<open>The order of the packets\<close>

text \<open>The bytes of a structure, and the transmissions of an item.\<close>

definition packet :: "overlapped_send \<Rightarrow> byte list" where
  "packet p = take (unat (ol_len p)) (ol_cbBuffer p)"

definition sends :: "io_action list \<Rightarrow> byte list list" where
  "sends as = concat (map (\<lambda>a. case a of WSASend b \<Rightarrow> [b] | _ \<Rightarrow> []) as)"

lemma sends_simps [simp]: "sends [] = []" "sends (as @ bs) = sends as @ sends bs" "sends (WSASend b # as) = b # sends as"
  by (simp_all add: sends_def)

lemma sends_quiet: "list_all quiet as \<Longrightarrow> sends as = []"
  by (induction as) (auto simp: sends_def quiet_def split: io_action.splits)

definition buffers_ok :: "socket_item \<Rightarrow> bool" where
  "buffers_ok s \<longleftrightarrow> list_all (\<lambda>p. length (ol_cbBuffer p) = SOCKET_TCP_BUFFER) (m_OverLappedSendFree s)"

text \<open>What \<open>SendData\<close> puts into a structure is the mapped packet of the message, and the data that does not fit is outside the buffer.\<close>

lemma fill_tcp_wire:
  assumes "length (ol_cbBuffer p) = SOCKET_TCP_BUFFER" "length xs = unat n" "8 + length xs \<le> SOCKET_TCP_BUFFER"
  shows "\<exists>q. fill_tcp c xs n p = Some q \<and> packet q = wire c xs \<and> length (ol_cbBuffer q) = SOCKET_TCP_BUFFER"
proof -
  obtain N :: uint16 and r where "build_packet c xs n (ol_cbBuffer p) = Some (N, wire c xs @ r)" "length (wire c xs @ r) = SOCKET_TCP_BUFFER"
      "unat N = 8 + length xs" using build_packet_wire [OF assms, of c] by blast
  then show ?thesis by (simp add: fill_tcp_def packet_def unat_ucast16)
qed

text \<open>A connection that stays open while messages are handed to it, transmissions complete and bytes arrive, in any order: \<open>ps\<close> are the
  packets of the messages that were accepted, \<open>d\<close> the number of completions.\<close>

inductive sending :: "socket_item \<Rightarrow> byte list list \<Rightarrow> nat \<Rightarrow> socket_item \<Rightarrow> bool" for s where
  start: "m_OverLappedSendActive s = [] \<Longrightarrow> buffers_ok s \<Longrightarrow> \<not> m_bCloseIng s \<Longrightarrow> sending s [] 0 s"
| send: "sending s ps d t \<Longrightarrow> m_cbSocketType t = eSocketType_TCP \<Longrightarrow> length (ol_cbBuffer f) = SOCKET_TCP_BUFFER \<Longrightarrow>
    SendData (Some f) True pData n c r t = Some (True, u) \<Longrightarrow> sending s (ps @ [wire c (take (unat n) pData)]) d u"
| refuse: "sending s ps d t \<Longrightarrow> m_cbSocketType t = eSocketType_TCP \<Longrightarrow> length (ol_cbBuffer f) = SOCKET_TCP_BUFFER \<Longrightarrow>
    SendData (Some f) True pData n c r t = Some (False, u) \<Longrightarrow> sending s ps d u"
| sent: "sending s ps d t \<Longrightarrow> m_OverLappedSendActive t \<noteq> [] \<Longrightarrow> m_hSocket t \<noteq> None \<Longrightarrow>
    OnSendCompleted k tick True t = Some (res, u) \<Longrightarrow> sending s ps (Suc d) u"
| received: "sending s ps d t \<Longrightarrow> OnRecvCompleted xs tick cb resp_ok ok t = Some (res, u) \<Longrightarrow> m_hSocket u \<noteq> None \<Longrightarrow> sending s ps d u"

definition send_inv :: "socket_item \<Rightarrow> byte list list \<Rightarrow> nat \<Rightarrow> socket_item \<Rightarrow> bool" where
  "send_inv s ps d t \<longleftrightarrow> buffers_ok t \<and> \<not> m_bCloseIng t \<and> list_all (\<lambda>p. length (ol_cbBuffer p) = SOCKET_TCP_BUFFER) (m_OverLappedSendActive t) \<and>
     map packet (m_OverLappedSendActive t) = drop d ps \<and> d \<le> length ps \<and>
     sends (io t) = sends (io s) @ take (if m_OverLappedSendActive t = [] then d else Suc d) ps"

lemma SendData_queues:
  assumes "SendData (Some f) True pData n c r t = Some (res, u)" "m_cbSocketType t = eSocketType_TCP" "length (ol_cbBuffer f) = SOCKET_TCP_BUFFER" "buffers_ok t"
  shows "if res then \<exists>p fs k. packet p = wire c (take (unat n) pData) \<and> length (ol_cbBuffer p) = SOCKET_TCP_BUFFER \<and>
      list_all (\<lambda>p. length (ol_cbBuffer p) = SOCKET_TCP_BUFFER) fs \<and>
      u = t\<lparr>m_OverLappedSendFree := fs, m_OverLappedSendActive := m_OverLappedSendActive t @ [p], m_dwSendPacketCount := k,
        io := io t @ (if m_OverLappedSendActive t = [] then [WSASend (packet p)] else [])\<rparr>
    else u = t"
proof (cases "\<not> may_send r t \<or> unat n > SOCKET_TCP_BUFFER")
  case True
  then show ?thesis using assms(1) by (auto simp: SendData_def)
next
  case False
  obtain q fs where g: "GetSendOverLapped (Some f) t = Some (q, t\<lparr>m_OverLappedSendFree := fs, m_OverLappedSendActive := m_OverLappedSendActive t @ [q]\<rparr>)"
      "length (ol_cbBuffer q) = SOCKET_TCP_BUFFER" "list_all (\<lambda>p. length (ol_cbBuffer p) = SOCKET_TCP_BUFFER) fs"
  proof (cases "m_OverLappedSendFree t = []")
    case True
    then show ?thesis using that [of f "[]"] assms(3) by (simp add: GetSendOverLapped_def)
  next
    case False
    then have "length (ol_cbBuffer (last (m_OverLappedSendFree t))) = SOCKET_TCP_BUFFER"
        "list_all (\<lambda>p. length (ol_cbBuffer p) = SOCKET_TCP_BUFFER) (butlast (m_OverLappedSendFree t))"
      using assms(4) by (auto simp: buffers_ok_def list_all_iff dest: in_set_butlastD)
    then show ?thesis using that [of "last (m_OverLappedSendFree t)" "butlast (m_OverLappedSendFree t)"] False by (simp add: GetSendOverLapped_def Let_def)
  qed
  let ?t = "t\<lparr>m_OverLappedSendFree := fs, m_OverLappedSendActive := m_OverLappedSendActive t @ [q]\<rparr>"
  obtain xs p where x: "mem_read 0 (unat n) pData = Some xs" "fill_tcp c xs n q = Some p" "send_filled p True ?t = Some (res, u)"
    using assms(1,2) False g(1) by (auto simp: SendData_def split: bind_splits)
  have xs: "xs = take (unat n) pData" "length xs = unat n" using x(1) by (auto simp: mem_read_def split: if_splits)
  have "8 + length xs \<le> SOCKET_TCP_BUFFER"
  proof (rule ccontr)
    assume "\<not> 8 + length xs \<le> SOCKET_TCP_BUFFER"
    then have "fill_tcp c xs n q = None" using build_packet_overflow [OF g(2) xs(2)] by (simp add: fill_tcp_def)
    then show False using x(2) by simp
  qed
  then have p: "packet p = wire c xs" "length (ol_cbBuffer p) = SOCKET_TCP_BUFFER" using fill_tcp_wire [OF g(2) xs(2), of c] x(2) by auto
  have r: "res" "u = t\<lparr>m_OverLappedSendFree := fs, m_OverLappedSendActive := m_OverLappedSendActive t @ [p], m_dwSendPacketCount := m_dwSendPacketCount t + 1,
      io := io t @ (if m_OverLappedSendActive t = [] then [WSASend (packet p)] else [])\<rparr>"
    using x(3) by (auto simp: send_filled_def Let_def wsa_send_def packet_def split: if_splits)
  show ?thesis unfolding if_P [OF r(1)] using r(2) p g(3) xs(1) by blast
qed

lemma OnSendCompleted_next:
  assumes "OnSendCompleted k tick True t = Some (res, u)" "m_hSocket t \<noteq> None" "\<not> m_bCloseIng t" "m_OverLappedSendActive t = p # ps"
  shows "\<exists>tc. u = t\<lparr>m_OverLappedSendFree := m_OverLappedSendFree t @ [p], m_OverLappedSendActive := ps, m_dwSendTickCount := tc,
    io := io t @ (case ps of [] \<Rightarrow> [] | q # _ \<Rightarrow> [WSASend (packet q)])\<rparr>"
proof -
  let ?tc = "if k \<noteq> 0 then tick else m_dwSendTickCount t"
  obtain h where "m_hSocket t = Some h" using assms(2) by blast
  then show ?thesis using assms(1,3,4) unfolding OnSendCompleted_def
    by (intro exI [of _ ?tc]) (cases "k = 0"; cases ps; auto simp: Let_def wsa_send_def packet_def)
qed

lemma sending_inv: "sending s ps d t \<Longrightarrow> send_inv s ps d t"
proof (induction rule: sending.induct)
  case start
  then show ?case by (simp add: send_inv_def)
next
  case (send ps d t f pData n c r u)
  then have "buffers_ok t" "m_OverLappedSendActive t \<noteq> [] \<longrightarrow> d < length ps"
    by (simp_all add: send_inv_def) (metis drop_all linorder_not_le list.map_disc_iff)
  then show ?case using SendData_queues [OF send(4,2,3)] send(5) unfolding send_inv_def buffers_ok_def
    by (cases "m_OverLappedSendActive t = []") (auto simp: Suc_le_eq)
next
  case (refuse ps d t f pData n c r u)
  then show ?case using SendData_queues [OF refuse(4,2,3)] by (auto simp: send_inv_def)
next
  case (sent ps d t k tick res u)
  then obtain p qs where a: "m_OverLappedSendActive t = p # qs" by (cases "m_OverLappedSendActive t") auto
  have i: "buffers_ok t" "\<not> m_bCloseIng t" "length (ol_cbBuffer p) = SOCKET_TCP_BUFFER"
      "list_all (\<lambda>p. length (ol_cbBuffer p) = SOCKET_TCP_BUFFER) qs" "packet p # map packet qs = drop d ps" "d \<le> length ps"
      "sends (io t) = sends (io s) @ take (Suc d) ps" using sent(5) a by (simp_all add: send_inv_def)
  have d: "Suc d \<le> length ps" "map packet qs = drop (Suc d) ps"
    using i(5) by (metis Suc_leI drop_all linorder_not_le list.discI, metis drop_Suc list.sel(3) tl_drop)
  obtain tc where u: "u = t\<lparr>m_OverLappedSendFree := m_OverLappedSendFree t @ [p], m_OverLappedSendActive := qs, m_dwSendTickCount := tc,
      io := io t @ (case qs of [] \<Rightarrow> [] | q # _ \<Rightarrow> [WSASend (packet q)])\<rparr>"
    using OnSendCompleted_next [OF sent(4,3) i(2) a] by blast
  show ?case
  proof (cases qs)
    case Nil
    then show ?thesis using i d u by (simp add: send_inv_def buffers_ok_def)
  next
    case (Cons q qs')
    then have "Suc d < length ps" "ps ! Suc d = packet q" using d by (metis drop_all leI list.map_disc_iff list.discI, metis Cons d(2) drop_all hd_drop_conv_nth leI list.distinct(1) list.sel(1) list.simps(9))
    then show ?thesis using i d u Cons by (simp add: send_inv_def buffers_ok_def take_Suc_conv_app_nth)
  qed
next
  case (received ps d t xs tick cb resp_ok ok res u)
  have nc: "\<not> m_bCloseIng t" using received(4) by (simp add: send_inv_def)
  have cl: "m_hSocket (snd (CloseSocket (m_wRountID v) v)) = None" for v by (rule CloseSocket_effect)
  then have "m_hSocket t \<noteq> None" using OnRecvCompleted_done(2) [OF received(2) nc] received(3) by metis
  then obtain v where v: "after_reads t v" "u = v\<lparr>m_bRecvIng := True\<rparr>"
    using OnRecvCompleted_done(1) [OF received(2) nc] received(3) cl unfolding recv_done_def by metis
  then obtain as where "io u = io t @ as" "list_all quiet as" by (auto simp: after_reads_def)
  then show ?case using received(4) v by (simp add: send_inv_def buffers_ok_def after_reads_def core_eq sends_quiet)
qed

text \<open>Property C14: the packets of a connection go out in the order of the calls of \<open>SendData\<close>, one transmission at a time. Consider
  any interleaving of calls of \<open>SendData\<close>, accepted or refused, completions of transmissions and receptions, on a
  connection of the binary protocol that stays open and whose calls of the socket succeed. After \<open>d\<close> completions the
  first \<open>d\<close> packets and the one in flight have been given to the socket, each once, as the mapped packet of its message, and
  the rest waits in order. When nothing is in flight, everything has been sent.\<close>

theorem send_order:
  assumes "sending s ps d t"
  shows "sends (io t) = sends (io s) @ take (if m_OverLappedSendActive t = [] then d else Suc d) ps \<and>
    map packet (m_OverLappedSendActive t) = drop d ps \<and> (m_OverLappedSendActive t = [] \<longrightarrow> sends (io t) = sends (io s) @ ps)"
  using sending_inv [OF assms] unfolding send_inv_def by (cases "m_OverLappedSendActive t = []") simp_all


text \<open>Two messages, the second one while the first is in flight.\<close>

theorem send_order_witness:
  "\<exists>s t. sending s [wire \<lparr>wMainCmdID = 3, wSubCmdID = 100\<rparr> [1], wire \<lparr>wMainCmdID = 3, wSubCmdID = 101\<rparr> [2, 3]] 1 t \<and>
     sends (io t) = [wire \<lparr>wMainCmdID = 3, wSubCmdID = 100\<rparr> [1], wire \<lparr>wMainCmdID = 3, wSubCmdID = 101\<rparr> [2, 3]]"
proof -
  let ?c = "\<lparr>wMainCmdID = 3, wSubCmdID = 100\<rparr>" and ?d = "\<lparr>wMainCmdID = 3, wSubCmdID = 101\<rparr>"
  obtain s where s: "s = (Attach 1 2 3 4 (CServerSocketItem [] 7))\<lparr>m_dwRecvPacketCount := 1\<rparr>" by blast
  have sf: "m_OverLappedSendActive s = []" "buffers_ok s" "\<not> m_bCloseIng s" "m_cbSocketType s = eSocketType_TCP" "may_send 1 s" "io s = []"
      "m_OverLappedSendFree s = []" "m_hSocket s = Some 1"
    by (simp_all add: s Attach_def CServerSocketItem_def buffers_ok_def may_send_def Let_def)
  obtain f :: overlapped_send where f: "length (ol_cbBuffer f) = SOCKET_TCP_BUFFER"
    by (metis length_replicate overlapped_send.select_convs(2))
  have fits: "8 + length [1 :: byte] \<le> SOCKET_TCP_BUFFER" "8 + length [2 :: byte, 3] \<le> SOCKET_TCP_BUFFER" by (simp_all add: SOCKET_TCP_BUFFER_def)
  obtain p where p: "fill_tcp ?c [1] 1 f = Some p" "packet p = wire ?c [1]" using fill_tcp_wire [OF f _ fits(1), of 1 ?c] by auto
  obtain q where q: "fill_tcp ?d [2, 3] 2 f = Some q" "packet q = wire ?d [2, 3]" using fill_tcp_wire [OF f _ fits(2), of 2 ?d] by auto
  obtain t1 where t1: "t1 = s\<lparr>m_OverLappedSendActive := [p], m_dwSendPacketCount := m_dwSendPacketCount s + 1, io := [WSASend (packet p)]\<rparr>" by blast
  obtain t2 where t2: "t2 = t1\<lparr>m_OverLappedSendActive := [p, q], m_dwSendPacketCount := m_dwSendPacketCount t1 + 1\<rparr>" by blast
  have "SendData (Some f) True [1] 1 ?c 1 s = Some (True, t1)"
    using sf p(1) by (simp add: t1 SendData_def GetSendOverLapped_def mem_read_def send_filled_def wsa_send_def packet_def SOCKET_TCP_BUFFER_def)
  moreover have "may_send 1 t1" using sf(5) by (simp add: t1 may_send_def)
  then have "SendData (Some f) True [2, 3] 2 ?d 1 t1 = Some (True, t2)"
    using sf q(1) by (simp add: t2 t1 SendData_def GetSendOverLapped_def mem_read_def send_filled_def SOCKET_TCP_BUFFER_def)
  ultimately have "sending s [wire ?c (take (unat (1 :: uint16)) [1]), wire ?d (take (unat (2 :: uint16)) [2, 3])] 0 t2"
    using sending.send [OF sending.send [OF sending.start [OF sf(1-3)] sf(4) f], of "[1]" 1 ?c 1 t1 f "[2, 3]" 2 ?d 1 t2] f sf(4) by (simp add: t1)
  then have st: "sending s [wire ?c [1], wire ?d [2, 3]] 0 t2" by simp
  obtain t3 where t3: "OnSendCompleted 9 5 True t2 = Some (True, t3)"
    using sf by (simp add: t2 t1 OnSendCompleted_def Let_def wsa_send_def)
  have "sending s [wire ?c [1], wire ?d [2, 3]] (Suc 0) t3"
    by (rule sending.sent [OF st _ _ t3]) (simp_all add: t2 t1 sf(8))
  then have u: "sending s [wire ?c [1], wire ?d [2, 3]] 1 t3" by simp
  then have "sends (io t3) = [wire ?c [1], wire ?d [2, 3]]" using send_order [OF u] sf(6) by (cases "m_OverLappedSendActive t3 = []") auto
  with u show ?thesis by blast
qed

section \<open>The end of a session\<close>

definition closed_from :: "socket_item \<Rightarrow> socket_item \<Rightarrow> bool" where
  "closed_from s t \<longleftrightarrow> calls t = calls s @ [OnSocketCloseEvent (GetSocketID s) (m_dwClientAddr s) (m_dwConnectTime s)] \<and>
     m_bNotify t \<and> m_hSocket t = None \<and> m_OverLappedSendActive t = [] \<and> m_wRountID t = m_wRountID s + 1"

lemma recv_completes_close:
  assumes "m_hSocket s = None" "m_OverLappedSendActive s = []" "\<not> m_bNotify s"
  shows "\<exists>t. OnRecvCompleted xs tick cb resp_ok ok s = Some (True, t) \<and> closed_from s t"
  using assms by (simp add: OnRecvCompleted_def CloseSocket_def OnCloseCompleted_def ResetSocketData_def closed_from_def GetSocketID_def Let_def)

lemma send_completes_close:
  assumes "m_hSocket s = None" "m_OverLappedSendActive s \<noteq> []" "\<not> m_bRecvIng s" "\<not> m_bNotify s"
  shows "\<exists>t. OnSendCompleted n tick ok s = Some (True, t) \<and> closed_from s t"
  using assms by (cases "m_OverLappedSendActive s"; cases "n = 0")
    (auto simp: OnSendCompleted_def CloseSocket_def OnCloseCompleted_def ResetSocketData_def closed_from_def GetSocketID_def Let_def)

lemma recv_before_send:
  assumes "m_hSocket s = None" "m_OverLappedSendActive s \<noteq> []"
  shows "\<exists>t. OnRecvCompleted xs tick cb resp_ok ok s = Some (True, s\<lparr>m_bRecvIng := False, m_dwRecvTickCount := tick\<rparr>)"
  using assms by (simp add: OnRecvCompleted_def CloseSocket_def Let_def)

lemma send_before_recv:
  assumes "m_hSocket s = None" "m_OverLappedSendActive s \<noteq> []" "m_bRecvIng s"
  shows "\<exists>fs tc. OnSendCompleted n tick ok s = Some (True, s\<lparr>m_OverLappedSendActive := [], m_OverLappedSendFree := fs, m_dwSendTickCount := tc\<rparr>)"
proof -
  obtain p ps where "m_OverLappedSendActive s = p # ps" using assms(2) by (cases "m_OverLappedSendActive s") auto
  then show ?thesis using assms
    by (intro exI [of _ "m_OverLappedSendFree s @ p # ps"] exI [of _ "if n \<noteq> 0 then tick else m_dwSendTickCount s"])
      (simp add: OnSendCompleted_def CloseSocket_def Let_def)
qed

text \<open>Closing comes to an end. When the server closes an open connection, nothing is reported yet; once the reception and the transmission
  that were under way have completed, in either order, the close of this session is reported once, with its identifier, address and
  time, and the item is free and has the next number.\<close>

theorem close_completes:
  assumes "item_step\<^sup>*\<^sup>* (CServerSocketItem buf w) s" "m_hSocket s = Some h" "s' = snd (CloseSocket (m_wRountID s) s)"
  shows "calls s' = calls s \<and> m_bRecvIng s' \<and>
    (if m_OverLappedSendActive s' = [] then \<exists>t. OnRecvCompleted xs tick cb resp_ok ok s' = Some (True, t) \<and> closed_from s t
     else (\<exists>t u. OnRecvCompleted xs tick cb resp_ok ok s' = Some (True, t) \<and> calls t = calls s \<and>
             OnSendCompleted n tick' ok' t = Some (True, u) \<and> closed_from s u) \<and>
          (\<exists>t u. OnSendCompleted n tick' ok' s' = Some (True, t) \<and> calls t = calls s \<and>
             OnRecvCompleted xs tick cb resp_ok ok t = Some (True, u) \<and> closed_from s u))"
proof -
  have i: "m_bRecvIng s" "\<not> m_bNotify s" using item_reachable [OF assms(1)] assms(2) by (auto simp: item_inv_def may_close_def)
  have s': "s' = (emit CloseHandle s)\<lparr>m_hSocket := None\<rparr>" using assms(2,3) i by (simp add: CloseSocket_def Let_def)
  have same: "closed_from s u = closed_from t u" if "calls t = calls s" "GetSocketID t = GetSocketID s" "m_dwClientAddr t = m_dwClientAddr s"
    "m_dwConnectTime t = m_dwConnectTime s" "m_wRountID t = m_wRountID s" for t u using that by (simp add: closed_from_def)
  have f: "m_hSocket s' = None" "m_bRecvIng s'" "\<not> m_bNotify s'" "calls s' = calls s" using i by (simp_all add: s')
  have s1: "closed_from s u = closed_from s' u" for u by (rule same) (simp_all add: s' GetSocketID_def)
  show ?thesis
  proof (cases "m_OverLappedSendActive s' = []")
    case True
    then show ?thesis using f recv_completes_close [OF f(1) True f(3)] s1 by simp
  next
    case False
    let ?t = "s'\<lparr>m_bRecvIng := False, m_dwRecvTickCount := tick\<rparr>"
    have "OnRecvCompleted xs tick cb resp_ok ok s' = Some (True, ?t)" using recv_before_send [OF f(1) False] by simp
    moreover have "closed_from s u = closed_from ?t u" for u by (rule same) (simp_all add: s' GetSocketID_def)
    ultimately have a: "\<exists>t u. OnRecvCompleted xs tick cb resp_ok ok s' = Some (True, t) \<and> calls t = calls s \<and>
        OnSendCompleted n tick' ok' t = Some (True, u) \<and> closed_from s u"
      using send_completes_close [of ?t n tick' ok'] f False by simp
    obtain fs tc where t: "OnSendCompleted n tick' ok' s' = Some (True, s'\<lparr>m_OverLappedSendActive := [], m_OverLappedSendFree := fs, m_dwSendTickCount := tc\<rparr>)"
      using send_before_recv [OF f(1) False f(2)] by blast
    let ?t = "s'\<lparr>m_OverLappedSendActive := [], m_OverLappedSendFree := fs, m_dwSendTickCount := tc\<rparr>"
    have "closed_from s u = closed_from ?t u" for u by (rule same) (simp_all add: s' GetSocketID_def)
    then have "\<exists>u. OnRecvCompleted xs tick cb resp_ok ok ?t = Some (True, u) \<and> closed_from s u"
      using recv_completes_close [of ?t xs tick cb resp_ok ok] f by simp
    then show ?thesis using a t f False by auto
  qed
qed

text \<open>A connection that is closed right after it was accepted.\<close>

theorem close_completes_witness:
  "let s = snd (RecvData True (Attach 5 1 2 3 (CServerSocketItem (replicate WS_BUFFER 0) 7)))
   in \<exists>t. OnRecvCompleted [] 9 [] True True (snd (CloseSocket 1 s)) = Some (True, t) \<and>
     calls t = [OnSocketAcceptEvent (MAKELONG 7 1) 1, OnSocketCloseEvent (MAKELONG 7 1) 1 3] \<and> m_bNotify t"
proof -
  let ?new = "CServerSocketItem (replicate WS_BUFFER 0) 7"
  let ?s = "snd (RecvData True (Attach 5 1 2 3 ?new))"
  have "item_step ?new ?s" by (rule item_step.accept) (simp add: CServerSocketItem_def)
  then have r: "item_step\<^sup>*\<^sup>* ?new ?s" ..
  have f: "m_hSocket ?s = Some 5" "m_wRountID ?s = 1" "calls ?s = [OnSocketAcceptEvent (MAKELONG 7 1) 1]" "m_OverLappedSendActive ?s = []"
      "GetSocketID ?s = MAKELONG 7 1" "m_dwClientAddr ?s = 1" "m_dwConnectTime ?s = 3" "m_OverLappedSendActive (snd (CloseSocket 1 ?s)) = []"
    by (simp_all add: RecvData_def Attach_def CServerSocketItem_def Let_def GetSocketID_def CloseSocket_def)
  show ?thesis using close_completes [OF r f(1) refl, of "[]" 9 "[]" True True 0 0 True] f
    by (simp add: Let_def closed_from_def) blast
qed

end
