(* ===== verification/Tcp_Engine.thy ===== *)
theory Tcp_Engine
  imports Tcp_Session
begin

text \<open>
  The TCP engine, \<open>CTCPNetworkEngine\<close> in \<open>TCPNetworkEngine.cpp\<close>: the pool of connections, the events it posts for them, the requests that
  other threads put into its send queue and the thread of that queue carries out, the accepting, completing and detecting
  threads. A pointer to an item is its position in \<open>m_StorageSocketItem\<close>, in which items are only ever added. The calls
  of an item's sink are carried out after the operation of the item that makes them: they do not touch the item.
  \<open>engine_step\<close> is the interleaving of the threads, one lock at a time.
\<close>

section \<open>The state\<close>

definition TIME_BREAK_READY :: uint32 where "TIME_BREAK_READY = 9000"
definition TIME_BREAK_CONNECT :: uint32 where "TIME_BREAK_CONNECT = 4000"

definition QUEUE_SEND_REQUEST :: uint16 where "QUEUE_SEND_REQUEST = 1"
definition QUEUE_SAFE_CLOSE :: uint16 where "QUEUE_SAFE_CLOSE = 2"
definition QUEUE_ALLOW_BATCH :: uint16 where "QUEUE_ALLOW_BATCH = 3"
definition QUEUE_DETECT_SOCKET :: uint16 where "QUEUE_DETECT_SOCKET = 4"

lemmas queue_ids = QUEUE_SEND_REQUEST_def QUEUE_SAFE_CLOSE_def QUEUE_ALLOW_BATCH_def QUEUE_DETECT_SOCKET_def

record tcp_engine =
  tn_bService :: bool
  m_wListenPort :: uint16
  m_wMaxSocketItem :: uint16
  m_dwLastDetect :: uint32
  m_FreeSocketItem :: "nat list"
  m_ActiveSocketItem :: "nat list"
  m_StorageSocketItem :: "socket_item list"
  m_SendQueueService :: queue_service
  m_QueueServiceEvent :: queue_event

definition CTCPNetworkEngine :: "byte list \<Rightarrow> tcp_engine" where
  "CTCPNetworkEngine buf = \<lparr>tn_bService = False, m_wListenPort = 0, m_wMaxSocketItem = 0, m_dwLastDetect = 0, m_FreeSocketItem = [],
     m_ActiveSocketItem = [], m_StorageSocketItem = [], m_SendQueueService = CQueueService,
     m_QueueServiceEvent = \<lparr>m_cbBuffer = buf, m_pIQueueService = CQueueService\<rparr>\<rparr>"

definition GetServicePort :: "tcp_engine \<Rightarrow> uint16" where
  "GetServicePort e = m_wListenPort e"

definition SetServiceParameter :: "uint16 \<Rightarrow> uint16 \<Rightarrow> tcp_engine \<Rightarrow> bool \<times> tcp_engine" where
  "SetServiceParameter wServicePort wMaxConnect e =
     (if tn_bService e then (False, e) else (True, e\<lparr>m_wListenPort := wServicePort, m_wMaxSocketItem := wMaxConnect\<rparr>))"

abbreviation item :: "tcp_engine \<Rightarrow> nat \<Rightarrow> socket_item" where
  "item e k \<equiv> m_StorageSocketItem e ! k"

section \<open>The pool\<close>

text \<open>The last free item, or a new one as long as there are less than the maximum; the allocation may fail.\<close>

definition ActiveSocketItem :: "byte list option \<Rightarrow> tcp_engine \<Rightarrow> nat option \<times> tcp_engine" where
  "ActiveSocketItem fresh e =
     (if m_FreeSocketItem e \<noteq> [] then
        (let k = last (m_FreeSocketItem e) in
         (Some k, e\<lparr>m_FreeSocketItem := butlast (m_FreeSocketItem e), m_ActiveSocketItem := m_ActiveSocketItem e @ [k]\<rparr>))
      else
        (let n = length (m_StorageSocketItem e); wStorageCount = of_nat n in
         if wStorageCount < m_wMaxSocketItem e then
           (case fresh of
              None \<Rightarrow> (None, e)
            | Some buf \<Rightarrow> (Some n, e\<lparr>m_StorageSocketItem := m_StorageSocketItem e @ [CServerSocketItem buf wStorageCount],
                                 m_ActiveSocketItem := m_ActiveSocketItem e @ [n]\<rparr>))
         else (None, e)))"

definition EnumSocketItem :: "uint16 \<Rightarrow> tcp_engine \<Rightarrow> nat option" where
  "EnumSocketItem wIndex e = (if unat wIndex < length (m_StorageSocketItem e) then Some (unat wIndex) else None)"

definition FreeSocketItem :: "nat \<Rightarrow> tcp_engine \<Rightarrow> bool \<times> tcp_engine" where
  "FreeSocketItem k e =
     (if k \<in> set (m_ActiveSocketItem e)
      then (True, e\<lparr>m_ActiveSocketItem := remove1 k (m_ActiveSocketItem e), m_FreeSocketItem := m_FreeSocketItem e @ [k]\<rparr>)
      else (False, e))"

section \<open>The events of the items\<close>

definition tn_OnSocketAcceptEvent :: "heap \<Rightarrow> uint32 \<Rightarrow> uint32 \<Rightarrow> tcp_engine \<Rightarrow> (bool \<times> tcp_engine) option" where
  "tn_OnSocketAcceptEvent heap i a e =
     (if \<not> tn_bService e then Some (False, e)
      else do {
        (_, q) \<leftarrow> PostNetworkAcceptEvent heap i a (m_QueueServiceEvent e);
        Some (True, e\<lparr>m_QueueServiceEvent := q\<rparr>)
      })"

definition tn_OnSocketReadEvent :: "heap \<Rightarrow> uint32 \<Rightarrow> TCP_Command \<Rightarrow> byte list \<Rightarrow> tcp_engine \<Rightarrow> (bool \<times> tcp_engine) option" where
  "tn_OnSocketReadEvent heap i c xs e =
     (if \<not> tn_bService e then Some (False, e)
      else do {
        (_, q) \<leftarrow> PostNetworkReadEvent heap i c xs (of_nat (length xs)) (m_QueueServiceEvent e);
        Some (True, e\<lparr>m_QueueServiceEvent := q\<rparr>)
      })"

definition tn_OnSocketCloseEvent :: "heap \<Rightarrow> nat \<Rightarrow> uint32 \<Rightarrow> uint32 \<Rightarrow> uint32 \<Rightarrow> tcp_engine \<Rightarrow> (bool \<times> tcp_engine) option" where
  "tn_OnSocketCloseEvent heap k i a t e =
     (if \<not> tn_bService e then Some (False, e)
      else do {
        (_, q) \<leftarrow> PostNetworkShutEvent heap i a t (m_QueueServiceEvent e);
        Some (True, snd (FreeSocketItem k (e\<lparr>m_QueueServiceEvent := q\<rparr>)))
      })"

fun sink_calls :: "heap \<Rightarrow> nat \<Rightarrow> item_call list \<Rightarrow> tcp_engine \<Rightarrow> tcp_engine option" where
  "sink_calls heap k [] e = Some e"
| "sink_calls heap k (c # cs) e = do {
     (_, e) \<leftarrow> (case c of
         OnSocketAcceptEvent i a \<Rightarrow> tn_OnSocketAcceptEvent heap i a e
       | OnSocketReadEvent i c xs \<Rightarrow> tn_OnSocketReadEvent heap i c xs e
       | OnSocketCloseEvent i a t \<Rightarrow> tn_OnSocketCloseEvent heap k i a t e);
     sink_calls heap k cs e
   }"

text \<open>An operation of the item \<open>k\<close>, under its lock, with the calls that it makes.\<close>

definition on_item :: "heap \<Rightarrow> nat \<Rightarrow> (socket_item \<Rightarrow> (bool \<times> socket_item) option) \<Rightarrow> tcp_engine \<Rightarrow> (bool \<times> tcp_engine) option" where
  "on_item heap k f e = do {
     (r, s) \<leftarrow> f (item e k);
     e' \<leftarrow> sink_calls heap k (drop (length (calls (item e k))) (calls s)) (e\<lparr>m_StorageSocketItem := (m_StorageSocketItem e)[k := s]\<rparr>);
     Some (r, e')
   }"

section \<open>The requests\<close>

text \<open>The request structures are on the stack, with unspecified contents before; the structure of a send request
  is padded to 16396 bytes, so that 12 bytes besides the data go into the queue although the data starts at offset 10.\<close>

definition post_request :: "heap \<Rightarrow> uint16 \<Rightarrow> (nat \<times> byte list) list \<Rightarrow> byte list \<Rightarrow> uint16 \<Rightarrow> tcp_engine \<Rightarrow> (bool \<times> tcp_engine) option" where
  "post_request heap ident ws stack n e = do {
     b \<leftarrow> write_fields ws stack;
     (r, q) \<leftarrow> AddToQueue heap ident b n (m_SendQueueService e);
     Some (r, e\<lparr>m_SendQueueService := q\<rparr>)
   }"

definition send_fields :: "uint32 \<Rightarrow> TCP_Command \<Rightarrow> uint16 \<Rightarrow> byte list \<Rightarrow> (nat \<times> byte list) list" where
  "send_fields dwSocketID c n xs =
     [(0, le_word (wMainCmdID c)), (2, le_word (wSubCmdID c)), (4, le_word dwSocketID), (8, le_word n), (10, xs)]"

definition tn_SendCommand :: "heap \<Rightarrow> byte list \<Rightarrow> uint32 \<Rightarrow> TCP_Command \<Rightarrow> tcp_engine \<Rightarrow> (bool \<times> tcp_engine) option" where
  "tn_SendCommand heap stack dwSocketID c e =
     (if \<not> tn_bService e then Some (False, e)
      else post_request heap QUEUE_SEND_REQUEST (send_fields dwSocketID c 0 []) stack 12 e)"

definition tn_SendData :: "heap \<Rightarrow> byte list \<Rightarrow> uint32 \<Rightarrow> TCP_Command \<Rightarrow> byte list \<Rightarrow> uint16 \<Rightarrow> tcp_engine \<Rightarrow> (bool \<times> tcp_engine) option" where
  "tn_SendData heap stack dwSocketID c pData n e =
     (if \<not> tn_bService e then Some (False, e)
      else if unat n + 8 > SOCKET_TCP_BUFFER then Some (False, e)
      else do {
        xs \<leftarrow> mem_read 0 (unat n) pData;
        post_request heap QUEUE_SEND_REQUEST (send_fields dwSocketID c n xs) stack (12 + n) e
      })"

definition tn_SendDataBatch :: "heap \<Rightarrow> byte list \<Rightarrow> TCP_Command \<Rightarrow> byte list \<Rightarrow> uint16 \<Rightarrow> tcp_engine \<Rightarrow> (bool \<times> tcp_engine) option" where
  "tn_SendDataBatch heap stack c pData n e = tn_SendData heap stack 0 c pData n e"

definition tn_CloseSocket :: "heap \<Rightarrow> uint32 \<Rightarrow> tcp_engine \<Rightarrow> (bool \<times> tcp_engine) option" where
  "tn_CloseSocket heap dwSocketID e = (case EnumSocketItem (LOWORD dwSocketID) e of
     None \<Rightarrow> Some (False, e)
   | Some k \<Rightarrow> on_item heap k (\<lambda>s. Some (CloseSocket (HIWORD dwSocketID) s)) e)"

definition tn_ShutDownSocket :: "heap \<Rightarrow> byte list \<Rightarrow> uint32 \<Rightarrow> tcp_engine \<Rightarrow> (bool \<times> tcp_engine) option" where
  "tn_ShutDownSocket heap stack dwSocketID e = post_request heap QUEUE_SAFE_CLOSE [(0, le_word dwSocketID)] stack 4 e"

definition tn_AllowBatchSend :: "heap \<Rightarrow> byte list \<Rightarrow> uint32 \<Rightarrow> bool \<Rightarrow> tcp_engine \<Rightarrow> (bool \<times> tcp_engine) option" where
  "tn_AllowBatchSend heap stack dwSocketID bAllow e =
     post_request heap QUEUE_ALLOW_BATCH [(0, le_word dwSocketID), (4, le_word (if bAllow then 1 else 0 :: byte))] stack 8 e"

definition DetectSocket :: "heap \<Rightarrow> tcp_engine \<Rightarrow> (bool \<times> tcp_engine) option" where
  "DetectSocket heap e = post_request heap QUEUE_DETECT_SOCKET [] [] 0 e"

section \<open>The thread of the send queue\<close>

text \<open>\<open>env\<close> gives for each item a new structure, if it can be allocated, and whether its transmission is taken by the socket.\<close>

type_synonym send_env = "nat \<Rightarrow> overlapped_send option \<times> bool"

fun send_batch :: "heap \<Rightarrow> send_env \<Rightarrow> TCP_Command \<Rightarrow> byte list \<Rightarrow> uint16 \<Rightarrow> nat list \<Rightarrow> tcp_engine \<Rightarrow> tcp_engine option" where
  "send_batch heap env c pData n [] e = Some e"
| "send_batch heap env c pData n (k # ks) e =
     (if m_bAllowBatch (item e k) then do {
        (_, e) \<leftarrow> on_item heap k (SendData (fst (env k)) (snd (env k)) pData n c (m_wRountID (item e k))) e;
        send_batch heap env c pData n ks e
      }
      else send_batch heap env c pData n ks e)"

definition sink_send :: "heap \<Rightarrow> send_env \<Rightarrow> byte list \<Rightarrow> tcp_engine \<Rightarrow> tcp_engine option" where
  "sink_send heap env b e = do {
     c \<leftarrow> field_command 0 b; dwSocketID \<leftarrow> field 4 b; n \<leftarrow> field 8 b;
     if dwSocketID = 0 then send_batch heap env c (drop 10 b) n (m_ActiveSocketItem e) e
     else do {
       k \<leftarrow> EnumSocketItem (LOWORD dwSocketID) e;
       (_, e) \<leftarrow> on_item heap k (SendData (fst (env k)) (snd (env k)) (drop 10 b) n c (HIWORD dwSocketID)) e;
       Some e
     }
   }"

definition sink_safe_close :: "heap \<Rightarrow> byte list \<Rightarrow> tcp_engine \<Rightarrow> tcp_engine option" where
  "sink_safe_close heap b e = do {
     dwSocketID \<leftarrow> field 0 b;
     k \<leftarrow> EnumSocketItem (LOWORD dwSocketID) e;
     (_, e) \<leftarrow> on_item heap k (\<lambda>s. Some (ShutDownSocket (HIWORD dwSocketID) s)) e;
     Some e
   }"

definition sink_allow_batch :: "heap \<Rightarrow> byte list \<Rightarrow> tcp_engine \<Rightarrow> tcp_engine option" where
  "sink_allow_batch heap b e = do {
     dwSocketID \<leftarrow> field 0 b; cbAllow \<leftarrow> field 4 b;
     k \<leftarrow> EnumSocketItem (LOWORD dwSocketID) e;
     (_, e) \<leftarrow> on_item heap k (\<lambda>s. Some (AllowBatchSend (HIWORD dwSocketID) (cbAllow \<noteq> (0 :: byte)) s)) e;
     Some e
   }"

text \<open>The detection of one item at the time \<open>now\<close>; \<open>rt\<close> is the time of its last reception, which is read before the lock of the
  item is taken, and \<open>tick\<close> the time that goes into the detection packet.\<close>

definition silent_too_long :: "uint32 \<Rightarrow> uint32 \<Rightarrow> uint32 \<Rightarrow> socket_item \<Rightarrow> bool" where
  "silent_too_long now brk rt s = (now - rt > (if IsReadySend s then brk else TIME_BREAK_CONNECT))"

definition detect_item :: "heap \<Rightarrow> send_env \<Rightarrow> uint32 \<Rightarrow> uint32 \<Rightarrow> uint32 \<Rightarrow> uint32 \<Rightarrow> nat \<Rightarrow> tcp_engine \<Rightarrow> tcp_engine option" where
  "detect_item heap env now brk rt tick k e =
     (if rt \<ge> now then Some e
      else if silent_too_long now brk rt (item e k) then
        map_option snd (on_item heap k (\<lambda>s. Some (CloseSocket (m_wRountID s) s)) e)
      else if IsReadySend (item e k) then
        map_option snd (on_item heap k (\<lambda>s. SendData (fst (env k)) (snd (env k)) (le_word tick @ le_word (0 :: uint32)) 8
          \<lparr>wMainCmdID = MDM_KN_COMMAND, wSubCmdID = SUB_KN_DETECT_SOCKET\<rparr> (m_wRountID s) s) e)
      else Some e)"

fun detect_items :: "heap \<Rightarrow> send_env \<Rightarrow> uint32 \<Rightarrow> uint32 \<Rightarrow> (nat \<Rightarrow> uint32) \<Rightarrow> nat list \<Rightarrow> tcp_engine \<Rightarrow> tcp_engine option" where
  "detect_items heap env now brk ticks [] e = Some e"
| "detect_items heap env now brk ticks (k # ks) e = Option.bind (detect_item heap env now brk (m_dwRecvTickCount (item e k)) (ticks k) k e) (detect_items heap env now brk ticks ks)"

definition sink_detect :: "heap \<Rightarrow> send_env \<Rightarrow> uint32 \<Rightarrow> uint32 \<Rightarrow> (nat \<Rightarrow> uint32) \<Rightarrow> tcp_engine \<Rightarrow> tcp_engine option" where
  "sink_detect heap env now now' ticks e =
     detect_items heap env now (max (now - m_dwLastDetect e) TIME_BREAK_READY) ticks (m_ActiveSocketItem e) (e\<lparr>m_dwLastDetect := now'\<rparr>)"

text \<open>\<open>b\<close> is the buffer of the queue's thread; the size of the packet is looked at by assertions only.\<close>

definition tn_OnQueueServiceSink :: "heap \<Rightarrow> send_env \<Rightarrow> uint32 \<Rightarrow> uint32 \<Rightarrow> (nat \<Rightarrow> uint32) \<Rightarrow> uint16 \<Rightarrow> byte list \<Rightarrow> tcp_engine \<Rightarrow> tcp_engine option" where
  "tn_OnQueueServiceSink heap env now now' ticks ident b e =
     (if ident = QUEUE_SEND_REQUEST then sink_send heap env b e
      else if ident = QUEUE_SAFE_CLOSE then sink_safe_close heap b e
      else if ident = QUEUE_ALLOW_BATCH then sink_allow_batch heap b e
      else if ident = QUEUE_DETECT_SOCKET then sink_detect heap env now now' ticks e
      else Some e)"

text \<open>The lock of an item is held for one item at a time, and the list of the items is copied before: between two items other threads may run.
  \<open>sink_start\<close> is the handler up to the loop, \<open>sink_next\<close> the next part of the loop; a \<open>sink_job\<close> is what is left to do.\<close>

datatype sink_job =
    SinkIdle
  | SinkBatch TCP_Command "byte list" uint16 "nat list"
  | SinkDetect uint32 uint32 "nat list"
  | SinkItem uint32 uint32 uint32 nat "nat list"

definition sink_start :: "heap \<Rightarrow> send_env \<Rightarrow> uint32 \<Rightarrow> uint32 \<Rightarrow> uint16 \<Rightarrow> byte list \<Rightarrow> tcp_engine \<Rightarrow> (sink_job \<times> tcp_engine) option" where
  "sink_start heap env now now' ident b e =
     (if ident = QUEUE_SEND_REQUEST \<and> field 4 b = Some (0 :: uint32) then do {
        c \<leftarrow> field_command 0 b; n \<leftarrow> field 8 b;
        Some (SinkBatch c (drop 10 b) n (m_ActiveSocketItem e), e)
      }
      else if ident = QUEUE_DETECT_SOCKET then
        Some (SinkDetect now (max (now - m_dwLastDetect e) TIME_BREAK_READY) (m_ActiveSocketItem e), e\<lparr>m_dwLastDetect := now'\<rparr>)
      else map_option (Pair SinkIdle) (tn_OnQueueServiceSink heap env now now' (\<lambda>_. 0) ident b e))"

definition sink_next :: "heap \<Rightarrow> send_env \<Rightarrow> uint32 \<Rightarrow> sink_job \<Rightarrow> tcp_engine \<Rightarrow> (sink_job \<times> tcp_engine) option" where
  "sink_next heap env tick job e = (case job of
     SinkIdle \<Rightarrow> Some (SinkIdle, e)
   | SinkBatch c pData n [] \<Rightarrow> Some (SinkIdle, e)
   | SinkBatch c pData n (k # ks) \<Rightarrow> map_option (Pair (SinkBatch c pData n ks)) (send_batch heap env c pData n [k] e)
   | SinkDetect now brk [] \<Rightarrow> Some (SinkIdle, e)
   | SinkDetect now brk (k # ks) \<Rightarrow> Some (SinkItem now brk (m_dwRecvTickCount (item e k)) k ks, e)
   | SinkItem now brk rt k ks \<Rightarrow> map_option (Pair (SinkDetect now brk ks)) (detect_item heap env now brk rt tick k e))"

section \<open>The other threads\<close>

datatype accept_result = NoConnection | Refused nat | Accepted nat

definition accept_run :: "heap \<Rightarrow> (nat \<times> uint32) option \<Rightarrow> byte list option \<Rightarrow> uint32 \<Rightarrow> uint32 \<Rightarrow> bool \<Rightarrow> tcp_engine \<Rightarrow> (accept_result \<times> tcp_engine) option" where
  "accept_run heap conn fresh tick now recv_ok e = (case conn of
     None \<Rightarrow> Some (NoConnection, e)
   | Some (h, addr) \<Rightarrow> (case ActiveSocketItem fresh e of
       (None, e) \<Rightarrow> Some (Refused h, e)
     | (Some k, e) \<Rightarrow> do {
         (_, e) \<leftarrow> on_item heap k (\<lambda>s. Some (RecvData recv_ok (Attach h addr tick now s))) e;
         Some (Accepted k, e)
       }))"

text \<open>A completion: the item, and a reception or a transmission with what it depends on.\<close>

datatype completion =
    RecvCompletion nat "byte list" uint32 "byte list" bool bool
  | SendCompletion nat uint32 uint32 bool

definition rs_run :: "heap \<Rightarrow> bool \<Rightarrow> bool \<Rightarrow> completion option \<Rightarrow> tcp_engine \<Rightarrow> (bool \<times> tcp_engine) option" where
  "rs_run heap bSuccess netname_deleted c e =
     (if \<not> bSuccess \<and> \<not> netname_deleted then Some (False, e)
      else case c of
        None \<Rightarrow> Some (False, e)
      | Some (RecvCompletion k xs tick cb resp_ok recv_ok) \<Rightarrow>
          map_option (\<lambda>(_, e). (True, e)) (on_item heap k (OnRecvCompleted xs tick cb resp_ok recv_ok) e)
      | Some (SendCompletion k n tick send_ok) \<Rightarrow>
          map_option (\<lambda>(_, e). (True, e)) (on_item heap k (OnSendCompleted n tick send_ok) e))"

definition detect_run :: "heap \<Rightarrow> uint32 \<Rightarrow> tcp_engine \<Rightarrow> (uint32 \<times> tcp_engine) option" where
  "detect_run heap dwTickCount e =
     (let t = dwTickCount + 500 in
      if t > 20000 then map_option (\<lambda>(_, e). (0, e)) (DetectSocket heap e) else Some (t, e))"

text \<open>\<open>StartService\<close>: the sink of the send queue is this engine; the sockets, the queue and the threads may fail to start. \<open>port\<close> is
  what \<open>getsockname\<close> reports. The accepting thread runs before the flag is set.\<close>

definition SetTCPNetworkEngineEvent :: "queue_service option \<Rightarrow> tcp_engine \<Rightarrow> bool \<times> tcp_engine" where
  "SetTCPNetworkEngineEvent found e =
     (if tn_bService e then (False, e)
      else case found of
        None \<Rightarrow> (False, e)
      | Some q \<Rightarrow> (True, e\<lparr>m_QueueServiceEvent := (m_QueueServiceEvent e)\<lparr>m_pIQueueService := q\<rparr>\<rparr>))"

definition tn_StartService :: "bool \<Rightarrow> uint16 \<Rightarrow> bool \<Rightarrow> bool \<Rightarrow> bool \<Rightarrow> tcp_engine \<Rightarrow> bool \<times> tcp_engine" where
  "tn_StartService sockets_ok port port_ok thread_ok threads_ok e =
     (if tn_bService e then (True, e)
      else let e = e\<lparr>m_SendQueueService := snd (SetQueueServiceSink True (m_SendQueueService e))\<rparr> in
        if \<not> sockets_ok then (False, e)
        else let e = e\<lparr>m_wListenPort := port\<rparr> in
          case qs_StartService port_ok thread_ok (m_SendQueueService e) of
            Inl (_, q) \<Rightarrow> (False, e\<lparr>m_SendQueueService := q\<rparr>)
          | Inr (_, q) \<Rightarrow>
              if \<not> threads_ok then (False, e\<lparr>m_SendQueueService := q\<rparr>)
              else (True, e\<lparr>m_SendQueueService := q, tn_bService := True\<rparr>))"

text \<open>\<open>ConcludeService\<close> once the threads have ended: what is still connected is closed and reset.\<close>

fun conclude_items :: "heap \<Rightarrow> nat list \<Rightarrow> tcp_engine \<Rightarrow> tcp_engine option" where
  "conclude_items heap [] e = Some e"
| "conclude_items heap (k # ks) e = do {
     (_, e) \<leftarrow> on_item heap k (\<lambda>s. let (r, s) = CloseSocket (m_wRountID s) s in Some (r, ResetSocketData s)) e;
     conclude_items heap ks e
   }"

definition tn_ConcludeService :: "heap \<Rightarrow> tcp_engine \<Rightarrow> (bool \<times> tcp_engine) option" where
  "tn_ConcludeService heap e = do {
     let e = e\<lparr>tn_bService := False, m_dwLastDetect := 0, m_SendQueueService := conclude_finish (conclude_stop (m_SendQueueService e))\<rparr>;
     e \<leftarrow> conclude_items heap (m_ActiveSocketItem e) e;
     Some (True, e\<lparr>m_FreeSocketItem := m_FreeSocketItem e @ m_ActiveSocketItem e, m_ActiveSocketItem := []\<rparr>)
   }"

section \<open>Calls and the pool\<close>

definition accepts :: "item_call list \<Rightarrow> nat" where
  "accepts cs = length (filter (\<lambda>c. case c of OnSocketAcceptEvent _ _ \<Rightarrow> True | _ \<Rightarrow> False) cs)"

definition closes :: "item_call list \<Rightarrow> nat" where
  "closes cs = length (filter (\<lambda>c. case c of OnSocketCloseEvent _ _ _ \<Rightarrow> True | _ \<Rightarrow> False) cs)"

text \<open>A sink that sees sessions sees as many closes as accepts, but for the session that is open.\<close>

lemma sink_view_balance:
  "sink_view cs v = Some v' \<Longrightarrow> closes cs + (if snd v' = None then 0 else 1) = accepts cs + (if snd v = None then 0 else 1)"
  by (induction cs v rule: sink_view.induct) (auto simp: closes_def accepts_def split: if_splits)

text \<open>The calls of an item only grow; none of its operations but \<open>Attach\<close> reports an accept.\<close>

definition item_grows :: "socket_item \<Rightarrow> socket_item \<Rightarrow> bool" where
  "item_grows s t \<longleftrightarrow> (\<exists>cs. calls t = calls s @ cs \<and> accepts cs = 0)"

lemma grows_refl: "calls t = calls s \<Longrightarrow> item_grows s t"
  by (simp add: item_grows_def accepts_def)

lemma pool_grows_trans: "item_grows s t \<Longrightarrow> item_grows t u \<Longrightarrow> item_grows s u"
  by (auto simp: item_grows_def accepts_def)

lemma CloseSocket_grows: "item_grows s (snd (CloseSocket r s))"
  by (auto simp: CloseSocket_def OnCloseCompleted_def ResetSocketData_def item_grows_def accepts_def Let_def)

lemma after_reads_grows: "after_reads s t \<Longrightarrow> item_grows s t"
proof -
  assume "after_reads s t"
  then obtain rs where "calls t = calls s @ rs" "list_all (is_read (GetSocketID s)) rs" unfolding after_reads_def by blast
  moreover from this(2) have "accepts rs = 0" by (induction rs) (auto simp: accepts_def is_read_def split: item_call.splits)
  ultimately show ?thesis unfolding item_grows_def by blast
qed

lemma recv_done_grows: "recv_done s t \<Longrightarrow> item_grows s t"
proof -
  assume "recv_done s t"
  then obtain u where u: "after_reads s u" "t = u\<lparr>m_bRecvIng := True\<rparr> \<or> t = snd (CloseSocket (m_wRountID u) u)" unfolding recv_done_def by blast
  have "item_grows u (u\<lparr>m_bRecvIng := True\<rparr>)" by (simp add: grows_refl)
  then show ?thesis using u pool_grows_trans [OF after_reads_grows [OF u(1)]] CloseSocket_grows by blast
qed

lemma send_done_grows: "send_done s t \<Longrightarrow> item_grows s t"
proof -
  assume "send_done s t"
  then obtain u where u: "send_core u = send_core s" "t = u \<or> t = snd (CloseSocket (m_wRountID u) u)" unfolding send_done_def by blast
  have "item_grows s u" using u(1) by (simp add: grows_refl send_core_eq)
  then show ?thesis using u(2) pool_grows_trans CloseSocket_grows by blast
qed

definition pool_ok :: "tcp_engine \<Rightarrow> bool" where
  "pool_ok e \<longleftrightarrow> distinct (m_FreeSocketItem e @ m_ActiveSocketItem e) \<and>
     set (m_FreeSocketItem e @ m_ActiveSocketItem e) = {..<length (m_StorageSocketItem e)} \<and>
     length (m_StorageSocketItem e) \<le> unat (m_wMaxSocketItem e)"

text \<open>\<open>p\<close> is the item that the accepting thread has taken and not yet attached, if there is one: it is active, but has no session.\<close>

definition pool_item_ok :: "nat option \<Rightarrow> tcp_engine \<Rightarrow> nat \<Rightarrow> bool" where
  "pool_item_ok p e k \<longleftrightarrow> item_inv (item e k) \<and> session_view (of_nat k) (item e k) \<and>
     (k \<in> set (m_ActiveSocketItem e) \<longleftrightarrow> \<not> m_bNotify (item e k) \<or> p = Some k) \<and> (p = Some k \<longrightarrow> m_bNotify (item e k))"

definition engine_inv :: "nat option \<Rightarrow> tcp_engine \<Rightarrow> bool" where
  "engine_inv p e \<longleftrightarrow> tn_bService e \<and> pool_ok e \<and> (\<forall>k < length (m_StorageSocketItem e). pool_item_ok p e k) \<and>
     (\<forall>k. p = Some k \<longrightarrow> k < length (m_StorageSocketItem e))"

lemma sink_calls_pool:
  assumes "sink_calls heap k cs e = Some e'" "tn_bService e" "closes cs \<le> 1" "closes cs = 1 \<longrightarrow> k \<in> set (m_ActiveSocketItem e)"
  shows "m_StorageSocketItem e' = m_StorageSocketItem e \<and> tn_bService e' \<and> m_wMaxSocketItem e' = m_wMaxSocketItem e \<and>
    (if closes cs = 0 then m_ActiveSocketItem e' = m_ActiveSocketItem e \<and> m_FreeSocketItem e' = m_FreeSocketItem e
     else m_ActiveSocketItem e' = remove1 k (m_ActiveSocketItem e) \<and> m_FreeSocketItem e' = m_FreeSocketItem e @ [k])"
  using assms
proof (induction cs arbitrary: e)
  case Nil
  then show ?case by (simp add: closes_def)
next
  case (Cons c cs)
  show ?case
  proof (cases c)
    case (OnSocketAcceptEvent i a)
    then obtain q where "sink_calls heap k cs (e\<lparr>m_QueueServiceEvent := q\<rparr>) = Some e'"
      using Cons.prems(1,2) by (auto simp: tn_OnSocketAcceptEvent_def split: bind_splits)
    then show ?thesis using Cons.IH [of "e\<lparr>m_QueueServiceEvent := q\<rparr>"] Cons.prems OnSocketAcceptEvent by (simp add: closes_def)
  next
    case (OnSocketReadEvent i d xs)
    then obtain q where "sink_calls heap k cs (e\<lparr>m_QueueServiceEvent := q\<rparr>) = Some e'"
      using Cons.prems(1,2) by (auto simp: tn_OnSocketReadEvent_def split: bind_splits)
    then show ?thesis using Cons.IH [of "e\<lparr>m_QueueServiceEvent := q\<rparr>"] Cons.prems OnSocketReadEvent by (simp add: closes_def)
  next
    case (OnSocketCloseEvent i a t)
    then obtain q where "sink_calls heap k cs (snd (FreeSocketItem k (e\<lparr>m_QueueServiceEvent := q\<rparr>))) = Some e'"
      using Cons.prems(1,2) by (auto simp: tn_OnSocketCloseEvent_def split: bind_splits)
    moreover have "closes cs = 0" "k \<in> set (m_ActiveSocketItem e)" "closes (c # cs) = 1"
      using Cons.prems(3,4) OnSocketCloseEvent by (auto simp: closes_def)
    ultimately show ?thesis using Cons.IH [of "snd (FreeSocketItem k (e\<lparr>m_QueueServiceEvent := q\<rparr>))"] Cons.prems(2)
      by (simp add: FreeSocketItem_def)
  qed
qed

lemma on_item_core:
  assumes e: "tn_bService e" "pool_ok e" "\<forall>j < length (m_StorageSocketItem e). j \<noteq> k \<longrightarrow> pool_item_ok p e j" "k < length (m_StorageSocketItem e)"
      "\<forall>j. p = Some j \<longrightarrow> j < length (m_StorageSocketItem e)"
    and f: "f (item e k) = Some (r, s')" "item_inv s'" "session_view (of_nat k) s'" "calls s' = calls (item e k) @ cs"
    and b: "k \<in> set (m_ActiveSocketItem e) \<and> p \<noteq> Some k \<and> closes cs + (if m_bNotify s' then 0 else 1) = 1 \<or>
      (k \<in> set (m_ActiveSocketItem e) \<longleftrightarrow> p = Some k) \<and> closes cs = 0 \<and> m_bNotify s'"
    and o: "on_item heap k f e = Some (r', e')"
  shows "engine_inv p e' \<and> length (m_StorageSocketItem e') = length (m_StorageSocketItem e) \<and> item e' k = s' \<and>
    (\<forall>j < length (m_StorageSocketItem e). j \<noteq> k \<longrightarrow> item e' j = item e j)"
proof -
  let ?e = "e\<lparr>m_StorageSocketItem := (m_StorageSocketItem e)[k := s']\<rparr>"
  have "sink_calls heap k cs ?e = Some e'" using o f(1,4) by (auto simp: on_item_def split: bind_splits)
  then have p: "m_StorageSocketItem e' = (m_StorageSocketItem e)[k := s']" "tn_bService e'" "m_wMaxSocketItem e' = m_wMaxSocketItem e"
      "if closes cs = 0 then m_ActiveSocketItem e' = m_ActiveSocketItem e \<and> m_FreeSocketItem e' = m_FreeSocketItem e
       else m_ActiveSocketItem e' = remove1 k (m_ActiveSocketItem e) \<and> m_FreeSocketItem e' = m_FreeSocketItem e @ [k]"
    using sink_calls_pool [of heap k cs ?e e'] e(1) b by (auto split: if_splits)
  have d: "distinct (m_ActiveSocketItem e)" using e(2) by (simp add: pool_ok_def)
  have "pool_ok e'"
    using e(2) p b d by (cases "closes cs = 0") (auto simp: pool_ok_def)
  moreover have "pool_item_ok p e' j" if "j < length (m_StorageSocketItem e')" for j
    using that e(3,4) p b f(2,3) d by (cases "j = k"; cases "closes cs = 0") (auto simp: pool_item_ok_def split: if_splits)
  ultimately show ?thesis using p e(4,5) by (simp add: engine_inv_def)
qed

lemma session_view_sink:
  "session_view w s \<Longrightarrow> \<exists>v. sink_view (calls s) ([], None) = Some v \<and> (snd v = None \<longleftrightarrow> m_bNotify s)"
  unfolding session_view_def by (auto split: if_splits)

lemma session_view_balance:
  assumes "session_view w s" "session_view w s'" "calls s' = calls s @ cs"
  shows "closes cs + (if m_bNotify s' then 0 else 1) = accepts cs + (if m_bNotify s then 0 else 1)"
proof -
  obtain v v' where v: "sink_view (calls s) ([], None) = Some v" "snd v = None \<longleftrightarrow> m_bNotify s"
      "sink_view (calls s') ([], None) = Some v'" "snd v' = None \<longleftrightarrow> m_bNotify s'"
    using session_view_sink [OF assms(1)] session_view_sink [OF assms(2)] by metis
  then have "sink_view cs v = Some v'" using assms(3) by (simp add: sink_view_append)
  from sink_view_balance [OF this] show ?thesis using v(2,4) by simp
qed

text \<open>An operation of an item keeps the invariant of the engine, and touches no other item.\<close>

lemma on_item_step:
  assumes e: "engine_inv p e" "k < length (m_StorageSocketItem e)" and o: "on_item heap k f e = Some (r, e')"
    and f: "\<And>r s'. f (item e k) = Some (r, s') \<Longrightarrow> item_step (item e k) s' \<and> item_grows (item e k) s'"
  shows "engine_inv p e' \<and> length (m_StorageSocketItem e') = length (m_StorageSocketItem e) \<and>
    (\<exists>r. f (item e k) = Some (r, item e' k)) \<and> (\<forall>j < length (m_StorageSocketItem e). j \<noteq> k \<longrightarrow> item e' j = item e j)"
proof -
  obtain r' s' where s': "f (item e k) = Some (r', s')" using o by (auto simp: on_item_def split: bind_splits)
  have ok: "item_inv (item e k)" "session_view (of_nat k) (item e k)" "k \<in> set (m_ActiveSocketItem e) \<longleftrightarrow> \<not> m_bNotify (item e k) \<or> p = Some k"
      "p = Some k \<longrightarrow> m_bNotify (item e k)"
    using e by (auto simp: engine_inv_def pool_item_ok_def)
  have st: "item_step (item e k) s'" "item_grows (item e k) s'" using f [OF s'] by simp_all
  have i: "item_inv s'" "session_view (of_nat k) s'" using item_step_inv [OF st(1) ok(1,2)] by simp_all
  obtain cs where cs: "calls s' = calls (item e k) @ cs" "accepts cs = 0" using st(2) unfolding item_grows_def by blast
  have "closes cs + (if m_bNotify s' then 0 else 1) = (if m_bNotify (item e k) then 0 else 1)"
    using session_view_balance [OF ok(2) i(2) cs(1)] cs(2) by simp
  then have b: "k \<in> set (m_ActiveSocketItem e) \<and> p \<noteq> Some k \<and> closes cs + (if m_bNotify s' then 0 else 1) = 1 \<or>
      (k \<in> set (m_ActiveSocketItem e) \<longleftrightarrow> p = Some k) \<and> closes cs = 0 \<and> m_bNotify s'" using ok(3,4) by (auto split: if_splits)
  show ?thesis using on_item_core [OF _ _ _ e(2) _ s' i cs(1) b o] e(1) s' unfolding engine_inv_def by auto
qed

lemma sink_calls_length: "sink_calls heap k cs e = Some e' \<Longrightarrow> length (m_StorageSocketItem e') = length (m_StorageSocketItem e)"
proof (induction cs arbitrary: e)
  case (Cons c cs)
  then show ?case
    by (cases c) (fastforce simp: tn_OnSocketAcceptEvent_def tn_OnSocketReadEvent_def tn_OnSocketCloseEvent_def FreeSocketItem_def
      split: bind_splits if_splits)+
qed simp

lemma on_item_length: "on_item heap k f e = Some (r, e') \<Longrightarrow> length (m_StorageSocketItem e') = length (m_StorageSocketItem e)"
  by (auto simp: on_item_def split: bind_splits dest!: sink_calls_length)

lemma ActiveSocketItem_pool:
  assumes "engine_inv None e" "ActiveSocketItem fresh e = (Some k, e')"
  shows "engine_inv (Some k) e'"
proof (cases "m_FreeSocketItem e = []")
  case False
  let ?fs = "m_FreeSocketItem e"
  have k: "k = last ?fs" "e' = e\<lparr>m_FreeSocketItem := butlast ?fs, m_ActiveSocketItem := m_ActiveSocketItem e @ [k]\<rparr>"
    using assms(2) False by (auto simp: ActiveSocketItem_def Let_def)
  have fs: "?fs = butlast ?fs @ [k]" using False k(1) by simp
  have p: "distinct (?fs @ m_ActiveSocketItem e)" "set (?fs @ m_ActiveSocketItem e) = {..<length (m_StorageSocketItem e)}"
    using assms(1) by (simp_all add: engine_inv_def pool_ok_def)
  have d: "distinct ((butlast ?fs @ [k]) @ m_ActiveSocketItem e)" "set ((butlast ?fs @ [k]) @ m_ActiveSocketItem e) = {..<length (m_StorageSocketItem e)}"
    using p fs by metis+
  then have kl: "k < length (m_StorageSocketItem e)" "k \<notin> set (m_ActiveSocketItem e)" by auto
  then have "pool_item_ok None e k" using assms(1) by (simp add: engine_inv_def)
  then have "m_bNotify (item e k)" "item_inv (item e k)" "session_view (of_nat k) (item e k)" using kl(2) by (simp_all add: pool_item_ok_def)
  then show ?thesis using assms(1) k(2) d kl by (auto simp: engine_inv_def pool_ok_def pool_item_ok_def)
next
  case True
  let ?n = "length (m_StorageSocketItem e)"
  obtain buf where k: "k = ?n" "of_nat ?n < m_wMaxSocketItem e"
      "e' = e\<lparr>m_StorageSocketItem := m_StorageSocketItem e @ [CServerSocketItem buf (of_nat ?n)], m_ActiveSocketItem := m_ActiveSocketItem e @ [?n]\<rparr>"
    using assms(2) True by (auto simp: ActiveSocketItem_def Let_def split: if_splits option.splits)
  have i: "tn_bService e" "pool_ok e" "\<forall>k < ?n. pool_item_ok None e k" using assms(1) by (simp_all add: engine_inv_def)
  have "unat (m_wMaxSocketItem e) < 65536" using unsigned_less [of "m_wMaxSocketItem e"] by simp
  then have "?n < 65536" using i(2) by (simp add: pool_ok_def)
  then have "?n < unat (m_wMaxSocketItem e)" using k(2) by (simp add: word_less_nat_alt unat_of_nat)
  moreover have "distinct (m_ActiveSocketItem e)" "set (m_ActiveSocketItem e) = {..<?n}" using i(2) True by (simp_all add: pool_ok_def)
  ultimately have "pool_ok e'" using True by (simp add: pool_ok_def k(3) lessThan_Suc)
  moreover have "pool_item_ok (Some k) e' j" if "j < ?n" for j using i(3) that by (simp add: pool_item_ok_def k(1,3) nth_append)
  moreover have "pool_item_ok (Some k) e' ?n" using fresh_item by (simp add: pool_item_ok_def k(1,3) CServerSocketItem_def)
  ultimately show ?thesis using i(1) by (simp add: engine_inv_def k(1,3) less_Suc_eq)
qed

lemma attach_inv:
  assumes "engine_inv (Some k) e" "on_item heap k (\<lambda>s. Some (RecvData ok (Attach h addr tick now s))) e = Some (r, e')"
  shows "engine_inv None e'"
proof -
  have k: "k < length (m_StorageSocketItem e)" using assms(1) by (simp add: engine_inv_def)
  then have pk: "pool_item_ok (Some k) e k" using assms(1) by (simp add: engine_inv_def)
  let ?s = "item e k" and ?t = "Attach h addr tick now (item e k)"
  let ?u = "snd (RecvData ok ?t)"
  have a: "m_bNotify ?s" "item_inv ?s" "session_view (of_nat k) ?s" "k \<in> set (m_ActiveSocketItem e)" using pk by (simp_all add: pool_item_ok_def)
  have i: "item_inv ?u" "session_view (of_nat k) ?u" using item_step_inv [OF item_step.accept [of ?s]] a by blast+
  have t: "\<not> m_bCloseIng ?t" "\<not> m_bRecvIng ?t" by (simp_all add: Attach_def Let_def)
  obtain cs where cs: "calls ?u = calls ?t @ cs" "accepts cs = 0"
    using recv_done_grows [OF RecvData_done [OF after_reads_refl [OF t(2)] t(1), of ok]] unfolding item_grows_def by blast
  have ct: "calls ?t = calls ?s @ [OnSocketAcceptEvent (GetSocketID ?s) addr]" by (simp add: Attach_def Let_def GetSocketID_def)
  let ?cs = "OnSocketAcceptEvent (GetSocketID ?s) addr # cs"
  have c: "calls ?u = calls ?s @ ?cs" "accepts ?cs = 1" using cs ct by (simp_all add: accepts_def)
  have b: "closes ?cs + (if m_bNotify ?u then 0 else 1) = 1" using session_view_balance [OF a(3) i(2) c(1)] c(2) a(1) by simp
  have o: "\<forall>j < length (m_StorageSocketItem e). j \<noteq> k \<longrightarrow> pool_item_ok None e j" "tn_bService e" "pool_ok e"
    using assms(1) by (auto simp: engine_inv_def pool_item_ok_def)
  obtain r' where "RecvData ok ?t = (r', ?u)" by (cases "RecvData ok ?t") simp
  then show ?thesis using on_item_core [OF o(2,3,1) k _ _ i c(1) _ assms(2)] a(4) b by auto
qed

text \<open>The operations that the engine calls on an item are steps of it.\<close>

lemma SendData_step: "SendData fresh ok pData n c r s = Some (res, s') \<Longrightarrow> item_step s s' \<and> item_grows s s'"
  using SendData_done [of fresh ok pData n c r s res s'] send_done_grows grows_refl [of s s] item_step.send_data by blast

lemma CloseSocket_step: "CloseSocket r s = (res, s') \<Longrightarrow> item_step s s' \<and> item_grows s s'"
  using item_step.close [of s r] CloseSocket_grows [of s r] by simp

lemma ShutDownSocket_step: "ShutDownSocket r s = (res, s') \<Longrightarrow> item_step s s' \<and> item_grows s s'"
  using item_step.shut_down [of s r] by (auto simp: ShutDownSocket_def intro: grows_refl)

lemma AllowBatchSend_step: "AllowBatchSend r b s = (res, s') \<Longrightarrow> item_step s s' \<and> item_grows s s'"
  using item_step.allow_batch [of s r b] by (auto simp: AllowBatchSend_def intro: grows_refl split: if_splits)

lemma OnSendCompleted_step:
  "OnSendCompleted n tick ok s = Some (res, s') \<Longrightarrow> item_inv s \<Longrightarrow> m_OverLappedSendActive s \<noteq> [] \<Longrightarrow> item_step s s' \<and> item_grows s s'"
  using OnSendCompleted_done [of n tick ok s res s'] send_done_grows item_step.sent by (auto simp: item_inv_def may_close_def)

lemma OnRecvCompleted_step:
  assumes "OnRecvCompleted xs tick cb resp_ok ok s = Some (res, s')" "item_inv s" "m_bRecvIng s"
  shows "item_step s s' \<and> item_grows s s'"
proof -
  have "\<not> m_bCloseIng s" using assms(2) by (simp add: item_inv_def may_close_def)
  note d = OnRecvCompleted_done [OF assms(1) this]
  have "item_grows s s'"
  proof (cases "m_hSocket s = None")
    case True
    then show ?thesis using d(2) after_reads_grows pool_grows_trans CloseSocket_grows by metis
  next
    case False
    then show ?thesis using d(1) recv_done_grows by blast
  qed
  then show ?thesis using item_step.received assms by blast
qed

lemma EnumSocketItem_bound: "EnumSocketItem w e = Some k \<Longrightarrow> k < length (m_StorageSocketItem e) \<and> k = unat w"
  by (auto simp: EnumSocketItem_def split: if_splits)

lemma send_batch_inv:
  assumes "engine_inv p e" "set ks \<subseteq> {..<length (m_StorageSocketItem e)}" "send_batch heap env c pData n ks e = Some e'"
  shows "engine_inv p e' \<and> length (m_StorageSocketItem e') = length (m_StorageSocketItem e)"
  using assms
proof (induction ks arbitrary: e)
  case (Cons k ks)
  show ?case
  proof (cases "m_bAllowBatch (item e k)")
    case True
    then obtain r e1 where e1: "on_item heap k (SendData (fst (env k)) (snd (env k)) pData n c (m_wRountID (item e k))) e = Some (r, e1)"
        "send_batch heap env c pData n ks e1 = Some e'" using Cons.prems(3) by (auto split: bind_splits)
    then show ?thesis using Cons.IH [of e1] on_item_step [OF Cons.prems(1) _ e1(1) SendData_step] Cons.prems(2) by simp
  qed (use Cons in simp)
qed simp

lemma detect_item_inv:
  assumes "engine_inv p e" "k < length (m_StorageSocketItem e)" "detect_item heap env now brk rt tick k e = Some e'"
  shows "engine_inv p e' \<and> length (m_StorageSocketItem e') = length (m_StorageSocketItem e) \<and>
    (\<forall>j < length (m_StorageSocketItem e). j \<noteq> k \<longrightarrow> item e' j = item e j)"
proof -
  consider "e' = e"
    | r where "on_item heap k (\<lambda>s. Some (CloseSocket (m_wRountID s) s)) e = Some (r, e')"
    | r where "on_item heap k (\<lambda>s. SendData (fst (env k)) (snd (env k)) (le_word tick @ le_word (0 :: uint32)) 8
          \<lparr>wMainCmdID = MDM_KN_COMMAND, wSubCmdID = SUB_KN_DETECT_SOCKET\<rparr> (m_wRountID s) s) e = Some (r, e')"
    using assms(3) unfolding detect_item_def by (auto split: if_splits)
  then show ?thesis
  proof cases
    case 1
    then show ?thesis using assms(1) by simp
  next
    case 2
    from on_item_step [OF assms(1,2) this] CloseSocket_step show ?thesis by blast
  next
    case 3
    from on_item_step [OF assms(1,2) this] SendData_step show ?thesis by blast
  qed
qed

lemma detect_items_inv:
  assumes "engine_inv p e" "set ks \<subseteq> {..<length (m_StorageSocketItem e)}" "detect_items heap env now brk ticks ks e = Some e'"
  shows "engine_inv p e'"
  using assms
proof (induction ks arbitrary: e)
  case (Cons k ks)
  obtain e1 where e1: "detect_item heap env now brk (m_dwRecvTickCount (item e k)) (ticks k) k e = Some e1" "detect_items heap env now brk ticks ks e1 = Some e'"
    using Cons.prems(3) by (auto split: bind_splits)
  show ?case using detect_item_inv [OF Cons.prems(1) _ e1(1)] Cons.IH [OF _ _ e1(2)] Cons.prems(2) by simp
qed simp

lemma active_bound: "engine_inv p e \<Longrightarrow> set (m_ActiveSocketItem e) \<subseteq> {..<length (m_StorageSocketItem e)}"
  by (auto simp: engine_inv_def pool_ok_def)

lemma sink_inv:
  assumes "engine_inv p e" "tn_OnQueueServiceSink heap env now now' ticks ident b e = Some e'"
  shows "engine_inv p e'"
proof -
  have d: "engine_inv p (e\<lparr>m_dwLastDetect := now'\<rparr>)" using assms(1) by (simp add: engine_inv_def pool_ok_def pool_item_ok_def)
  have step: "engine_inv p e1" if "on_item heap k f e = Some (r, e1)" "EnumSocketItem w e = Some k"
    "\<And>s r s'. f s = Some (r, s') \<Longrightarrow> item_step s s' \<and> item_grows s s'" for k f r e1 w
    using on_item_step [OF assms(1) _ that(1)] that(3) EnumSocketItem_bound [OF that(2)] by blast
  have sb: "send_batch heap env c pData n (m_ActiveSocketItem e) e = Some e' \<Longrightarrow> engine_inv p e'" for c pData n
    using send_batch_inv [OF assms(1) active_bound [OF assms(1)]] by blast
  have de: "detect_items heap env now brk ticks (m_ActiveSocketItem e) (e\<lparr>m_dwLastDetect := now'\<rparr>) = Some e' \<Longrightarrow> engine_inv p e'" for brk
    using detect_items_inv [OF d] active_bound [OF assms(1)] by simp
  show ?thesis using assms unfolding tn_OnQueueServiceSink_def sink_send_def sink_safe_close_def sink_allow_batch_def sink_detect_def
    by (auto split: if_splits bind_splits prod.splits elim!: sb de step
      dest: SendData_step CloseSocket_step ShutDownSocket_step AllowBatchSend_step)
qed

section \<open>The engine in service\<close>

text \<open>The engine with its threads between \<open>StartService\<close> and \<open>ConcludeService\<close>: the item that the accepting thread has taken for a
  connection and not yet attached, and what the thread of the send queue has left to do. The steps are what
  is done under one lock: the accepting thread takes an item, and attaches the connection to it; what is in flight completes;
  the thread of the send queue begins to handle a packet, with whatever is in its buffer, and goes on with it; the server closes a
  connection; anybody adds a request. A completion arrives only for what is in flight.\<close>

record engine_threads =
  eng :: tcp_engine
  accepting :: "(nat \<times> nat \<times> uint32) option"
  sinking :: sink_job

definition io_outstanding :: "completion \<Rightarrow> tcp_engine \<Rightarrow> bool" where
  "io_outstanding c e = (case c of
     RecvCompletion k xs tick cb resp_ok ok \<Rightarrow> k < length (m_StorageSocketItem e) \<and> m_bRecvIng (item e k)
   | SendCompletion k n tick ok \<Rightarrow> k < length (m_StorageSocketItem e) \<and> m_OverLappedSendActive (item e k) \<noteq> [])"

inductive engine_step :: "heap \<Rightarrow> engine_threads \<Rightarrow> engine_threads \<Rightarrow> bool" for heap where
  activate: "accepting t = None \<Longrightarrow> ActiveSocketItem fresh (eng t) = (Some k, e') \<Longrightarrow>
    engine_step heap t (t\<lparr>eng := e', accepting := Some (k, conn)\<rparr>)"
| attach: "accepting t = Some (k, h, addr) \<Longrightarrow> on_item heap k (\<lambda>s. Some (RecvData ok (Attach h addr tick now s))) (eng t) = Some (r, e') \<Longrightarrow>
    engine_step heap t (t\<lparr>eng := e', accepting := None\<rparr>)"
| completed: "io_outstanding c (eng t) \<Longrightarrow> rs_run heap bSuccess netname_deleted (Some c) (eng t) = Some (r, e') \<Longrightarrow>
    engine_step heap t (t\<lparr>eng := e'\<rparr>)"
| start: "sinking t = SinkIdle \<Longrightarrow> sink_start heap env now now' ident b (eng t) = Some (job, e') \<Longrightarrow>
    engine_step heap t (t\<lparr>eng := e', sinking := job\<rparr>)"
| go_on: "sink_next heap env tick (sinking t) (eng t) = Some (job, e') \<Longrightarrow> engine_step heap t (t\<lparr>eng := e', sinking := job\<rparr>)"
| close: "tn_CloseSocket heap i (eng t) = Some (r, e') \<Longrightarrow> engine_step heap t (t\<lparr>eng := e'\<rparr>)"
| post: "post_request heap ident ws stack n (eng t) = Some (r, e') \<Longrightarrow> engine_step heap t (t\<lparr>eng := e'\<rparr>)"

fun job_items :: "sink_job \<Rightarrow> nat list" where
  "job_items SinkIdle = []"
| "job_items (SinkBatch c pData n ks) = ks"
| "job_items (SinkDetect now brk ks) = ks"
| "job_items (SinkItem now brk rt k ks) = k # ks"

definition taken_item :: "engine_threads \<Rightarrow> nat option" where
  "taken_item t = map_option fst (accepting t)"

definition threads_inv :: "engine_threads \<Rightarrow> bool" where
  "threads_inv t \<longleftrightarrow> engine_inv (taken_item t) (eng t) \<and> set (job_items (sinking t)) \<subseteq> {..<length (m_StorageSocketItem (eng t))}"

lemma threads_invI:
  assumes "threads_inv t" "engine_inv (taken_item t') (eng t')" "length (m_StorageSocketItem (eng t)) \<le> length (m_StorageSocketItem (eng t'))"
    "set (job_items (sinking t')) \<subseteq> set (job_items (sinking t)) \<or> set (job_items (sinking t')) \<subseteq> {..<length (m_StorageSocketItem (eng t'))}"
  shows "threads_inv t'"
  using assms by (auto simp: threads_inv_def)

lemma completed_inv:
  assumes "engine_inv p e" "io_outstanding c e" "rs_run heap bSuccess netname_deleted (Some c) e = Some (r, e')"
  shows "engine_inv p e' \<and> length (m_StorageSocketItem e') = length (m_StorageSocketItem e)"
proof (cases c)
  case (RecvCompletion k xs tick cb resp_ok ok)
  then have k: "k < length (m_StorageSocketItem e)" "m_bRecvIng (item e k)" using assms(2) by (simp_all add: io_outstanding_def)
  then have "item_inv (item e k)" using assms(1) by (simp add: engine_inv_def pool_item_ok_def)
  then show ?thesis using assms RecvCompletion on_item_step [OF assms(1) k(1)] OnRecvCompleted_step k(2)
    by (auto simp: rs_run_def split: if_splits)
next
  case (SendCompletion k n tick ok)
  then have k: "k < length (m_StorageSocketItem e)" "m_OverLappedSendActive (item e k) \<noteq> []" using assms(2) by (simp_all add: io_outstanding_def)
  then have "item_inv (item e k)" using assms(1) by (simp add: engine_inv_def pool_item_ok_def)
  then show ?thesis using assms SendCompletion on_item_step [OF assms(1) k(1)] OnSendCompleted_step k(2)
    by (auto simp: rs_run_def split: if_splits)
qed

lemma sink_start_inv:
  assumes "engine_inv p e" "sink_start heap env now now' ident b e = Some (job, e')"
  shows "engine_inv p e' \<and> set (job_items job) \<subseteq> {..<length (m_StorageSocketItem e')}"
proof -
  have "engine_inv p (e\<lparr>m_dwLastDetect := now'\<rparr>)" using assms(1) by (simp add: engine_inv_def pool_ok_def pool_item_ok_def)
  then show ?thesis using assms active_bound [OF assms(1)] sink_inv [OF assms(1)]
    by (auto simp: sink_start_def split: if_splits bind_splits)
qed

lemma sink_next_inv:
  assumes "engine_inv p e" "set (job_items job) \<subseteq> {..<length (m_StorageSocketItem e)}" "sink_next heap env tick job e = Some (job', e')"
  shows "engine_inv p e' \<and> length (m_StorageSocketItem e') = length (m_StorageSocketItem e) \<and> set (job_items job') \<subseteq> set (job_items job)"
proof (cases job)
  case (SinkBatch c pData n ks)
  then show ?thesis using assms send_batch_inv [OF assms(1), of "[hd ks]" heap env c pData n e']
    by (cases ks) (auto simp: sink_next_def)
next
  case (SinkDetect now brk ks)
  then show ?thesis using assms by (cases ks) (auto simp: sink_next_def)
next
  case (SinkItem now brk rt k ks)
  then show ?thesis using assms detect_item_inv [OF assms(1), of k heap env now brk rt tick e'] by (auto simp: sink_next_def)
qed (use assms in \<open>simp add: sink_next_def\<close>)

lemma close_inv:
  assumes "engine_inv p e" "tn_CloseSocket heap i e = Some (r, e')"
  shows "engine_inv p e' \<and> length (m_StorageSocketItem e') = length (m_StorageSocketItem e)"
proof (cases "EnumSocketItem (LOWORD i) e")
  case None
  then show ?thesis using assms by (simp add: tn_CloseSocket_def)
next
  case (Some k)
  then show ?thesis using assms on_item_step [OF assms(1), of k heap "\<lambda>s. Some (CloseSocket (HIWORD i) s)" r e'] EnumSocketItem_bound CloseSocket_step
    by (simp add: tn_CloseSocket_def)
qed

lemma engine_step_inv:
  assumes "engine_step heap t t'" "threads_inv t"
  shows "threads_inv t'"
  using assms
proof (induction rule: engine_step.induct)
  case (activate t fresh k e' conn)
  have "engine_inv None (eng t)" using activate(1,3) by (simp add: threads_inv_def taken_item_def)
  from ActiveSocketItem_pool [OF this activate(2)] have "engine_inv (Some k) e'" .
  moreover have "length (m_StorageSocketItem (eng t)) \<le> length (m_StorageSocketItem e')"
    using activate(2) by (auto simp: ActiveSocketItem_def Let_def split: if_splits option.splits)
  ultimately show ?case using threads_invI [OF activate(3)] by (simp add: taken_item_def)
next
  case (attach t k h addr ok tick now r e')
  have i: "engine_inv (Some k) (eng t)" using attach(1,3) by (simp add: threads_inv_def taken_item_def)
  have "length (m_StorageSocketItem e') = length (m_StorageSocketItem (eng t))" using on_item_length [OF attach(2)] .
  then show ?case using attach_inv [OF i attach(2)] threads_invI [OF attach(3)] by (simp add: taken_item_def)
next
  case (completed c t bSuccess netname_deleted r e')
  then show ?case using completed_inv [of "taken_item t" "eng t"] threads_invI [OF completed(3)] by (simp add: threads_inv_def taken_item_def)
next
  case (start t env now now' ident b job e')
  then show ?case using sink_start_inv [of "taken_item t" "eng t"] by (fastforce simp: threads_inv_def taken_item_def)
next
  case (go_on env tick t job e')
  then show ?case using sink_next_inv [of "taken_item t" "eng t" "sinking t"] by (fastforce simp: threads_inv_def taken_item_def)
next
  case (close i t r e')
  then show ?case using close_inv [of "taken_item t" "eng t"] threads_invI [OF close(2)] by (simp add: threads_inv_def taken_item_def)
next
  case (post ident ws stack n t r e')
  then obtain q where "e' = (eng t)\<lparr>m_SendQueueService := q\<rparr>" by (auto simp: post_request_def split: bind_splits)
  then show ?case using post(2) by (simp add: threads_inv_def taken_item_def engine_inv_def pool_ok_def pool_item_ok_def)
qed

text \<open>Without interruption the parts of the handler make up the handler, and those of the accepting thread its run.\<close>

lemma batch_uninterrupted:
  "send_batch heap env c pData n ks (eng t) = Some e' \<Longrightarrow> sinking t = SinkBatch c pData n ks \<Longrightarrow>
   (engine_step heap)\<^sup>*\<^sup>* t (t\<lparr>eng := e', sinking := SinkIdle\<rparr>)"
proof (induction ks arbitrary: t)
  case Nil
  then show ?case using engine_step.go_on [of heap env 0 t SinkIdle "eng t"] by (auto simp: sink_next_def)
next
  case (Cons k ks)
  obtain e1 where e1: "send_batch heap env c pData n [k] (eng t) = Some e1" "send_batch heap env c pData n ks e1 = Some e'"
    using Cons.prems(1) by (auto split: if_splits bind_splits)
  let ?t = "t\<lparr>eng := e1, sinking := SinkBatch c pData n ks\<rparr>"
  have "engine_step heap t ?t" using engine_step.go_on [of heap env 0 t] e1(1) Cons.prems(2) by (simp add: sink_next_def del: send_batch.simps)
  moreover have "(engine_step heap)\<^sup>*\<^sup>* ?t (?t\<lparr>eng := e', sinking := SinkIdle\<rparr>)" by (rule Cons.IH) (simp_all add: e1(2))
  ultimately show ?case by (simp add: converse_rtranclp_into_rtranclp)
qed

lemma detect_uninterrupted:
  "detect_items heap env now brk ticks ks (eng t) = Some e' \<Longrightarrow> sinking t = SinkDetect now brk ks \<Longrightarrow>
   (engine_step heap)\<^sup>*\<^sup>* t (t\<lparr>eng := e', sinking := SinkIdle\<rparr>)"
proof (induction ks arbitrary: t)
  case Nil
  then show ?case using engine_step.go_on [of heap env 0 t SinkIdle "eng t"] by (auto simp: sink_next_def)
next
  case (Cons k ks)
  let ?rt = "m_dwRecvTickCount (item (eng t) k)"
  obtain e1 where e1: "detect_item heap env now brk ?rt (ticks k) k (eng t) = Some e1" "detect_items heap env now brk ticks ks e1 = Some e'"
    using Cons.prems(1) by (auto split: bind_splits)
  let ?t1 = "t\<lparr>eng := eng t, sinking := SinkItem now brk ?rt k ks\<rparr>" and ?t2 = "t\<lparr>eng := e1, sinking := SinkDetect now brk ks\<rparr>"
  have "engine_step heap t ?t1" using Cons.prems(2) by (intro engine_step.go_on [where env = env and tick = 0]) (simp add: sink_next_def)
  moreover have "engine_step heap ?t1 (?t1\<lparr>eng := e1, sinking := SinkDetect now brk ks\<rparr>)"
    using e1(1) by (intro engine_step.go_on [where env = env and tick = "ticks k"]) (simp add: sink_next_def)
  moreover have "(engine_step heap)\<^sup>*\<^sup>* ?t2 (?t2\<lparr>eng := e', sinking := SinkIdle\<rparr>)" by (rule Cons.IH) (simp_all add: e1(2))
  ultimately show ?case by (simp add: converse_rtranclp_into_rtranclp)
qed

lemma sink_uninterrupted:
  assumes "tn_OnQueueServiceSink heap env now now' ticks ident b (eng t) = Some e'" "sinking t = SinkIdle"
  shows "(engine_step heap)\<^sup>*\<^sup>* t (t\<lparr>eng := e'\<rparr>)"
proof -
  have idle: "t\<lparr>eng := e, sinking := SinkIdle\<rparr> = t\<lparr>eng := e\<rparr>" for e using assms(2) by (cases t) simp
  consider (batch) "ident = QUEUE_SEND_REQUEST" "field 4 b = Some (0 :: uint32)" | (detect) "ident = QUEUE_DETECT_SOCKET"
    | (single) "\<not> (ident = QUEUE_SEND_REQUEST \<and> field 4 b = Some (0 :: uint32))" "ident \<noteq> QUEUE_DETECT_SOCKET" by blast
  then show ?thesis
  proof cases
    case batch
    then obtain c n where c: "field_command 0 b = Some c" "field 8 b = Some n" "send_batch heap env c (drop 10 b) n (m_ActiveSocketItem (eng t)) (eng t) = Some e'"
      using assms(1) by (auto simp: tn_OnQueueServiceSink_def queue_ids sink_send_def split: bind_splits)
    let ?t = "t\<lparr>eng := eng t, sinking := SinkBatch c (drop 10 b) n (m_ActiveSocketItem (eng t))\<rparr>"
    have "engine_step heap t ?t" using assms(2) c batch by (intro engine_step.start [where ident = ident and b = b and env = env and now = now and now' = now']) (simp_all add: sink_start_def)
    moreover have "(engine_step heap)\<^sup>*\<^sup>* ?t (?t\<lparr>eng := e', sinking := SinkIdle\<rparr>)" using c(3) by (intro batch_uninterrupted) simp_all
    ultimately show ?thesis by (simp add: converse_rtranclp_into_rtranclp idle)
  next
    case detect
    let ?e = "(eng t)\<lparr>m_dwLastDetect := now'\<rparr>" and ?brk = "max (now - m_dwLastDetect (eng t)) TIME_BREAK_READY"
    let ?t = "t\<lparr>eng := ?e, sinking := SinkDetect now ?brk (m_ActiveSocketItem (eng t))\<rparr>"
    have "detect_items heap env now ?brk ticks (m_ActiveSocketItem (eng t)) ?e = Some e'"
      using assms(1) detect by (simp add: tn_OnQueueServiceSink_def queue_ids sink_detect_def)
    then have "(engine_step heap)\<^sup>*\<^sup>* ?t (?t\<lparr>eng := e', sinking := SinkIdle\<rparr>)" by (intro detect_uninterrupted) simp_all
    moreover have "engine_step heap t ?t" using assms(2) detect by (intro engine_step.start [where ident = ident and b = b and env = env and now = now and now' = now']) (simp_all add: sink_start_def queue_ids)
    ultimately show ?thesis by (simp add: converse_rtranclp_into_rtranclp idle)
  next
    case single
    then have "tn_OnQueueServiceSink heap env now now' (\<lambda>_. 0) ident b (eng t) = Some e'"
      using assms(1) by (auto simp: tn_OnQueueServiceSink_def split: if_splits)
    then have "engine_step heap t (t\<lparr>eng := e', sinking := SinkIdle\<rparr>)"
      using assms(2) single by (intro engine_step.start [where ident = ident and b = b and env = env and now = now and now' = now']) (auto simp: sink_start_def)
    then show ?thesis by (simp add: idle)
  qed
qed

lemma accept_uninterrupted:
  assumes "accept_run heap (Some (h, addr)) fresh tick now ok (eng t) = Some (Accepted k, e')" "accepting t = None"
  shows "(engine_step heap)\<^sup>*\<^sup>* t (t\<lparr>eng := e'\<rparr>)"
proof -
  obtain e1 r where e1: "ActiveSocketItem fresh (eng t) = (Some k, e1)"
      "on_item heap k (\<lambda>s. Some (RecvData ok (Attach h addr tick now s))) e1 = Some (r, e')"
    using assms(1) by (auto simp: accept_run_def split: prod.splits option.splits bind_splits)
  let ?t = "t\<lparr>eng := e1, accepting := Some (k, h, addr)\<rparr>"
  have "engine_step heap t ?t" by (rule engine_step.activate [OF assms(2) e1(1)])
  moreover have "engine_step heap ?t (?t\<lparr>eng := e', accepting := None\<rparr>)" using e1(2) by (intro engine_step.attach) simp_all
  moreover have "?t\<lparr>eng := e', accepting := None\<rparr> = t\<lparr>eng := e'\<rparr>" using assms(2) by (cases t) simp
  ultimately show ?thesis by (metis converse_rtranclp_into_rtranclp r_into_rtranclp)
qed

subsection \<open>Identifiers\<close>

lemma MAKELONG_parts: "LOWORD (MAKELONG a b) = a" "HIWORD (MAKELONG a b) = b" "MAKELONG (LOWORD i) (HIWORD i) = i"
proof -
  have "\<not> bit (a :: uint16) (16 + n)" for a n using bit_imp_le_length [of a "16 + n"] by auto
  then show "LOWORD (MAKELONG a b) = a" "HIWORD (MAKELONG a b) = b" "MAKELONG (LOWORD i) (HIWORD i) = i"
    unfolding MAKELONG_def LOWORD_def HIWORD_def
    by (auto intro!: bit_word_eqI simp: bit_simps dest: bit_imp_le_length)
qed

lemma GetSocketID_iff: "GetSocketID s = i \<longleftrightarrow> m_wIndex s = LOWORD i \<and> m_wRountID s = HIWORD i"
  unfolding GetSocketID_def using MAKELONG_parts by metis

lemma engine_index:
  assumes "engine_inv p e" "k < length (m_StorageSocketItem e)"
  shows "m_wIndex (item e k) = of_nat k" "unat (of_nat k :: uint16) = k"
proof -
  show "m_wIndex (item e k) = of_nat k" using assms by (simp add: engine_inv_def pool_item_ok_def session_view_def)
  have "unat (m_wMaxSocketItem e) < 65536" using unsigned_less [of "m_wMaxSocketItem e"] by simp
  then show "unat (of_nat k :: uint16) = k" using assms by (simp add: engine_inv_def pool_ok_def unat_of_nat)
qed

lemma engine_reachable: "(engine_step heap)\<^sup>*\<^sup>* t t' \<Longrightarrow> threads_inv t \<Longrightarrow> threads_inv t'"
  by (induction rule: rtranclp_induct) (auto dest: engine_step_inv)

text \<open>The engine as it starts.\<close>

definition in_service :: "uint16 \<Rightarrow> uint16 \<Rightarrow> byte list \<Rightarrow> tcp_engine" where
  "in_service port wMaxConnect buf = snd (tn_StartService True port True True True
     (snd (SetTCPNetworkEngineEvent (Some qs_started) (snd (SetServiceParameter port wMaxConnect (CTCPNetworkEngine buf))))))"

lemma in_service_fields [simp]:
  "tn_bService (in_service port m buf)" "m_FreeSocketItem (in_service port m buf) = []" "m_ActiveSocketItem (in_service port m buf) = []"
  "m_StorageSocketItem (in_service port m buf) = []" "m_wMaxSocketItem (in_service port m buf) = m" "m_wListenPort (in_service port m buf) = port"
  "m_QueueServiceEvent (in_service port m buf) = \<lparr>m_cbBuffer = buf, m_pIQueueService = qs_started\<rparr>" "m_SendQueueService (in_service port m buf) = qs_started"
  by (simp_all add: in_service_def tn_StartService_def SetTCPNetworkEngineEvent_def SetServiceParameter_def CTCPNetworkEngine_def Let_def
    qs_StartService_def qs_started_def SetQueueServiceSink_def)

definition started :: "uint16 \<Rightarrow> uint16 \<Rightarrow> byte list \<Rightarrow> engine_threads" where
  "started port wMaxConnect buf = \<lparr>eng = in_service port wMaxConnect buf, accepting = None, sinking = SinkIdle\<rparr>"

lemma started_inv: "(engine_step heap)\<^sup>*\<^sup>* (started port m buf) t \<Longrightarrow> engine_inv (taken_item t) (eng t)"
proof -
  have "threads_inv (started port m buf)" by (simp add: threads_inv_def started_def taken_item_def engine_inv_def pool_ok_def)
  moreover assume "(engine_step heap)\<^sup>*\<^sup>* (started port m buf) t"
  ultimately show ?thesis using engine_reachable by (auto simp: threads_inv_def)
qed

text \<open>Property C15: the pool of connections. Whatever the threads of the started engine do, each step under one lock at a time, as
  long as completions arrive only for operations under way and no step accesses memory outside its buffers, every item is in
  exactly one of the two lists, once; there are never more items than the configured maximum; the active ones are
  exactly those with a session that the sink has not been told the end of, and the one that the accepting thread is about to
  attach, if any; and the identifier of an item leads back to it, so that a request for a connection reaches that
  connection.\<close>

theorem connection_pool:
  assumes "(engine_step heap)\<^sup>*\<^sup>* (started port wMaxConnect buf) t" "e = eng t"
  shows "distinct (m_FreeSocketItem e @ m_ActiveSocketItem e) \<and>
    set (m_FreeSocketItem e @ m_ActiveSocketItem e) = {..<length (m_StorageSocketItem e)} \<and>
    length (m_StorageSocketItem e) \<le> unat (m_wMaxSocketItem e) \<and>
    (\<forall>k < length (m_StorageSocketItem e). (k \<in> set (m_ActiveSocketItem e) \<longleftrightarrow> \<not> m_bNotify (item e k) \<or> (\<exists>conn. accepting t = Some (k, conn))) \<and>
       EnumSocketItem (LOWORD (GetSocketID (item e k))) e = Some k \<and> HIWORD (GetSocketID (item e k)) = m_wRountID (item e k))"
proof -
  have i: "engine_inv (taken_item t) e" using started_inv [OF assms(1)] assms(2) by simp
  have "EnumSocketItem (LOWORD (GetSocketID (item e k))) e = Some k \<and> HIWORD (GetSocketID (item e k)) = m_wRountID (item e k)"
    if "k < length (m_StorageSocketItem e)" for k
    using engine_index [OF i that] that by (simp add: EnumSocketItem_def GetSocketID_def MAKELONG_parts)
  moreover have "taken_item t = Some k \<longleftrightarrow> (\<exists>conn. accepting t = Some (k, conn))" for k
    by (auto simp: taken_item_def)
  ultimately show ?thesis using i by (simp add: engine_inv_def pool_ok_def pool_item_ok_def)
qed

lemma accept_event_posted:
  assumes "length (m_cbBuffer q) = MAX_ASYNCHRONISM_DATA" "m_pIQueueService q = qs_started"
  shows "\<exists>q'. PostNetworkAcceptEvent (\<lambda>n. Some (\<lambda>_. 0)) i a q = Some (True, q')"
proof -
  have "\<exists>r s. AddToQueue (\<lambda>n. Some (\<lambda>_. 0)) 7 xs (of_nat (length xs)) qs_started = Some (r, s)" if "length xs = 8" for xs
    using InsertData_enqueues [OF queue_rep_empty, of "(7, xs)" "\<lambda>n. Some (\<lambda>_. 0)"] that
    by (auto simp: AddToQueue_def packet_ok_def queue_ambiguous_def CYSDataQueue_def qs_started_def qs_StartService_def SetQueueServiceSink_def CQueueService_def)
  from this [of "le_word i @ le_word a"] show ?thesis
    using post_adds [of "NetworkAcceptEvent i a" q "\<lambda>n. Some (\<lambda>_. 0)"] assms by (auto simp: EVENT_TCP_NETWORK_ACCEPT_def)
qed

text \<open>One connection is accepted.\<close>

lemma one_accepted:
  "\<exists>t. (engine_step (\<lambda>n. Some (\<lambda>_. 0)))\<^sup>*\<^sup>* (started 8000 100 (replicate MAX_ASYNCHRONISM_DATA 0)) t \<and> accepting t = None \<and> sinking t = SinkIdle \<and>
     m_ActiveSocketItem (eng t) = [0] \<and> m_StorageSocketItem (eng t) = [snd (RecvData True (Attach 5 9 1 2 (CServerSocketItem [] 0)))]"
proof -
  let ?heap = "\<lambda>n. Some (\<lambda>_. 0)" and ?b = "replicate MAX_ASYNCHRONISM_DATA (0 :: byte)"
  let ?t = "started 8000 100 ?b"
  obtain q where q: "PostNetworkAcceptEvent ?heap (MAKELONG 0 1) 9 \<lparr>m_cbBuffer = ?b, m_pIQueueService = qs_started\<rparr> = Some (True, q)"
    using accept_event_posted [of "\<lparr>m_cbBuffer = ?b, m_pIQueueService = qs_started\<rparr>"] by auto
  obtain e where e: "accept_run ?heap (Some (5, 9)) (Some []) 1 2 True (eng ?t) = Some (Accepted 0, e)" "m_ActiveSocketItem e = [0]"
      "m_StorageSocketItem e = [snd (RecvData True (Attach 5 9 1 2 (CServerSocketItem [] 0)))]"
    using q by (simp add: started_def accept_run_def ActiveSocketItem_def Let_def on_item_def RecvData_def Attach_def CServerSocketItem_def GetSocketID_def
        tn_OnSocketAcceptEvent_def)
  have "(engine_step ?heap)\<^sup>*\<^sup>* ?t (?t\<lparr>eng := e\<rparr>)" by (rule accept_uninterrupted [OF e(1)]) (simp add: started_def)
  then show ?thesis using e(2,3) by (intro exI [of _ "?t\<lparr>eng := e\<rparr>"]) (simp add: started_def)
qed

theorem connection_pool_witness:
  "\<exists>t. (engine_step (\<lambda>n. Some (\<lambda>_. 0)))\<^sup>*\<^sup>* (started 8000 100 (replicate MAX_ASYNCHRONISM_DATA 0)) t \<and>
     m_ActiveSocketItem (eng t) = [0] \<and> EnumSocketItem (LOWORD (GetSocketID (item (eng t) 0))) (eng t) = Some 0"
proof -
  obtain t where r: "(engine_step (\<lambda>n. Some (\<lambda>_. 0)))\<^sup>*\<^sup>* (started 8000 100 (replicate MAX_ASYNCHRONISM_DATA 0)) t"
    and e: "m_ActiveSocketItem (eng t) = [0]" "m_StorageSocketItem (eng t) = [snd (RecvData True (Attach 5 9 1 2 (CServerSocketItem [] 0)))]"
    using one_accepted by blast
  have "0 < length (m_StorageSocketItem (eng t))" by (simp add: e)
  then show ?thesis using connection_pool [OF r refl] e(1) r by blast
qed

text \<open>The identifier of a connection protects it. \<open>CloseSocket\<close> with an identifier closes the connection that has this identifier now, and
  no other; with an identifier that no connection has any more, such as that of an earlier session of the same item, it changes nothing
  and says so.\<close>

theorem close_by_identifier:
  assumes "(engine_step heap)\<^sup>*\<^sup>* (started port wMaxConnect buf) t" "e = eng t" "tn_CloseSocket heap i e = Some (r, e')"
  shows "(r \<longleftrightarrow> (\<exists>k < length (m_StorageSocketItem e). GetSocketID (item e k) = i)) \<and> (\<not> r \<longrightarrow> e' = e) \<and>
    (\<forall>k < length (m_StorageSocketItem e). if GetSocketID (item e k) = i then m_hSocket (item e' k) = None else item e' k = item e k)"
proof -
  have i: "engine_inv (taken_item t) e" using started_inv [OF assms(1)] assms(2) by simp
  have id: "GetSocketID (item e k) = i \<longleftrightarrow> k = unat (LOWORD i) \<and> m_wRountID (item e k) = HIWORD i" if "k < length (m_StorageSocketItem e)" for k
    using engine_index [OF i that] by (metis GetSocketID_iff of_nat_unat ucast_id)
  show ?thesis
  proof (cases "EnumSocketItem (LOWORD i) e")
    case None
    then show ?thesis using assms(3) id by (auto simp: tn_CloseSocket_def EnumSocketItem_def split: if_splits)
  next
    case (Some k)
    then have k: "k < length (m_StorageSocketItem e)" "k = unat (LOWORD i)" using EnumSocketItem_bound by blast+
    have o: "on_item heap k (\<lambda>s. Some (CloseSocket (HIWORD i) s)) e = Some (r, e')" using assms(3) Some by (simp add: tn_CloseSocket_def)
    show ?thesis
    proof (cases "m_wRountID (item e k) = HIWORD i")
      case False
      then have "r = False" "e' = e" using o by (auto simp: on_item_def CloseSocket_def)
      then show ?thesis using False id k by auto
    next
      case True
      have "r" using o True by (auto simp: on_item_def CloseSocket_def Let_def split: bind_splits)
      moreover have "m_hSocket (item e' k) = None" "\<forall>j < length (m_StorageSocketItem e). j \<noteq> k \<longrightarrow> item e' j = item e j"
        using on_item_step [OF i k(1) o] CloseSocket_step CloseSocket_effect(1) [of "item e k"] True by auto
      ultimately show ?thesis using True id k by auto
    qed
  qed
qed

text \<open>The identifier of the next session, which nobody has yet.\<close>

theorem close_by_identifier_witness:
  "\<exists>t e. (engine_step (\<lambda>n. Some (\<lambda>_. 0)))\<^sup>*\<^sup>* (started 8000 100 (replicate MAX_ASYNCHRONISM_DATA 0)) t \<and> e = eng t \<and>
     tn_CloseSocket (\<lambda>n. Some (\<lambda>_. 0)) (MAKELONG 0 2) e = Some (False, e) \<and> m_hSocket (item e 0) = Some 5"
proof -
  obtain t e where r: "(engine_step (\<lambda>n. Some (\<lambda>_. 0)))\<^sup>*\<^sup>* (started 8000 100 (replicate MAX_ASYNCHRONISM_DATA 0)) t" and t: "e = eng t"
    and e: "m_ActiveSocketItem e = [0]" "m_StorageSocketItem e = [snd (RecvData True (Attach 5 9 1 2 (CServerSocketItem [] 0)))]"
    using one_accepted by blast
  have "item e 0 = snd (RecvData True (Attach 5 9 1 2 (CServerSocketItem [] 0)))" by (simp add: e)
  then have f: "m_hSocket (item e 0) = Some 5" "m_wRountID (item e 0) = 1" by (simp_all add: RecvData_def Attach_def CServerSocketItem_def Let_def)
  have "EnumSocketItem (LOWORD (MAKELONG 0 2)) e = Some 0" by (simp add: EnumSocketItem_def MAKELONG_parts e)
  then obtain r' e' where c: "tn_CloseSocket (\<lambda>n. Some (\<lambda>_. 0)) (MAKELONG 0 2) e = Some (r', e')"
    using f by (auto simp: tn_CloseSocket_def on_item_def CloseSocket_def MAKELONG_parts)
  have "\<not> r' \<and> e' = e"
    using close_by_identifier [OF r t c] f e by (auto simp: GetSocketID_iff MAKELONG_parts)
  then show ?thesis using r t c f by auto
qed

section \<open>From a request to the connection\<close>

definition request :: "byte list \<Rightarrow> uint32 \<Rightarrow> TCP_Command \<Rightarrow> uint16 \<Rightarrow> byte list \<Rightarrow> byte list" where
  "request stack i c n xs = le_command c @ le_word i @ le_word n @ xs @ take 2 (drop (10 + length xs) stack)"

lemma write_send_fields:
  assumes "length stack = 16396" "length xs \<le> SOCKET_TCP_BUFFER"
  shows "\<exists>rest. write_fields (send_fields i c n xs) stack = Some (request stack i c n xs @ rest)"
proof -
  have "drop 2 (drop (10 + length xs) stack) = drop (12 + length xs) stack" by simp
  then have "drop (10 + length xs) stack = take 2 (drop (10 + length xs) stack) @ drop (12 + length xs) stack" by (metis append_take_drop_id)
  then show ?thesis using assms
    by (intro exI [of _ "drop (12 + length xs) stack"])
      (simp add: send_fields_def mem_write_def request_def le_command_def SOCKET_TCP_BUFFER_def add.commute)
qed

lemma length_request: "length stack = 16396 \<Longrightarrow> length xs \<le> SOCKET_TCP_BUFFER \<Longrightarrow> length (request stack i c n xs) = 12 + length xs"
  by (simp add: request_def le_command_def SOCKET_TCP_BUFFER_def)

lemma tn_SendData_form:
  assumes "tn_bService e" "length stack = 16396" "unat n \<le> length pData" "unat n + 8 \<le> SOCKET_TCP_BUFFER"
  shows "tn_SendData heap stack i c pData n e = do {
     (r, q) \<leftarrow> AddToQueue heap QUEUE_SEND_REQUEST (request stack i c n (take (unat n) pData)) (12 + n) (m_SendQueueService e);
     Some (r, e\<lparr>m_SendQueueService := q\<rparr>)
   }"
proof -
  let ?xs = "take (unat n) pData"
  have l: "length ?xs = unat n" using assms(3) by simp
  obtain rest where w: "write_fields (send_fields i c n ?xs) stack = Some (request stack i c n ?xs @ rest)"
    using write_send_fields [OF assms(2), of ?xs i c n] assms(4) l by auto
  have lr: "length (request stack i c n ?xs) = 12 + unat n" using length_request [OF assms(2), of ?xs] assms(4) l by simp
  have "unat (12 + n) = 12 + unat n" using assms(4) by (simp add: unat_word_ariths SOCKET_TCP_BUFFER_def)
  then have "AddToQueue heap QUEUE_SEND_REQUEST (request stack i c n ?xs @ rest) (12 + n) s =
      AddToQueue heap QUEUE_SEND_REQUEST (request stack i c n ?xs) (12 + n) s" for s
    using AddToQueue_prefix [of "12 + n" "request stack i c n ?xs @ rest"] lr by simp
  then show ?thesis using assms w by (simp add: tn_SendData_def post_request_def mem_read_def)
qed

text \<open>What the thread of the queue does for a request, from the fields of the request.\<close>

definition serve :: "heap \<Rightarrow> send_env \<Rightarrow> uint32 \<Rightarrow> TCP_Command \<Rightarrow> uint16 \<Rightarrow> byte list \<Rightarrow> tcp_engine \<Rightarrow> tcp_engine option" where
  "serve heap env i c n xs e =
     (if i = 0 then send_batch heap env c xs n (m_ActiveSocketItem e) e
      else do {
        k \<leftarrow> EnumSocketItem (LOWORD i) e;
        map_option snd (on_item heap k (SendData (fst (env k)) (snd (env k)) xs n c (HIWORD i)) e)
      })"

lemma SendData_prefix:
  assumes "length xs = unat n"
  shows "SendData fresh ok (xs @ rest) n c r = SendData fresh ok xs n c r"
proof -
  have "mem_read 0 (unat n) (xs @ rest) = mem_read 0 (unat n) xs" using assms by (simp add: mem_read_def)
  then show ?thesis unfolding SendData_def fun_eq_iff by (simp only:) simp
qed

lemma send_batch_prefix:
  assumes "length xs = unat n"
  shows "send_batch heap env c (xs @ rest) n ks e = send_batch heap env c xs n ks e"
  by (induction ks arbitrary: e) (auto simp: SendData_prefix [OF assms] split: bind_splits)

lemma sink_request:
  assumes "length xs = unat n"
  shows "tn_OnQueueServiceSink heap env now now' ticks QUEUE_SEND_REQUEST (request stack i c n xs @ rest) e = serve heap env i c n xs e"
proof -
  let ?b = "request stack i c n xs @ rest"
  have f: "field_command 0 ?b = Some c" "field 4 ?b = Some i" "field 8 ?b = Some n"
    by (simp_all add: request_def field_command_def field_def mem_read_def le_command_def)
  have d: "drop 10 ?b = xs @ take 2 (drop (10 + length xs) stack) @ rest" by (simp add: request_def le_command_def)
  have m: "Option.bind x (\<lambda>(_, e). Some e) = map_option snd x" for x :: "(bool \<times> tcp_engine) option" by (cases x) auto
  show ?thesis unfolding tn_OnQueueServiceSink_def sink_send_def serve_def f d bind.bind_lunit
    by (simp add: SendData_prefix [OF assms] send_batch_prefix [OF assms] m)
qed

text \<open>From a request to the connection. A message that \<open>SendData\<close> of the engine accepts, and that leaves room for the structure, goes into the
  send queue as one packet; when the thread of the queue gets this packet, whatever was in its buffer before, it calls \<open>SendData\<close> of the item
  with the index of the identifier, with the number of the session, the command and exactly the data of the caller.\<close>

theorem send_request_reaches_item:
  assumes "tn_bService e" "length stack = 16396" "unat n \<le> length pData" "unat n + 12 \<le> MAX_ASYNCHRONISM_DATA"
  shows "\<exists>xs. length xs = 12 + unat n \<and>
    tn_SendData heap stack i c pData n e = do {
      (r, q) \<leftarrow> AddToQueue heap QUEUE_SEND_REQUEST xs (of_nat (length xs)) (m_SendQueueService e);
      Some (r, e\<lparr>m_SendQueueService := q\<rparr>)
    } \<and>
    tn_OnQueueServiceSink heap env now now' ticks QUEUE_SEND_REQUEST (xs @ drop (length xs) b) e' = serve heap env i c n (take (unat n) pData) e'"
proof -
  let ?xs = "request stack i c n (take (unat n) pData)"
  have l: "unat n + 8 \<le> SOCKET_TCP_BUFFER" using assms(4) by (simp add: SOCKET_TCP_BUFFER_def MAX_ASYNCHRONISM_DATA_def)
  have lx: "length ?xs = 12 + unat n" using length_request [OF assms(2), of "take (unat n) pData"] assms(3) l by simp
  have "(of_nat (length ?xs) :: uint16) = 12 + n" unfolding lx by (simp add: ucast_id)
  then show ?thesis using lx tn_SendData_form [OF assms(1-3) l, of heap i c] sink_request [of "take (unat n) pData" n heap env now now' ticks stack i c] assms(3)
    by (intro exI [of _ ?xs]) simp
qed

text \<open>A message of two bytes for the first connection.\<close>

theorem send_request_reaches_item_witness:
  "\<exists>xs. length xs = 14 \<and>
    tn_SendData (\<lambda>n. Some (\<lambda>_. 0)) (replicate 16396 7) (MAKELONG 0 1) \<lparr>wMainCmdID = 3, wSubCmdID = 100\<rparr> [5, 6] 2 (in_service 8000 100 []) = do {
      (r, q) \<leftarrow> AddToQueue (\<lambda>n. Some (\<lambda>_. 0)) QUEUE_SEND_REQUEST xs (of_nat (length xs)) qs_started;
      Some (r, (in_service 8000 100 [])\<lparr>m_SendQueueService := q\<rparr>)
    } \<and>
    tn_OnQueueServiceSink (\<lambda>n. Some (\<lambda>_. 0)) (\<lambda>k. (None, True)) 0 0 (\<lambda>k. 0) QUEUE_SEND_REQUEST (xs @ drop (length xs) (replicate 16384 0)) (in_service 8000 100 []) =
    serve (\<lambda>n. Some (\<lambda>_. 0)) (\<lambda>k. (None, True)) (MAKELONG 0 1) \<lparr>wMainCmdID = 3, wSubCmdID = 100\<rparr> 2 [5, 6] (in_service 8000 100 [])"
proof -
  have "tn_bService (in_service 8000 100 [])" "length (replicate 16396 (7 :: byte)) = 16396" "unat (2 :: uint16) \<le> length [5 :: byte, 6]"
      "unat (2 :: uint16) + 12 \<le> MAX_ASYNCHRONISM_DATA" by (simp_all add: MAX_ASYNCHRONISM_DATA_def)
  from send_request_reaches_item [OF this, of "\<lambda>n. Some (\<lambda>_. 0)" "MAKELONG 0 1" "\<lparr>wMainCmdID = 3, wSubCmdID = 100\<rparr>" "\<lambda>k. (None, True)" 0 0 "\<lambda>k. 0"
      "replicate 16384 0" "in_service 8000 100 []"]
  show ?thesis by simp
qed

text \<open>A message of 16373 to 16376 bytes is lost and an old one is sent again. The engine accepts the message, since it fits a packet, but with the
  12 bytes of the structure it is larger than the buffer of the queue's thread: the queue hands over an empty packet, and the thread carries out the request that its
  buffer still holds from before, to the connection of that request.\<close>

theorem oversized_send_replays:
  assumes "tn_bService e" "length stack = 16396" "unat n \<le> length pData" "16372 < unat n" "unat n \<le> 16376"
    and "queue_rep (m_DataQueue (m_SendQueueService e)) []"
    and "tn_SendData heap stack i c pData n e = Some (r, e1)" "m_dwDataPacketCount (m_DataQueue (m_SendQueueService e1)) = 1"
    and "length xs' = unat n'" "b = request stack' i' c' n' xs' @ rest"
  shows "r \<and> (\<exists>head q. GetData (of_nat MAX_ASYNCHRONISM_DATA) (m_SendQueueService e1) = Some (Some (head, []), q) \<and>
    tn_OnQueueServiceSink heap env now now' ticks (wIdentifier head) ([] @ drop 0 b) e' = serve heap env i' c' n' xs' e')"
proof -
  let ?p = "(QUEUE_SEND_REQUEST, request stack i c n (take (unat n) pData))" and ?q = "m_DataQueue (m_SendQueueService e)"
  have l: "unat n + 8 \<le> SOCKET_TCP_BUFFER" using assms(5) by (simp add: SOCKET_TCP_BUFFER_def)
  have lp: "length (snd ?p) = 12 + unat n" using length_request [OF assms(2), of "take (unat n) pData"] assms(3) l by simp
  have "(of_nat (length (snd ?p)) :: uint16) = 12 + n" unfolding lp by (simp add: ucast_id)
  then obtain ok q1 where q1: "InsertData heap (fst ?p) (snd ?p) (of_nat (length (snd ?p))) ?q = Some (ok, q1)" "r"
      "e1 = e\<lparr>m_SendQueueService := post_completion True ((m_SendQueueService e)\<lparr>m_DataQueue := q1\<rparr>)\<rparr>"
    using assms(7) tn_SendData_form [OF assms(1-3) l, of heap i c] by (auto simp: AddToQueue_def split: bind_splits)
  have "m_dwDataPacketCount q1 = 1" using assms(8) q1(3) by (simp add: post_completion_def)
  moreover have "\<not> queue_ambiguous ?q" "m_dwDataPacketCount ?q = 0" using assms(6) by (simp_all add: queue_rep_def queue_ambiguous_def word_unat_eq_iff)
  ultimately have "queue_rep q1 [?p]"
    using InsertData_enqueues [OF assms(6), of ?p heap] q1(1) lp assms(5) by (auto simp: packet_ok_def)
  then obtain q2 where q2: "DistillData (of_nat MAX_ASYNCHRONISM_DATA) q1 = Some (Some (delivered (of_nat MAX_ASYNCHRONISM_DATA) ?p), q2)"
    using DistillData_dequeues by blast
  have "delivered (of_nat MAX_ASYNCHRONISM_DATA) ?p = ((packet_head ?p)\<lparr>wDataSize := 0\<rparr>, [])"
    using lp assms(4) by (simp add: delivered_def MAX_ASYNCHRONISM_DATA_def)
  then have "GetData (of_nat MAX_ASYNCHRONISM_DATA) (m_SendQueueService e1) =
      Some (Some ((packet_head ?p)\<lparr>wDataSize := 0\<rparr>, []), (m_SendQueueService e1)\<lparr>m_DataQueue := q2\<rparr>)"
    using q2 q1(3) by (simp add: GetData_def post_completion_def)
  moreover have "wIdentifier ((packet_head ?p)\<lparr>wDataSize := 0\<rparr>) = QUEUE_SEND_REQUEST" by (simp add: packet_head_def)
  ultimately show ?thesis using q1(2) sink_request [OF assms(9)] assms(10) by auto
qed

text \<open>A message of 16373 bytes, after a short one to the first connection.\<close>

lemma big_packet_inserted:
  assumes "length xs = 16385"
  shows "\<exists>q. InsertData (\<lambda>n. Some (\<lambda>_. 0)) w xs (of_nat (length xs)) CYSDataQueue = Some (True, q) \<and> queue_rep q [(w, xs)]"
proof -
  have "\<exists>q. RectifyBuffer (\<lambda>n. Some (\<lambda>_. 0)) 16389 CYSDataQueue = Some (True, q)"
    by (simp add: RectifyBuffer_def rectify_check_def CYSDataQueue_def rectify_grow_def new_bytes_def rectify_copy_def Let_def del: upt_rec_numeral)
  then have "InsertData (\<lambda>n. Some (\<lambda>_. 0)) w xs 16385 CYSDataQueue \<noteq> Some (False, CYSDataQueue)"
    by (auto simp: InsertData_def Let_def split: bind_splits)
  then show ?thesis using InsertData_enqueues [OF queue_rep_empty, of "(w, xs)" "\<lambda>n. Some (\<lambda>_. 0)"] assms
    by (simp add: packet_ok_def queue_ambiguous_def CYSDataQueue_def)
qed

theorem oversized_send_replays_witness:
  "\<exists>e1 head q. tn_SendData (\<lambda>n. Some (\<lambda>_. 0)) (replicate 16396 7) (MAKELONG 1 1) \<lparr>wMainCmdID = 3, wSubCmdID = 101\<rparr> (replicate 16373 9) 16373 (in_service 8000 100 []) = Some (True, e1) \<and>
    GetData (of_nat MAX_ASYNCHRONISM_DATA) (m_SendQueueService e1) = Some (Some (head, []), q) \<and>
    tn_OnQueueServiceSink (\<lambda>n. Some (\<lambda>_. 0)) (\<lambda>k. (None, True)) 0 0 (\<lambda>k. 0) (wIdentifier head)
      (request (replicate 16396 7) (MAKELONG 0 1) \<lparr>wMainCmdID = 3, wSubCmdID = 100\<rparr> 2 [5, 6] @ replicate 16370 0) e1 =
    serve (\<lambda>n. Some (\<lambda>_. 0)) (\<lambda>k. (None, True)) (MAKELONG 0 1) \<lparr>wMainCmdID = 3, wSubCmdID = 100\<rparr> 2 [5, 6] e1"
proof -
  let ?heap = "\<lambda>n. Some (\<lambda>_. 0)" and ?e = "in_service 8000 100 []" and ?c = "\<lparr>wMainCmdID = 3, wSubCmdID = 101\<rparr>" and ?d = "\<lparr>wMainCmdID = 3, wSubCmdID = 100\<rparr>"
  obtain stack where stack: "stack = replicate 16396 (7 :: byte)" "length stack = 16396" by simp
  obtain dat where dat: "dat = replicate 16373 (9 :: byte)" "length dat = 16373" by simp
  have u: "unat (16373 :: uint16) = 16373" by simp
  have s: "tn_bService ?e" "unat (16373 :: uint16) \<le> length dat" "unat (16373 :: uint16) + 8 \<le> SOCKET_TCP_BUFFER"
    by (simp_all add: dat SOCKET_TCP_BUFFER_def)
  let ?xs = "request stack (MAKELONG 1 1) ?c 16373 (take (unat (16373 :: uint16)) dat)"
  have lx: "length ?xs = 16385" using length_request [OF stack(2), of "take (unat (16373 :: uint16)) dat"] dat(2) by (simp add: SOCKET_TCP_BUFFER_def)
  have dq: "m_DataQueue qs_started = CYSDataQueue" by (simp add: qs_started_def qs_StartService_def SetQueueServiceSink_def CQueueService_def Let_def)
  obtain q where q: "InsertData ?heap QUEUE_SEND_REQUEST ?xs 16385 CYSDataQueue = Some (True, q)" "queue_rep q [(QUEUE_SEND_REQUEST, ?xs)]"
    using big_packet_inserted [OF lx] lx by auto
  let ?e1 = "?e\<lparr>m_SendQueueService := post_completion True (qs_started\<lparr>m_DataQueue := q\<rparr>)\<rparr>"
  have e1: "tn_SendData ?heap stack (MAKELONG 1 1) ?c dat 16373 ?e = Some (True, ?e1)"
    using tn_SendData_form [OF s(1) stack(2) s(2,3), of ?heap "MAKELONG 1 1" ?c] q(1) dq by (simp add: AddToQueue_def)
  have r: "queue_rep (m_DataQueue (m_SendQueueService ?e)) []" using dq queue_rep_empty by simp
  have "unat (m_dwDataPacketCount q) = 1" using q(2) by (simp add: queue_rep_def)
  then have n: "m_dwDataPacketCount (m_DataQueue (m_SendQueueService ?e1)) = 1" by (simp add: post_completion_def word_unat_eq_iff)
  show ?thesis unfolding stack(1) [symmetric] dat(1) [symmetric]
    using oversized_send_replays [OF s(1) stack(2) s(2) _ _ r e1 n, of "[5, 6]" 2 "request stack (MAKELONG 0 1) ?d 2 [5, 6] @ replicate 16370 0"
        stack "MAKELONG 0 1" ?d "replicate 16370 0" "\<lambda>k. (None, True)" 0 0 "\<lambda>k. 0" ?e1] e1 by auto
qed

section \<open>Detection\<close>

lemma SendData_keeps_socket:
  assumes "SendData fresh ok pData n c r s = Some (res, s')"
  shows "m_hSocket s' = m_hSocket s"
proof (cases "may_send r s")
  case True
  then have m: "\<not> m_bCloseIng s" "m_hSocket s \<noteq> None" by (simp_all add: may_send_def)
  have sf: "m_hSocket t' = m_hSocket t" if "send_filled p ok t = Some (res', t')" "\<not> m_bCloseIng t" "m_hSocket t \<noteq> None" for p t res' t'
    using that by (cases "m_OverLappedSendActive t") (auto simp: send_filled_def OnSendCompleted_def Let_def wsa_send_def split: if_splits list.splits)
  show ?thesis using assms m True unfolding SendData_def
    by (auto split: if_splits option.splits bind_splits prod.splits dest!: GetSendOverLapped_core sf simp: send_core_eq)
qed (use assms in \<open>auto simp: SendData_def\<close>)

lemma detect_item_effect:
  assumes "engine_inv p e" "k < length (m_StorageSocketItem e)" "detect_item heap env now brk rt tick k e = Some e'"
  shows "m_hSocket (item e' k) = (if rt < now \<and> silent_too_long now brk rt (item e k) then None else m_hSocket (item e k))"
proof -
  consider (skip) "rt \<ge> now \<or> \<not> silent_too_long now brk rt (item e k) \<and> \<not> IsReadySend (item e k)" "e' = e"
    | (close) r where "rt < now" "silent_too_long now brk rt (item e k)"
        "on_item heap k (\<lambda>s. Some (CloseSocket (m_wRountID s) s)) e = Some (r, e')"
    | (ping) r where "\<not> silent_too_long now brk rt (item e k)"
        "on_item heap k (\<lambda>s. SendData (fst (env k)) (snd (env k)) (le_word tick @ le_word (0 :: uint32)) 8
          \<lparr>wMainCmdID = MDM_KN_COMMAND, wSubCmdID = SUB_KN_DETECT_SOCKET\<rparr> (m_wRountID s) s) e = Some (r, e')"
    using assms(3) unfolding detect_item_def by (auto split: if_splits)
  then show ?thesis
  proof cases
    case skip
    then show ?thesis by auto
  next
    case close
    then have "\<exists>r. CloseSocket (m_wRountID (item e k)) (item e k) = (r, item e' k)"
      using on_item_step [OF assms(1,2) close(3)] CloseSocket_step by auto
    then show ?thesis using close(1,2) CloseSocket_effect(1) [of "item e k"] by auto
  next
    case ping
    then obtain r' where "SendData (fst (env k)) (snd (env k)) (le_word tick @ le_word (0 :: uint32)) 8
          \<lparr>wMainCmdID = MDM_KN_COMMAND, wSubCmdID = SUB_KN_DETECT_SOCKET\<rparr> (m_wRountID (item e k)) (item e k) = Some (r', item e' k)"
      using on_item_step [OF assms(1,2) ping(2)] SendData_step by blast
    then show ?thesis using SendData_keeps_socket ping(1) by auto
  qed
qed

lemma detect_items_effect:
  assumes "engine_inv p e" "set ks \<subseteq> {..<length (m_StorageSocketItem e)}" "distinct ks" "detect_items heap env now brk ticks ks e = Some e'" "k < length (m_StorageSocketItem e)"
  shows "if k \<in> set ks then m_hSocket (item e' k) = (if m_dwRecvTickCount (item e k) < now \<and> silent_too_long now brk (m_dwRecvTickCount (item e k)) (item e k) then None else m_hSocket (item e k))
    else item e' k = item e k"
  using assms
proof (induction ks arbitrary: e)
  case (Cons j ks)
  obtain e1 where e1: "detect_item heap env now brk (m_dwRecvTickCount (item e j)) (ticks j) j e = Some e1" "detect_items heap env now brk ticks ks e1 = Some e'"
    using Cons.prems(4) by (auto split: bind_splits)
  have j: "j < length (m_StorageSocketItem e)" using Cons.prems(2) by simp
  note i1 = detect_item_inv [OF Cons.prems(1) j e1(1)]
  have ih: "if k \<in> set ks then m_hSocket (item e' k) = (if m_dwRecvTickCount (item e1 k) < now \<and> silent_too_long now brk (m_dwRecvTickCount (item e1 k)) (item e1 k) then None else m_hSocket (item e1 k))
    else item e' k = item e1 k" using Cons.IH [OF _ _ _ e1(2)] i1 Cons.prems by simp
  show ?case
  proof (cases "k = j")
    case True
    then have "item e' k = item e1 k" using ih Cons.prems(3) by simp
    then show ?thesis using detect_item_effect [OF Cons.prems(1) j e1(1)] True by simp
  next
    case False
    then have "item e1 k = item e k" using i1 Cons.prems(5) by blast
    then show ?thesis using ih False by simp
  qed
qed simp

text \<open>Dead connections are closed and live ones are not. Handling a detection request, the engine closes exactly the active connections from which
  nothing arrived for longer than the limit: 4 seconds before their first packet, and afterwards the time since the last detection, at least 9
  seconds. Every other connection stays as it was, but for a detection packet that it may be sent. This is for a request that is handled without
  interruption: the time of the last reception is read before the lock is taken, and may be old when it is compared.\<close>

theorem detection_closes_silent:
  assumes "(engine_step heap)\<^sup>*\<^sup>* (started port wMaxConnect buf) t" "e = eng t" "k < length (m_StorageSocketItem e)"
    and "tn_OnQueueServiceSink heap env now now' ticks QUEUE_DETECT_SOCKET b e = Some e'"
  shows "m_hSocket (item e' k) =
    (if k \<in> set (m_ActiveSocketItem e) \<and> m_dwRecvTickCount (item e k) < now \<and>
        now - m_dwRecvTickCount (item e k) > (if m_dwRecvPacketCount (item e k) > 0 then max (now - m_dwLastDetect e) 9000 else 4000)
     then None else m_hSocket (item e k))"
proof -
  have i: "engine_inv (taken_item t) e" using started_inv [OF assms(1)] assms(2) by simp
  let ?e = "e\<lparr>m_dwLastDetect := now'\<rparr>"
  have "engine_inv (taken_item t) ?e" "distinct (m_ActiveSocketItem e)" using i by (simp_all add: engine_inv_def pool_ok_def pool_item_ok_def)
  moreover have "detect_items heap env now (max (now - m_dwLastDetect e) TIME_BREAK_READY) ticks (m_ActiveSocketItem e) ?e = Some e'"
    using assms(4) by (simp add: tn_OnQueueServiceSink_def queue_ids sink_detect_def)
  ultimately show ?thesis
    using detect_items_effect [of "taken_item t" ?e "m_ActiveSocketItem e" heap env now "max (now - m_dwLastDetect e) TIME_BREAK_READY" ticks e' k]
      active_bound [OF i] assms(3)
    by (auto simp: silent_too_long_def IsReadySend_def TIME_BREAK_READY_def TIME_BREAK_CONNECT_def split: if_splits)
qed

text \<open>A connection that has sent nothing for five seconds.\<close>

theorem detection_closes_silent_witness:
  "\<exists>t e e'. (engine_step (\<lambda>n. Some (\<lambda>_. 0)))\<^sup>*\<^sup>* (started 8000 100 (replicate MAX_ASYNCHRONISM_DATA 0)) t \<and> e = eng t \<and> m_hSocket (item e 0) = Some 5 \<and>
     tn_OnQueueServiceSink (\<lambda>n. Some (\<lambda>_. 0)) (\<lambda>k. (None, True)) 5002 5002 (\<lambda>k. 0) QUEUE_DETECT_SOCKET [] e = Some e' \<and> m_hSocket (item e' 0) = None"
proof -
  obtain t e where r: "(engine_step (\<lambda>n. Some (\<lambda>_. 0)))\<^sup>*\<^sup>* (started 8000 100 (replicate MAX_ASYNCHRONISM_DATA 0)) t" and t: "e = eng t"
    and e: "m_ActiveSocketItem e = [0]" "m_StorageSocketItem e = [snd (RecvData True (Attach 5 9 1 2 (CServerSocketItem [] 0)))]"
    using one_accepted by blast
  have "item e 0 = snd (RecvData True (Attach 5 9 1 2 (CServerSocketItem [] 0)))" by (simp add: e)
  then have f: "m_hSocket (item e 0) = Some 5" "m_dwRecvTickCount (item e 0) = 1" "m_dwRecvPacketCount (item e 0) = 0" "m_bRecvIng (item e 0)"
    by (simp_all add: RecvData_def Attach_def CServerSocketItem_def Let_def)
  have "silent_too_long 5002 brk 1 (item e 0)" for brk using f by (simp add: silent_too_long_def IsReadySend_def TIME_BREAK_CONNECT_def)
  moreover have "calls (snd (CloseSocket (m_wRountID (item e 0)) (item e 0))) = calls (item e 0)" using f by (simp add: CloseSocket_def)
  ultimately obtain e' where d: "tn_OnQueueServiceSink (\<lambda>n. Some (\<lambda>_. 0)) (\<lambda>k. (None, True)) 5002 5002 (\<lambda>k. 0) QUEUE_DETECT_SOCKET [] e = Some e'"
    using f e(1) by (cases "CloseSocket (m_wRountID (item e 0)) (item e 0)")
      (simp add: tn_OnQueueServiceSink_def queue_ids sink_detect_def detect_item_def on_item_def word_le_nat_alt)
  have "0 < length (m_StorageSocketItem e)" by (simp add: e)
  from detection_closes_silent [OF r t this d] have "m_hSocket (item e' 0) = None" using e(1) f by (simp add: word_less_nat_alt)
  then show ?thesis using r t f(1) d by blast
qed

section \<open>The end of the service\<close>

lemma sink_calls_off: "\<not> tn_bService e \<Longrightarrow> sink_calls heap k cs e = Some e"
  by (induction cs) (auto simp: tn_OnSocketAcceptEvent_def tn_OnSocketReadEvent_def tn_OnSocketCloseEvent_def split: item_call.splits)

definition idle :: "socket_item \<Rightarrow> bool" where
  "idle s \<longleftrightarrow> m_hSocket s = None \<and> m_bNotify s \<and> \<not> m_bRecvIng s \<and> m_OverLappedSendActive s = [] \<and> m_dwRecvPacketCount s = 0 \<and> m_dwRecvSize s = 0"

lemma conclude_item: "\<exists>r s'. CloseSocket (m_wRountID s) s = (r, s') \<and> idle (ResetSocketData s')"
  using CloseSocket_effect(1) [of s] by (cases "CloseSocket (m_wRountID s) s") (simp add: idle_def ResetSocketData_def)

lemma conclude_items_idle:
  assumes "\<not> tn_bService e"
  shows "\<exists>e'. conclude_items heap ks e = Some e' \<and> m_FreeSocketItem e' = m_FreeSocketItem e \<and> m_ActiveSocketItem e' = m_ActiveSocketItem e \<and> \<not> tn_bService e' \<and>
    length (m_StorageSocketItem e') = length (m_StorageSocketItem e) \<and>
    (\<forall>k < length (m_StorageSocketItem e). if k \<in> set ks then idle (item e' k) else item e' k = item e k)"
  using assms
proof (induction ks arbitrary: e)
  case (Cons j ks)
  obtain r s' where s': "CloseSocket (m_wRountID (item e j)) (item e j) = (r, s')" "idle (ResetSocketData s')" using conclude_item by blast
  let ?e = "e\<lparr>m_StorageSocketItem := (m_StorageSocketItem e)[j := ResetSocketData s']\<rparr>"
  have o: "on_item heap j (\<lambda>s. let (r, s) = CloseSocket (m_wRountID s) s in Some (r, ResetSocketData s)) e = Some (r, ?e)"
    using s'(1) Cons.prems by (simp add: on_item_def sink_calls_off)
  obtain e' where e': "conclude_items heap ks ?e = Some e'" "m_FreeSocketItem e' = m_FreeSocketItem e" "m_ActiveSocketItem e' = m_ActiveSocketItem e" "\<not> tn_bService e'"
      "length (m_StorageSocketItem e') = length (m_StorageSocketItem e)"
      "\<forall>k < length (m_StorageSocketItem e). if k \<in> set ks then idle (item e' k) else item e' k = item ?e k"
    using Cons.IH [of ?e] Cons.prems by auto
  have "if k \<in> set (j # ks) then idle (item e' k) else item e' k = item e k" if "k < length (m_StorageSocketItem e)" for k
    using e'(6) that s'(2) by (cases "k = j"; cases "k \<in> set ks") auto
  then show ?case using o e' by auto
qed simp

text \<open>Stopping the service frees everything: no connection is active any more, every item is in the list of free ones once, and no connection that was
  active has a socket, an operation in flight or unread bytes left.\<close>

theorem conclude_frees_all:
  assumes "(engine_step heap)\<^sup>*\<^sup>* (started port wMaxConnect buf) t" "e = eng t"
  shows "\<exists>e'. tn_ConcludeService heap e = Some (True, e') \<and> m_ActiveSocketItem e' = [] \<and> distinct (m_FreeSocketItem e') \<and>
    set (m_FreeSocketItem e') = {..<length (m_StorageSocketItem e')} \<and> (\<forall>k \<in> set (m_ActiveSocketItem e). idle (item e' k))"
proof -
  have i: "engine_inv (taken_item t) e" using started_inv [OF assms(1)] assms(2) by simp
  let ?e = "e\<lparr>tn_bService := False, m_dwLastDetect := 0, m_SendQueueService := conclude_finish (conclude_stop (m_SendQueueService e))\<rparr>"
  obtain e' where e': "conclude_items heap (m_ActiveSocketItem e) ?e = Some e'" "m_FreeSocketItem e' = m_FreeSocketItem e" "m_ActiveSocketItem e' = m_ActiveSocketItem e"
      "length (m_StorageSocketItem e') = length (m_StorageSocketItem e)"
      "\<forall>k < length (m_StorageSocketItem e). if k \<in> set (m_ActiveSocketItem e) then idle (item e' k) else item e' k = item e k"
    using conclude_items_idle [of ?e heap "m_ActiveSocketItem e"] by auto
  then show ?thesis using i active_bound [OF i] by (auto simp: tn_ConcludeService_def engine_inv_def pool_ok_def)
qed

theorem conclude_frees_all_witness:
  "\<exists>e e'. m_ActiveSocketItem e = [0] \<and> tn_ConcludeService (\<lambda>n. Some (\<lambda>_. 0)) e = Some (True, e') \<and> m_ActiveSocketItem e' = [] \<and> idle (item e' 0)"
proof -
  obtain t where r: "(engine_step (\<lambda>n. Some (\<lambda>_. 0)))\<^sup>*\<^sup>* (started 8000 100 (replicate MAX_ASYNCHRONISM_DATA 0)) t"
    and e: "m_ActiveSocketItem (eng t) = [0]" using one_accepted by blast
  then show ?thesis using conclude_frees_all [OF r refl] by auto
qed

section \<open>Events\<close>

text \<open>The kernel event of a call of the sink.\<close>

fun call_event :: "item_call \<Rightarrow> kernel_event" where
  "call_event (OnSocketAcceptEvent i a) = NetworkAcceptEvent i a"
| "call_event (OnSocketReadEvent i c xs) = NetworkReadEvent i c xs"
| "call_event (OnSocketCloseEvent i a t) = NetworkShutEvent i a t"

fun post_all :: "heap \<Rightarrow> kernel_event list \<Rightarrow> queue_event \<Rightarrow> queue_event option" where
  "post_all heap [] q = Some q"
| "post_all heap (ev # evs) q = do {
     (_, q) \<leftarrow> post heap ev q;
     post_all heap evs q
   }"

lemma sink_calls_post:
  "tn_bService e \<Longrightarrow> sink_calls heap k cs e = Some e' \<Longrightarrow> post_all heap (map call_event cs) (m_QueueServiceEvent e) = Some (m_QueueServiceEvent e')"
proof (induction cs arbitrary: e)
  case (Cons c cs)
  have free: "tn_bService (snd (FreeSocketItem k e)) = tn_bService e" "m_QueueServiceEvent (snd (FreeSocketItem k e)) = m_QueueServiceEvent e" for e
    by (simp_all add: FreeSocketItem_def)
  show ?case using Cons.prems
    by (cases c) (auto simp: tn_OnSocketAcceptEvent_def tn_OnSocketReadEvent_def tn_OnSocketCloseEvent_def free split: bind_splits dest!: Cons.IH [rotated])
qed simp

text \<open>The events of a connection. Whatever an operation of a connection reports to its sink, the engine posts to the attemper engine as one kernel event per call, in
  the same order, with the identifier, address, command and data of the call, and nothing else.\<close>

theorem item_events_posted:
  assumes "tn_bService e" "k < length (m_StorageSocketItem e)" "on_item heap k f e = Some (r, e')"
  shows "\<exists>s' r'. f (item e k) = Some (r', s') \<and>
    post_all heap (map call_event (drop (length (calls (item e k))) (calls s'))) (m_QueueServiceEvent e) = Some (m_QueueServiceEvent e')"
  using assms sink_calls_post [of "e\<lparr>m_StorageSocketItem := _\<rparr>" heap k _ e'] by (fastforce simp: on_item_def split: bind_splits)

text \<open>Accepting a connection posts the accept event.\<close>

theorem item_events_posted_witness:
  "let e = (in_service 8000 100 (replicate MAX_ASYNCHRONISM_DATA 0))\<lparr>m_StorageSocketItem := [CServerSocketItem [] 0]\<rparr>
   in \<exists>e'. on_item (\<lambda>n. Some (\<lambda>_. 0)) 0 (\<lambda>s. Some (RecvData True (Attach 5 9 1 2 s))) e = Some (True, e') \<and>
     post_all (\<lambda>n. Some (\<lambda>_. 0)) [NetworkAcceptEvent (MAKELONG 0 1) 9] (m_QueueServiceEvent e) = Some (m_QueueServiceEvent e')"
proof -
  let ?heap = "\<lambda>n. Some (\<lambda>_. 0)" and ?b = "replicate MAX_ASYNCHRONISM_DATA (0 :: byte)" and ?f = "\<lambda>s. Some (RecvData True (Attach 5 9 1 2 s))"
  let ?e = "(in_service 8000 100 ?b)\<lparr>m_StorageSocketItem := [CServerSocketItem [] 0]\<rparr>"
  obtain q where q: "PostNetworkAcceptEvent ?heap (MAKELONG 0 1) 9 \<lparr>m_cbBuffer = ?b, m_pIQueueService = qs_started\<rparr> = Some (True, q)"
    using accept_event_posted [of "\<lparr>m_cbBuffer = ?b, m_pIQueueService = qs_started\<rparr>"] by auto
  then obtain e' where e': "on_item ?heap 0 ?f ?e = Some (True, e')"
    by (simp add: on_item_def RecvData_def Attach_def CServerSocketItem_def GetSocketID_def tn_OnSocketAcceptEvent_def Let_def)
  have "drop (length (calls (item ?e 0))) (calls (snd (RecvData True (Attach 5 9 1 2 (item ?e 0))))) = [OnSocketAcceptEvent (MAKELONG 0 1) 9]"
    by (simp add: RecvData_def Attach_def CServerSocketItem_def GetSocketID_def Let_def)
  then show ?thesis using item_events_posted [OF _ _ e'] e' by (auto simp: Let_def)
qed

text \<open>After 65535 sessions the first item has the identifier 0, which \<open>SendData\<close> takes for all connections.\<close>

lemma first_item_identifier_wraps: "session_id 0 65535 = 0"
  by (simp add: session_id_def MAKELONG_def)

end
