(* ===== verification/Spec2Isabelle.thy ===== *)
theory Spec2Isabelle
  imports Intset Dict_Rehash Dict_Scan Util_Num Adlist Multi_Props Crc Pubsub
    Timer_Engine Alloc_ID Base64 Niuniu Tcp_Engine
begin

text \<open>
  \<^bold>\<open>The program.\<close> The repository holds a platform for online card and board games: server processes in C++
  (the server components: the kernel engine with its queues, timers, sockets and database engine, the service
  core with its containers and codecs, the game, correspondence, match and private-room servers),
  one module for each game, and the Redis server in C (\<open>src/Redis-3.0\<close>) that the game servers
  use as their store. The development models the core of both halves.

  \<^bold>\<open>How the parts interact.\<close> In the game servers everything is an event: the TCP engine turns the bytes of its
  connections into messages, and timers, connections and database workers post events, a queue service stores them as packets in a ring buffer, one thread takes
  them out in order and calls the handlers of the application, which run the game logic. In Redis, clients send
  commands, the dispatcher queues or executes them against hash tables and sets, watched keys and
  subscriptions connect clients to each other, and the encodings and checksums serve storage and cluster.

  \<^bold>\<open>Conventions.\<close> A C or C++ function is a HOL function of the same name, a struct or class a \<open>record\<close>,
  an enumeration or tagged union a \<open>datatype\<close>. Unsigned integers are words of their width; where a
  value is used as an index it is read with \<open>unat\<close>. A block of memory is a list of bytes, and an
  access outside it, an access through a null pointer or a failed assertion of Redis is the value
  \<^const>\<open>None\<close>: a theorem that an operation returns \<open>Some\<close> includes that none of this happens. The \<open>ASSERT\<close>s of
  the C++ code are compiled out of a release build and are ignored, so that what happens after a violated
  one is modelled as the release build does it (\<open>YSDataQueue.cpp\<close>, \<open>QueueService.cpp\<close>, \<open>TimerEngine.cpp\<close>, \<open>YSEncrypt.cpp\<close>,
  \<open>TCPNetworkEngine.cpp\<close>); \<open>GetCardType\<close> of \<open>GameLogic.cpp\<close> is \<^const>\<open>None\<close> only for more than the five
  cards of its arrays. Allocators, random numbers, the clock, hash functions, the order of hash table
  iteration, the outcome of system calls and the callbacks of the application are parameters. Replies to Redis
  clients are appended to their output without limits or failures.

  \<^bold>\<open>Loops.\<close> Loops are structural recursion or functions with a termination proof, with these exceptions. The loops
  of \<open>Adlist\<close> that follow pointers (\<open>listDup\<close>, \<open>listSearchKey\<close>) have the length field of the list plus one as
  fuel, the inner loop of \<open>dictScan\<close> the size of the larger table, and \<open>dictRehashMilliseconds\<close>, which runs until
  its time is over, takes its fuel as an argument: it is proved for each that this, or more turns than buckets,
  is enough. The frame decoder of the WebSocket layer is a \<open>partial_function\<close>, in which a loop without end is
  \<^const>\<open>None\<close> too; for the buffers of the theorem about it it is proved to return. The waiting loop of
  \<open>ConcludeService\<close> is one poll per call.

  \<^bold>\<open>Theories.\<close>
  \<^item> \<open>Redis_Prelude\<close>: machine types, blocks of bytes, little-endian integers, list lemmas. \<open>Interfaces\<close>: the
    locales \<open>set_impl\<close>, \<open>map_impl\<close> and \<open>fifo_impl\<close>, the contracts of sets, maps and queues, with the
    refinement of a whole run of operations proved once in each.
  \<^item> \<open>Data_Queue\<close> (\<open>YSDataQueue.cpp\<close>): the ring of packets with 32-bit positions. It interprets \<open>fifo_impl\<close>:
    any run is the one of an ideal queue, except for insertions in the one ambiguous state, in which
    the order is lost; the gathering overload of \<open>InsertData\<close> equals the simple one.
  \<^item> \<open>Queue_Service\<close> (\<open>QueueService.cpp\<close>, \<open>YSThread.cpp\<close>): producers and the service thread as steps of a schedule; the
    thread takes a completion, extracts a packet and calls the sink in three steps. Delivery in order and no
    packet left behind, for the schedules in which every packet is added in a state in which the ring keeps its
    order (\<open>qs_ready\<close>), and the lost wake-up before the service starts.
  \<^item> \<open>Kernel_Events\<close> (\<open>QueueServiceEvent.h\<close>, the sinks in \<open>AttemperEngine.cpp\<close> and \<open>DataBase.cpp\<close>): packing and
    unpacking of events; what is posted is what the handlers are called with, for the same schedules. That
    \<open>ConcludeService\<close> of an engine disconnects its events from the queue is not represented.
  \<^item> \<open>Packet_Codec\<close>, \<open>Packet_Stream\<close> (\<open>Packet.h\<close>, \<open>YSEncrypt.cpp\<close>): the packets on the wire with their byte maps and check
    code; round trip, detection of a changed byte, and the locale \<open>packet_stream\<close> of a loop that takes packets from
    the front of a buffer.
  \<^item> \<open>Block_Hash\<close>, \<open>Sha1\<close> (\<open>sha1.cpp\<close>): the locale \<open>block_hash\<close> of a hash fed in pieces, and the unrolled SHA-1 against
    the standard. \<open>Websocket\<close> (\<open>CWebSocket\<close> of \<open>TCPNetworkEngine.cpp\<close>): the handshake, and frames in both
    directions, with the inputs on which the decoder and the parser leave their buffers.
  \<^item> \<open>Tcp_Item\<close>, \<open>Tcp_Session\<close>, \<open>Tcp_Engine\<close> (\<open>TCPNetworkEngine.cpp\<close>): a connection, its life and the engine. Messages
    are reassembled from any cut of the stream (\<open>Tcp_Item\<close> interprets \<open>packet_stream\<close>), sessions follow the protocol accept,
    reads, close, packets go out in order, the pool of connections stays consistent, requests reach
    the connection of their identifier, silent connections are closed, stopping frees everything; and the two
    ways in which messages are lost.
  \<^item> \<open>Timer_Engine\<close> (\<open>TimerEngine.cpp\<close>): timers on the wrapping tick counter; what a tick does, deadlines, the
    bound on notifications, the invariant of the active timers, and the early notification when the clock wraps.
  \<^item> \<open>Alloc_ID\<close> (\<open>YSAllocationID.cpp\<close>): the pool of room numbers never hands out a number twice.
  \<^item> \<open>Base64\<close> (\<open>base64.cpp\<close>): round trip. \<open>Niuniu\<close> (\<open>GameLogic.cpp\<close> of the game Niuniu): ranks by the rules, hands that
    never tie, dealing without repetition, and the bubble sort behind them.
  \<^item> \<open>Intset\<close> (\<open>intset.c\<close>): packed sorted integers at three widths, refining sets (\<open>set_impl\<close>).
  \<^item> \<open>Dict\<close>, \<open>Dict_Rehash\<close>, \<open>Dict_Scan\<close> (\<open>dict.c\<close>): the hash table with incremental rehashing refines a finite map
    (\<open>map_impl\<close>), rehashing completes, and a scan visits every key while the table only grows; a shrinking
    table can make it miss one.
  \<^item> \<open>Adlist\<close> (\<open>adlist.c\<close>): the doubly linked list on a heap of nodes refines lists; copying.
  \<^item> \<open>Util_Num\<close>, \<open>Glob\<close> (\<open>util.c\<close>): integer conversions and the pattern matcher, against reference definitions.
  \<^item> \<open>Multi\<close>, \<open>Multi_Watch\<close>, \<open>Multi_Props\<close> (\<open>multi.c\<close>, \<open>processCommand\<close> and \<open>call\<close> of \<open>redis.c\<close>): transactions;
    the watch tables agree after any events, and EXEC is aborted exactly when a watched key was signalled
    as modified, for any effects of the ordinary commands, of eviction and of expiry; these are lists of
    primitive changes of the state, and they may change keys without signalling them, as MOVE and expiry do.
  \<^item> \<open>Pubsub\<close> (\<open>pubsub.c\<close>): subscriptions on both sides agree, and publishing reaches exactly the subscribers.
  \<^item> \<open>Crc\<close> (\<open>crc16.c\<close>, \<open>crc64.c\<close>, \<open>keyHashSlot\<close> of \<open>cluster.c\<close>): table-driven checksums against polynomial division, hash slots.

  \<^bold>\<open>Bounds.\<close> Packets of the queue have at most 65531 bytes of data, because the packet size is a 16-bit value
  (kernel events have at most 16384). Blocks of the queue stay below 2 GB, the address space of the
  32-bit servers. Deadlines of timers hold as long as the tick counter does not wrap within the
  interval. Hash tables and integer sets stay below the sizes at which their counters would wrap.
  The counters of \<open>base64_decode\<close> are unbounded, which differs from its \<open>int\<close>s for inputs of more than
  2 GB only. \<open>RandCardList\<close> deals one card when asked for none; the theorem about it is for positive counts.

  \<^bold>\<open>Not modelled.\<close> The sockets, completion ports and threads themselves, and locks beyond the atomicity of
  critical sections; the client side of the sockets (\<open>TCPSocketService.cpp\<close>); the database access through COM
  and the MySQL client; the windows and dialogs; the other games and the artificial players; the table
  and match logic of the game server; of Redis, persistence, replication (with the cached link to a master),
  the cluster bus, sentinel, Lua, the sorted sets, ziplists and the memory allocator.
\<close>

end
